(* ===== verification/Prelude.thy ===== *)
theory Prelude
  imports Main "HOL-Library.Word" "HOL-Library.Multiset"
begin

text \<open>
  Shared vocabulary of the liblist development: the types that name the C
  program's values (addresses, possibly-NULL pointers, 32-bit \<open>int\<close>), the
  undefined-behaviour outcomes of a memory access, the error-propagating
  sequencing \<open>bind_err\<close> used to thread them through the operations, and the
  generic lemmas on words and lists that the component theories share.
\<close>

section \<open>Machine types\<close>

text \<open>Heap addresses; a C pointer is an address or NULL (\<open>None\<close>).\<close>

type_synonym addr = nat
type_synonym ptr = "addr option"

text \<open>The C \<open>int\<close> of \<open>total_members\<close>, \<open>swap_count\<close> and \<open>removed_count\<close>.\<close>

type_synonym int32 = "32 word"

text \<open>
  A memory access the C code performs without checking may hit NULL or memory
  that is not (or no longer) allocated: undefined behaviour in C, an error
  value here, so that every such access is a branch of the model.
\<close>

datatype err = Null_dereference | Dangling_pointer

section \<open>Sequencing of fallible steps; list positions\<close>

definition bind_err :: "err + 'a \<Rightarrow> ('a \<Rightarrow> err + 'b) \<Rightarrow> err + 'b" where
  "bind_err m f = (case m of Inl e \<Rightarrow> Inl e | Inr x \<Rightarrow> f x)"

text \<open>Position of the first occurrence of an element (the length when absent).\<close>

primrec index_in :: "'a list \<Rightarrow> 'a \<Rightarrow> nat" where
  "index_in [] a = 0"
| "index_in (x # xs) a = (if x = a then 0 else Suc (index_in xs a))"

named_theorems err_simps "evaluation rules for fallible steps of the model"

lemma bind_err_Inl [simp, err_simps]: "bind_err (Inl e) f = Inl e"
  by (simp add: bind_err_def)

lemma bind_err_Inr [simp, err_simps]: "bind_err (Inr x) f = f x"
  by (simp add: bind_err_def)

lemma bind_err_eq_Inr:
  "bind_err m f = Inr y \<longleftrightarrow> (\<exists>x. m = Inr x \<and> f x = Inr y)"
  by (cases m) auto

lemma bind_err_eq_Inl:
  "bind_err m f = Inl e \<longleftrightarrow> m = Inl e \<or> (\<exists>x. m = Inr x \<and> f x = Inl e)"
  by (cases m) auto

section \<open>Lemmas on 32-bit counters\<close>

lemma sint_of_nat_int32:
  "n < 2 ^ 31 \<Longrightarrow> sint (of_nat n :: int32) = int n"
  by (simp add: sint_uint unat_of_nat uint_nat take_bit_nat_eq_self
      signed_take_bit_int_eq_self)

lemma of_nat_int32_eq_0:
  assumes "n < 2 ^ 32"
  shows "((of_nat n :: int32) = 0) = (n = 0)"
proof
  assume "(of_nat n :: int32) = 0"
  then have "2 ^ 32 dvd n" by (simp add: word_of_nat_eq_0_iff)
  with assms show "n = 0" by (auto dest: dvd_imp_le)
qed simp

lemma of_nat_int32_wraps: "(of_nat (2 ^ 32) :: int32) = 0"
  by simp

section \<open>Address bounds\<close>

lemma bound_step:
  fixes D :: "nat set"
  assumes "\<forall>a \<in> D. a < n" and "D' \<subseteq> D \<union> {n..<n'}" and "n \<le> n'"
  shows "\<forall>a \<in> D'. a < n'"
proof
  fix a
  assume "a \<in> D'"
  with assms(2) have "a \<in> D \<or> a \<in> {n..<n'}" by blast
  with assms(1,3) show "a < n'" by (meson atLeastLessThan_iff less_le_trans)
qed

section \<open>Lists\<close>

lemma index_in_append [simp]:
  "a \<in> set xs \<Longrightarrow> index_in (xs @ ys) a = index_in xs a"
  by (induction xs) auto

lemma index_in_less [simp]: "a \<in> set xs \<Longrightarrow> index_in xs a < length xs"
  by (induction xs) auto

lemma nth_index_in [simp]: "a \<in> set xs \<Longrightarrow> xs ! index_in xs a = a"
  by (induction xs) auto

lemma index_in_nth [simp]:
  "distinct xs \<Longrightarrow> i < length xs \<Longrightarrow> index_in xs (xs ! i) = i"
proof (induction xs arbitrary: i)
  case Nil
  then show ?case by simp
next
  case (Cons x xs)
  then show ?case by (cases i) (auto simp: nth_mem)
qed

lemma length_map_filter_le: "length (List.map_filter f xs) \<le> length xs"
  by (simp add: List.map_filter_def)

lemma length_filter_mset_eq:
  "mset xs = mset ys \<Longrightarrow> length (filter P xs) = length (filter P ys)"
  by (metis mset_filter size_mset)

end
