(* ===== verification/Store.thy ===== *)
theory Store
  imports Prelude
begin

text \<open>
  The C memory the library works on (\<open>src/liblist.c\<close>, lines 18--30).
  A \<open>Member\<close> (\<open>struct list_member\<close>) is the record \<open>member\<close>, a \<open>List\<close>
  (\<open>struct _list\<close>) the record \<open>list_hdr\<close>. The store holds both kinds of heap
  object as partial maps from addresses, together with a bump allocator that
  models \<open>calloc\<close> (it fails when \<open>avail\<close> cells are used up: the
  \<open>AllocationError\<close> of the spec) and the trace of the items handed to a
  caller's \<open>delete_item\<close> callback. An item is an opaque non-NULL
  \<open>void *\<close>, the type parameter \<open>'a\<close>; a NULL item is \<open>None :: 'a option\<close>.

  The list-segment predicate \<open>lseg h p xs q\<close> says that following \<open>next\<close> from
  \<open>p\<close> visits exactly the allocated members \<open>xs\<close> and arrives at \<open>q\<close>; a list
  header is well formed (\<open>hdr_ok\<close>) when its member chain is such a segment
  ending in NULL, \<open>last\<close> is its final member, \<open>total_members\<close> its length
  modulo \<open>2^32\<close>, and the cursor is NULL or one of its members: the invariants
  of section 3 of the spec.
\<close>

section \<open>Heap objects\<close>

record 'a member =
  next_m :: ptr
  item :: 'a

record list_hdr =
  first_m :: ptr
  last_m :: ptr
  current_m :: ptr
  total_members :: int32

record 'a store =
  members :: "addr \<rightharpoonup> 'a member"
  lists :: "addr \<rightharpoonup> list_hdr"
  next_free :: addr
  avail :: nat
  destroyed :: "'a list"

type_synonym 'a heap = "addr \<rightharpoonup> 'a member"

section \<open>Allocation, release and access\<close>

text \<open>
  \<open>calloc(1, sizeof(Member))\<close> followed by \<open>new->item = item\<close>: a fresh member
  with a NULL \<open>next\<close> and the item, or NULL when memory is exhausted.
\<close>

definition calloc_member :: "'a \<Rightarrow> 'a store \<Rightarrow> (addr \<times> 'a store) option" where
  "calloc_member x s =
     (if avail s = 0 then None
      else Some (next_free s,
        s\<lparr>members := (members s)(next_free s \<mapsto> \<lparr>next_m = None, item = x\<rparr>),
          next_free := Suc (next_free s), avail := avail s - 1\<rparr>))"

text \<open>\<open>calloc(1, sizeof(List))\<close>: all fields zero, that is NULL pointers and count 0.\<close>

definition empty_hdr :: list_hdr where
  "empty_hdr = \<lparr>first_m = None, last_m = None, current_m = None, total_members = 0\<rparr>"

definition calloc_list :: "'a store \<Rightarrow> (addr \<times> 'a store) option" where
  "calloc_list s =
     (if avail s = 0 then None
      else Some (next_free s,
        s\<lparr>lists := (lists s)(next_free s \<mapsto> empty_hdr),
          next_free := Suc (next_free s), avail := avail s - 1\<rparr>))"

text \<open>
  \<open>free\<close>. Every \<open>free\<close> of the code follows a successful dereference of the
  same pointer, so the object is allocated when it is released;
  \<open>free(NULL)\<close> does nothing.
\<close>

definition free_member :: "addr \<Rightarrow> 'a store \<Rightarrow> 'a store" where
  "free_member a s = s\<lparr>members := (members s)(a := None), avail := Suc (avail s)\<rparr>"

definition free_list :: "ptr \<Rightarrow> 'a store \<Rightarrow> 'a store" where
  "free_list p s =
     (case p of None \<Rightarrow> s | Some a \<Rightarrow> s\<lparr>lists := (lists s)(a := None), avail := Suc (avail s)\<rparr>)"

text \<open>Dereferencing \<open>p->\<dots>\<close>: NULL and unallocated addresses are errors.\<close>

definition get_list :: "'a store \<Rightarrow> ptr \<Rightarrow> err + list_hdr" where
  "get_list s p =
     (case p of None \<Rightarrow> Inl Null_dereference
      | Some a \<Rightarrow> (case lists s a of None \<Rightarrow> Inl Dangling_pointer | Some L \<Rightarrow> Inr L))"

definition get_member :: "'a store \<Rightarrow> ptr \<Rightarrow> err + 'a member" where
  "get_member s p =
     (case p of None \<Rightarrow> Inl Null_dereference
      | Some a \<Rightarrow> (case members s a of None \<Rightarrow> Inl Dangling_pointer | Some m \<Rightarrow> Inr m))"

text \<open>Writing back a list header that was just read through the same pointer.\<close>

definition put_list :: "ptr \<Rightarrow> list_hdr \<Rightarrow> 'a store \<Rightarrow> 'a store" where
  "put_list p L s = (case p of None \<Rightarrow> s | Some a \<Rightarrow> s\<lparr>lists := (lists s)(a \<mapsto> L)\<rparr>)"

text \<open>\<open>p->next = q\<close> and \<open>p->item = x\<close> on a member.\<close>

definition set_next :: "ptr \<Rightarrow> ptr \<Rightarrow> 'a store \<Rightarrow> err + 'a store" where
  "set_next p q s = bind_err (get_member s p) (\<lambda>m.
     Inr (s\<lparr>members := (members s)(the p \<mapsto> m\<lparr>next_m := q\<rparr>)\<rparr>))"

definition set_item :: "ptr \<Rightarrow> 'a \<Rightarrow> 'a store \<Rightarrow> err + 'a store" where
  "set_item p x s = bind_err (get_member s p) (\<lambda>m.
     Inr (s\<lparr>members := (members s)(the p \<mapsto> m\<lparr>item := x\<rparr>)\<rparr>))"

text \<open>
  \<open>if (delete_item != NULL) delete_item(x)\<close>: the callback releases the
  caller's item; the model records the call in \<open>destroyed\<close>.
\<close>

definition call_delete_item :: "bool \<Rightarrow> 'a \<Rightarrow> 'a store \<Rightarrow> 'a store" where
  "call_delete_item delete_item x s =
     (if delete_item then s\<lparr>destroyed := destroyed s @ [x]\<rparr> else s)"

section \<open>Linked segments and well-formed lists\<close>

primrec lseg :: "'a heap \<Rightarrow> ptr \<Rightarrow> addr list \<Rightarrow> ptr \<Rightarrow> bool" where
  "lseg h p [] q = (p = q)"
| "lseg h p (a # as) q =
     (p = Some a \<and> (case h a of None \<Rightarrow> False | Some m \<Rightarrow> lseg h (next_m m) as q))"

definition items_at :: "'a heap \<Rightarrow> addr list \<Rightarrow> 'a list" where
  "items_at h xs = map (\<lambda>a. item (the (h a))) xs"

definition hdr_ok :: "'a heap \<Rightarrow> list_hdr \<Rightarrow> addr list \<Rightarrow> bool" where
  "hdr_ok h L xs =
     (lseg h (first_m L) xs None \<and>
      last_m L = (if xs = [] then None else Some (last xs)) \<and>
      total_members L = of_nat (length xs) \<and>
      (case current_m L of None \<Rightarrow> True | Some c \<Rightarrow> c \<in> set xs))"

definition list_ok :: "'a store \<Rightarrow> addr \<Rightarrow> addr list \<Rightarrow> bool" where
  "list_ok s l xs = (case lists s l of None \<Rightarrow> False | Some L \<Rightarrow> hdr_ok (members s) L xs)"

text \<open>Every allocated object lies below the allocator's frontier.\<close>

definition store_ok :: "'a store \<Rightarrow> bool" where
  "store_ok s =
     ((\<forall>a \<in> dom (members s). a < next_free s) \<and> (\<forall>a \<in> dom (lists s). a < next_free s))"

section \<open>Lemmas on segments\<close>

named_theorems lseg_simps "rewriting of list segments"

lemma lseg_None [simp, lseg_simps]: "lseg h None xs q = (xs = [] \<and> q = None)"
  by (cases xs) auto

lemma lseg_append [lseg_simps]:
  "lseg h p (xs @ ys) q = (\<exists>r. lseg h p xs r \<and> lseg h r ys q)"
  by (induction xs arbitrary: p) (auto split: option.splits)

lemma lseg_snoc [lseg_simps]:
  "lseg h p (xs @ [a]) q = (lseg h p xs (Some a) \<and> (\<exists>m. h a = Some m \<and> next_m m = q))"
  by (auto simp: lseg_append split: option.splits)

lemma lseg_cong:
  "\<forall>a \<in> set xs. h' a = h a \<Longrightarrow> lseg h' p xs q = lseg h p xs q"
  by (induction xs arbitrary: p) (auto split: option.splits)

lemma lseg_upd_outside [simp, lseg_simps]:
  "a \<notin> set xs \<Longrightarrow> lseg (h(a := v)) p xs q = lseg h p xs q"
  by (rule lseg_cong) auto

lemma lseg_in_dom: "lseg h p xs q \<Longrightarrow> set xs \<subseteq> dom h"
  by (induction xs arbitrary: p) (auto split: option.splits)

lemma lseg_unique: "lseg h p xs None \<Longrightarrow> lseg h p ys None \<Longrightarrow> xs = ys"
proof (induction xs arbitrary: p ys)
  case Nil
  then show ?case by (cases ys) auto
next
  case (Cons a xs)
  then show ?case by (cases ys) (auto split: option.splits)
qed

lemma lseg_hd_not_in_tl:
  assumes "h a = Some m" and "lseg h (next_m m) xs None"
  shows "a \<notin> set xs"
proof
  assume "a \<in> set xs"
  then obtain ys zs where xs: "xs = ys @ a # zs" by (meson split_list)
  with assms(2) obtain r where "lseg h r (a # zs) None" by (auto simp: lseg_append)
  with assms(1) have "lseg h (next_m m) zs None" by simp
  with assms(2) have "xs = zs" by (rule lseg_unique)
  with xs show False by simp
qed

lemma lseg_distinct: "lseg h p xs None \<Longrightarrow> distinct xs"
  by (induction xs arbitrary: p) (auto split: option.splits dest: lseg_hd_not_in_tl)

lemma items_at_cong: "\<forall>a \<in> set xs. h' a = h a \<Longrightarrow> items_at h' xs = items_at h xs"
  by (simp add: items_at_def)

lemma items_at_append [simp]: "items_at h (xs @ ys) = items_at h xs @ items_at h ys"
  by (simp add: items_at_def)

lemma items_at_Cons [simp]: "items_at h (a # xs) = item (the (h a)) # items_at h xs"
  by (simp add: items_at_def)

lemma items_at_Nil [simp]: "items_at h [] = []"
  by (simp add: items_at_def)

lemma length_items_at [simp]: "length (items_at h xs) = length xs"
  by (simp add: items_at_def)

section \<open>Lemmas on the store\<close>

lemma hdr_ok_cong:
  assumes "\<forall>a \<in> set xs. h' a = h a"
  shows "hdr_ok h' L xs = hdr_ok h L xs"
  using lseg_cong [OF assms, of "first_m L" None] by (simp add: hdr_ok_def)

lemma list_ok_frame:
  assumes "list_ok s l xs" and "lists s' l = lists s l"
    and "\<forall>a \<in> set xs. members s' a = members s a"
  shows "list_ok s' l xs"
  using assms hdr_ok_cong [OF assms(3)] by (auto simp: list_ok_def split: option.splits)

lemma list_ok_in_dom: "list_ok s l xs \<Longrightarrow> set xs \<subseteq> dom (members s)"
  by (auto simp: list_ok_def hdr_ok_def split: option.splits dest: lseg_in_dom)

lemma list_ok_distinct: "list_ok s l xs \<Longrightarrow> distinct xs"
  by (auto simp: list_ok_def hdr_ok_def split: option.splits intro: lseg_distinct)

lemma list_ok_lists: "list_ok s l xs \<Longrightarrow> l \<in> dom (lists s)"
  by (auto simp: list_ok_def split: option.splits)

lemma store_ok_step:
  assumes "store_ok s"
    and "dom (members s') \<subseteq> dom (members s) \<union> {next_free s..<next_free s'}"
    and "dom (lists s') \<subseteq> dom (lists s) \<union> {next_free s..<next_free s'}"
    and "next_free s \<le> next_free s'"
  shows "store_ok s'"
  using assms(1) bound_step [OF _ assms(2,4)] bound_step [OF _ assms(3,4)]
  unfolding store_ok_def by blast

lemma store_ok_fresh_member:
  "store_ok s \<Longrightarrow> members s (next_free s) = None"
  by (auto simp: store_ok_def)

lemma store_ok_fresh_list:
  "store_ok s \<Longrightarrow> lists s (next_free s) = None"
  by (auto simp: store_ok_def)

lemma list_ok_fresh:
  "store_ok s \<Longrightarrow> list_ok s l xs \<Longrightarrow> next_free s \<notin> set xs"
  by (auto dest!: list_ok_in_dom simp: store_ok_fresh_member)

lemma lists_upd_same [simp]: "lists s l = Some L \<Longrightarrow> s\<lparr>lists := (lists s)(l \<mapsto> L)\<rparr> = s"
  by (cases s) (simp add: fun_upd_idem)

lemma calloc_member_Some:
  "calloc_member x s = Some (n, s') \<longleftrightarrow>
     0 < avail s \<and> n = next_free s \<and>
     s' = s\<lparr>members := (members s)(n \<mapsto> \<lparr>next_m = None, item = x\<rparr>),
            next_free := Suc n, avail := avail s - 1\<rparr>"
  by (auto simp: calloc_member_def)

lemma calloc_member_None: "calloc_member x s = None \<longleftrightarrow> avail s = 0"
  by (simp add: calloc_member_def)

lemma calloc_list_Some:
  "calloc_list s = Some (n, s') \<longleftrightarrow>
     0 < avail s \<and> n = next_free s \<and>
     s' = s\<lparr>lists := (lists s)(n \<mapsto> empty_hdr), next_free := Suc n, avail := avail s - 1\<rparr>"
  by (auto simp: calloc_list_def)

lemma calloc_list_None: "calloc_list s = None \<longleftrightarrow> avail s = 0"
  by (simp add: calloc_list_def)

lemma get_list_Inr: "get_list s (Some a) = Inr L \<longleftrightarrow> lists s a = Some L"
  by (auto simp: get_list_def split: option.splits)

lemma get_member_Inr: "get_member s (Some a) = Inr m \<longleftrightarrow> members s a = Some m"
  by (auto simp: get_member_def split: option.splits)

lemma get_list_Null [simp]: "get_list s None = Inl Null_dereference"
  by (simp add: get_list_def)

lemma get_member_Null [simp]: "get_member s None = Inl Null_dereference"
  by (simp add: get_member_def)

lemma get_list_Some [simp]:
  "get_list s (Some a) = (case lists s a of None \<Rightarrow> Inl Dangling_pointer | Some L \<Rightarrow> Inr L)"
  by (simp add: get_list_def)

lemma get_member_Some [simp]:
  "get_member s (Some a) = (case members s a of None \<Rightarrow> Inl Dangling_pointer | Some m \<Rightarrow> Inr m)"
  by (simp add: get_member_def)

lemma set_next_Some:
  "members s a = Some m \<Longrightarrow>
   set_next (Some a) q s = Inr (s\<lparr>members := (members s)(a \<mapsto> m\<lparr>next_m := q\<rparr>)\<rparr>)"
  by (simp add: set_next_def get_member_Some)

lemma set_item_Some:
  "members s a = Some m \<Longrightarrow>
   set_item (Some a) x s = Inr (s\<lparr>members := (members s)(a \<mapsto> m\<lparr>item := x\<rparr>)\<rparr>)"
  by (simp add: set_item_def get_member_Some)

lemmas store_defs = put_list_def free_member_def free_list_def call_delete_item_def
  empty_hdr_def calloc_member_def calloc_list_def

end
