(* ===== verification/Seq_Spec.thy ===== *)
theory Seq_Spec
  imports Prelude
begin

text \<open>
  The abstract contract of a list (sections 3 and 4 of the spec): a sequence of
  items in insertion order and a single iteration cursor, the index of the
  item returned last or \<open>None\<close> for "before the first item". The operations
  on lists are specified here without pointers; the component theories prove
  that the heap implementation refines them through the abstraction function
  \<open>List_Core.abs_list\<close>.
\<close>

record 'a seq =
  elems :: "'a list"
  pos :: "nat option"

definition seq_ok :: "'a seq \<Rightarrow> bool" where
  "seq_ok S = (case pos S of None \<Rightarrow> True | Some i \<Rightarrow> i < length (elems S))"

definition seq_empty :: "'a seq" where
  "seq_empty = \<lparr>elems = [], pos = None\<rparr>"

text \<open>append: the item becomes the new last element.\<close>

definition seq_append :: "'a \<Rightarrow> 'a seq \<Rightarrow> 'a seq" where
  "seq_append x S = S\<lparr>elems := elems S @ [x]\<rparr>"

text \<open>join: the second list's items follow the first's.\<close>

definition seq_join :: "'a seq \<Rightarrow> 'a seq \<Rightarrow> 'a seq" where
  "seq_join S T = S\<lparr>elems := elems S @ elems T\<rparr>"

text \<open>
  nextItem: the first item after a reset, then each following one; at the last
  item the result is absent and the cursor returns to "before the first".
\<close>

definition seq_next :: "'a seq \<Rightarrow> 'a option \<times> 'a seq" where
  "seq_next S =
     (case pos S of
        None \<Rightarrow> (case elems S of [] \<Rightarrow> (None, S) | x # _ \<Rightarrow> (Some x, S\<lparr>pos := Some 0\<rparr>))
      | Some i \<Rightarrow> (if Suc i < length (elems S) then (Some (elems S ! Suc i), S\<lparr>pos := Some (Suc i)\<rparr>)
                   else (None, S\<lparr>pos := None\<rparr>)))"

definition seq_reset :: "'a seq \<Rightarrow> 'a seq" where
  "seq_reset S = S\<lparr>pos := None\<rparr>"

text \<open>removeMatching: the items that do not match stay, in their order.\<close>

definition seq_remove :: "('a \<Rightarrow> bool) \<Rightarrow> 'a seq \<Rightarrow> 'a seq" where
  "seq_remove P S = S\<lparr>elems := filter (\<lambda>x. \<not> P x) (elems S)\<rparr>"

text \<open>
  searchMatching: a new sequence of the copies of the matching items, in order;
  a match whose copy fails (\<open>dup x = None\<close>) is skipped.
\<close>

definition seq_search :: "('a \<Rightarrow> bool) \<Rightarrow> ('a \<Rightarrow> 'a option) \<Rightarrow> 'a seq \<Rightarrow> 'a seq" where
  "seq_search P dup S =
     \<lparr>elems = List.map_filter (\<lambda>x. if P x then dup x else None) (elems S), pos = None\<rparr>"

text \<open>
  duplicate: a new sequence of the copies of all items, skipping failed
  copies; without a duplicator the items themselves.
\<close>

definition seq_duplicate :: "('a \<Rightarrow> 'a option) option \<Rightarrow> 'a seq \<Rightarrow> 'a seq" where
  "seq_duplicate dup S =
     \<lparr>elems = List.map_filter (case dup of None \<Rightarrow> Some | Some g \<Rightarrow> g) (elems S), pos = None\<rparr>"

text \<open>Calling nextItem \<open>k\<close> times, collecting the results.\<close>

fun seq_iterate :: "nat \<Rightarrow> 'a seq \<Rightarrow> 'a option list \<times> 'a seq" where
  "seq_iterate 0 S = ([], S)"
| "seq_iterate (Suc k) S =
     (let (r, S') = seq_next S; (rs, S'') = seq_iterate k S' in (r # rs, S''))"

lemmas seq_defs = seq_ok_def seq_empty_def seq_append_def seq_join_def seq_next_def seq_reset_def
  seq_remove_def seq_search_def seq_duplicate_def

lemma seq_next_ok: "seq_ok S \<Longrightarrow> seq_ok (snd (seq_next S))"
  by (auto simp: seq_ok_def seq_next_def split: option.splits list.splits)

lemma seq_next_elems [simp]: "elems (snd (seq_next S)) = elems S"
  by (auto simp: seq_next_def split: option.splits list.splits)

text \<open>From cursor position \<open>i\<close>, the next \<open>k\<close> calls return the items after it.\<close>

lemma seq_iterate_from:
  assumes "pos S = Some i" and "i + k < length (elems S)"
  shows "seq_iterate k S =
           (map Some (take k (drop (Suc i) (elems S))), S\<lparr>pos := Some (i + k)\<rparr>)"
  using assms
proof (induction k arbitrary: S i)
  case 0
  then show ?case by simp
next
  case (Suc k)
  let ?S' = "S\<lparr>pos := Some (Suc i)\<rparr>"
  from Suc.prems have step: "seq_next S = (Some (elems S ! Suc i), ?S')"
    by (simp add: seq_next_def)
  from Suc.prems have "seq_iterate k ?S' =
      (map Some (take k (drop (Suc (Suc i)) (elems ?S'))), ?S'\<lparr>pos := Some (Suc i + k)\<rparr>)"
    by (intro Suc.IH) simp_all
  moreover from Suc.prems have "drop (Suc i) (elems S) = elems S ! Suc i # drop (Suc (Suc i)) (elems S)"
    by (simp add: Cons_nth_drop_Suc)
  ultimately show ?case using step by simp
qed

lemma seq_iterate_add:
  "seq_iterate (j + k) S =
     (let (rs, S') = seq_iterate j S; (rs', S'') = seq_iterate k S' in (rs @ rs', S''))"
  by (induction j arbitrary: S) (auto split: prod.splits)

text \<open>From the reset state, \<open>length + 1\<close> calls give every item in order, then nothing.\<close>

lemma seq_iterate_all:
  assumes "pos S = None"
  shows "seq_iterate (Suc (length (elems S))) S = (map Some (elems S) @ [None], S)"
proof (cases "elems S")
  case Nil
  with assms show ?thesis by (simp add: seq_next_def)
next
  case (Cons x xs)
  let ?S0 = "S\<lparr>pos := Some 0\<rparr>"
  have first: "seq_next S = (Some x, ?S0)" using assms Cons by (simp add: seq_next_def)
  have mid: "seq_iterate (length xs) ?S0 = (map Some xs, ?S0\<lparr>pos := Some (length xs)\<rparr>)"
    using seq_iterate_from [of ?S0 0 "length xs"] Cons by simp
  have last: "seq_iterate 1 (?S0\<lparr>pos := Some (length xs)\<rparr>) = ([None], S)"
    using assms Cons by (simp add: seq_next_def)
  have "seq_iterate (length xs + 1) ?S0 = (map Some xs @ [None], S)"
    using seq_iterate_add [of "length xs" 1 ?S0] mid last by simp
  with first Cons show ?thesis by simp
qed

end
