(* ===== verification/List_Core.thy ===== *)
theory List_Core
  imports Store Seq_Spec
begin

text \<open>
  Construction and growth of a list (\<open>src/liblist.c\<close>): \<open>create_list\<close>,
  \<open>append_to_list\<close>, \<open>list_size\<close> and \<open>join_lists\<close>, as functions on the store
  returning an error where the C code dereferences an invalid pointer. The
  abstraction function \<open>abs_list\<close> reads a well-formed list as the sequence of
  \<open>Seq_Spec\<close>; the lemmas give each operation's effect on the heap and on the
  abstraction, what it leaves unchanged (the frame), and its error cases.
\<close>

section \<open>Operations\<close>

text \<open>\<open>create_list\<close>, lines 37--46: a zeroed header, or NULL.\<close>

definition create_list :: "'a store \<Rightarrow> ptr \<times> 'a store" where
  "create_list s = (case calloc_list s of None \<Rightarrow> (None, s) | Some (l, s') \<Rightarrow> (Some l, s'))"

text \<open>
  \<open>append_to_list\<close>, lines 56--75. Return code 1 for a NULL item (checked before
  anything else, so even a NULL list is not touched), 2 when the member cannot
  be allocated, 0 on success. The list pointer itself is not checked.
\<close>

definition append_to_list :: "ptr \<Rightarrow> 'a option \<Rightarrow> 'a store \<Rightarrow> err + int32 \<times> 'a store" where
  "append_to_list list it s =
     (case it of
        None \<Rightarrow> Inr (1, s)
      | Some x \<Rightarrow>
          (case calloc_member x s of
             None \<Rightarrow> Inr (2, s)
           | Some (new, s1) \<Rightarrow>
               bind_err (get_list s1 list) (\<lambda>L.
               bind_err (if first_m L = None then Inr s1 else set_next (last_m L) (Some new) s1) (\<lambda>s2.
               let L1 = (if first_m L = None then L\<lparr>first_m := Some new\<rparr> else L)
               in Inr (0, put_list list (L1\<lparr>last_m := Some new,
                                           total_members := total_members L1 + 1\<rparr>) s2)))))"

text \<open>\<open>list_size\<close>, lines 78--80.\<close>

definition list_size :: "ptr \<Rightarrow> 'a store \<Rightarrow> err + int32" where
  "list_size list s = bind_err (get_list s list) (\<lambda>L. Inr (total_members L))"

text \<open>
  \<open>join_lists\<close>, lines 83--95: link the second chain after the first's last
  member (or make it the first chain), take over its \<open>last\<close>, add the counts and
  free the second header. Neither pointer is checked.
\<close>

definition join_lists :: "ptr \<Rightarrow> ptr \<Rightarrow> 'a store \<Rightarrow> err + 'a store" where
  "join_lists first second s =
     bind_err (get_list s first) (\<lambda>F.
     bind_err (get_list s second) (\<lambda>S.
     bind_err (if last_m F \<noteq> None then set_next (last_m F) (first_m S) s else Inr s) (\<lambda>s1.
     let F1 = (if last_m F \<noteq> None then F else F\<lparr>first_m := first_m S\<rparr>)
     in Inr (free_list second
               (put_list first (F1\<lparr>last_m := last_m S,
                                  total_members := total_members F1 + total_members S\<rparr>) s1)))))"

text \<open>
  A caller appending a sequence of possibly-NULL items, as the driver's loop in
  \<open>src/test/test_list.c\<close> does: the return codes, or the first error.
\<close>

fun append_all :: "ptr \<Rightarrow> 'a option list \<Rightarrow> 'a store \<Rightarrow> err + int32 list \<times> 'a store" where
  "append_all l [] s = Inr ([], s)"
| "append_all l (it # its) s =
     bind_err (append_to_list l it s) (\<lambda>(r, s1).
     bind_err (append_all l its s1) (\<lambda>(rs, s2). Inr (r # rs, s2)))"

text \<open>Concrete states for the witnesses: one list at address 0 and free memory.\<close>

definition ex_empty_store :: "nat store" where
  "ex_empty_store = \<lparr>members = Map.empty, lists = [0 \<mapsto> empty_hdr],
     next_free = 1, avail = 2, destroyed = []\<rparr>"

text \<open>List 0 holds one member (address 1, item 7); list 2 is empty.\<close>

definition ex_join_store :: "nat store" where
  "ex_join_store = \<lparr>members = [1 \<mapsto> \<lparr>next_m = None, item = 7\<rparr>],
     lists = [0 \<mapsto> \<lparr>first_m = Some 1, last_m = Some 1, current_m = None, total_members = 1\<rparr>,
              2 \<mapsto> empty_hdr],
     next_free = 3, avail = 4, destroyed = []\<rparr>"

section \<open>Abstraction\<close>

definition abs_list :: "'a store \<Rightarrow> addr \<Rightarrow> addr list \<Rightarrow> 'a seq" where
  "abs_list s l xs =
     \<lparr>elems = items_at (members s) xs,
      pos = (case lists s l of None \<Rightarrow> None | Some L \<Rightarrow> map_option (index_in xs) (current_m L))\<rparr>"

text \<open>Objects an operation did not touch: members outside \<open>A\<close>, headers outside \<open>B\<close>.\<close>

definition unchanged_outside :: "'a store \<Rightarrow> 'a store \<Rightarrow> addr set \<Rightarrow> addr set \<Rightarrow> bool" where
  "unchanged_outside s s' A B =
     ((\<forall>a. a \<notin> A \<longrightarrow> members s' a = members s a) \<and> (\<forall>l. l \<notin> B \<longrightarrow> lists s' l = lists s l))"

section \<open>Frame\<close>

lemma list_ok_unchanged:
  assumes "list_ok s l ys" and "unchanged_outside s s' A B"
    and "set ys \<inter> A = {}" and "l \<notin> B"
  shows "list_ok s' l ys \<and> abs_list s' l ys = abs_list s l ys"
proof -
  from assms(2-4) have mem: "\<forall>a \<in> set ys. members s' a = members s a"
    and hdr: "lists s' l = lists s l"
    by (auto simp: unchanged_outside_def)
  from list_ok_frame [OF assms(1) hdr mem] have "list_ok s' l ys" .
  moreover have "abs_list s' l ys = abs_list s l ys"
    using items_at_cong [OF mem] hdr by (simp add: abs_list_def)
  ultimately show ?thesis ..
qed

lemma unchanged_outside_trans:
  "unchanged_outside s1 s2 A B \<Longrightarrow> unchanged_outside s2 s3 A' B' \<Longrightarrow>
   unchanged_outside s1 s3 (A \<union> A') (B \<union> B')"
  by (simp add: unchanged_outside_def)

lemma unchanged_outside_mono:
  "unchanged_outside s s' A B \<Longrightarrow> A \<subseteq> A' \<Longrightarrow> B \<subseteq> B' \<Longrightarrow> unchanged_outside s s' A' B'"
  by (auto simp: unchanged_outside_def)

section \<open>create_list\<close>

lemma create_list_ok:
  assumes st: "store_ok s" and av: "0 < avail s"
  shows "\<exists>s'. create_list s = (Some (next_free s), s') \<and> store_ok s' \<and>
     list_ok s' (next_free s) [] \<and> abs_list s' (next_free s) [] = seq_empty \<and>
     unchanged_outside s s' {} {next_free s} \<and> next_free s' = Suc (next_free s) \<and>
     avail s' = avail s - 1 \<and> destroyed s' = destroyed s"
proof -
  let ?s' = "s\<lparr>lists := (lists s)(next_free s \<mapsto> empty_hdr),
                next_free := Suc (next_free s), avail := avail s - 1\<rparr>"
  have "create_list s = (Some (next_free s), ?s')"
    using av by (simp add: create_list_def calloc_list_def)
  moreover have "store_ok ?s'"
    by (rule store_ok_step [OF st]) auto
  ultimately show ?thesis
    by (auto simp: list_ok_def hdr_ok_def empty_hdr_def abs_list_def seq_empty_def
        unchanged_outside_def)
qed

lemma create_list_no_memory: "avail s = 0 \<Longrightarrow> create_list s = (None, s)"
  by (simp add: create_list_def calloc_list_def)

section \<open>append_to_list\<close>

lemma hdr_ok_Nil: "hdr_ok h L [] \<longleftrightarrow> first_m L = None \<and> last_m L = None \<and> total_members L = 0 \<and> current_m L = None"
  by (auto simp: hdr_ok_def split: option.splits)

lemma hdr_ok_snoc_first:
  "hdr_ok h L (xs @ [z]) \<Longrightarrow> first_m L \<noteq> None \<and> last_m L = Some z"
  by (cases xs) (auto simp: hdr_ok_def)

lemma append_to_list_item:
  assumes st: "store_ok s" and ok: "list_ok s l xs" and av: "0 < avail s"
  defines "n \<equiv> next_free s"
  shows "\<exists>s'. append_to_list (Some l) (Some x) s = Inr (0, s') \<and>
     store_ok s' \<and> list_ok s' l (xs @ [n]) \<and>
     members s' n = Some \<lparr>next_m = None, item = x\<rparr> \<and>
     unchanged_outside s s' (insert n (set xs)) {l} \<and>
     items_at (members s') xs = items_at (members s) xs \<and>
     next_free s' = Suc n \<and> avail s' = avail s - 1 \<and> destroyed s' = destroyed s \<and>
     map_option current_m (lists s' l) = map_option current_m (lists s l)"
proof -
  from ok obtain L where L: "lists s l = Some L" and hL: "hdr_ok (members s) L xs"
    by (auto simp: list_ok_def split: option.splits)
  let ?new = "\<lparr>next_m = None, item = x\<rparr>"
  let ?s1 = "s\<lparr>members := (members s)(n \<mapsto> ?new), next_free := Suc n, avail := avail s - 1\<rparr>"
  have calloc: "calloc_member x s = Some (n, ?s1)"
    using av by (simp add: calloc_member_def n_def)
  have fresh: "n \<notin> set xs" using list_ok_fresh [OF st ok] by (simp add: n_def)
  have fresh_l: "l \<noteq> n" using L st by (auto simp: store_ok_def n_def)
  show ?thesis
  proof (cases xs rule: rev_cases)
    case Nil
    with hL have L0: "first_m L = None" "current_m L = None" "total_members L = 0"
      by (simp_all add: hdr_ok_Nil)
    let ?s' = "put_list (Some l) (L\<lparr>first_m := Some n, last_m := Some n,
                                   total_members := total_members L + 1\<rparr>) ?s1"
    have "append_to_list (Some l) (Some x) s = Inr (0, ?s')"
      using calloc L L0 by (simp add: append_to_list_def)
    moreover have "list_ok ?s' l (xs @ [n])"
      using Nil L0 by (simp add: list_ok_def hdr_ok_def put_list_def)
    moreover have "store_ok ?s'"
      by (rule store_ok_step [OF st]) (use L in \<open>auto simp: put_list_def n_def\<close>)
    moreover have "unchanged_outside s ?s' (insert n (set xs)) {l}"
      by (simp add: unchanged_outside_def put_list_def)
    ultimately show ?thesis using Nil L by (simp add: put_list_def)
  next
    case (snoc ys z)
    from hL snoc have "first_m L \<noteq> None" and La: "last_m L = Some z"
      using hdr_ok_snoc_first by blast+
    then obtain f where F: "first_m L = Some f" by blast
    from hL snoc obtain m where mz: "members s z = Some m" and nz: "next_m m = None"
      and seg: "lseg (members s) (first_m L) ys (Some z)"
      by (auto simp: hdr_ok_def lseg_snoc)
    have zn: "z \<noteq> n" using fresh snoc by auto
    have dz: "z \<notin> set ys" using lseg_distinct [of "members s" "first_m L" xs] hL snoc
      by (auto simp: hdr_ok_def)
    let ?h2 = "(members s)(n \<mapsto> ?new, z \<mapsto> m\<lparr>next_m := Some n\<rparr>)"
    let ?s2 = "?s1\<lparr>members := ?h2\<rparr>"
    have setn: "set_next (Some z) (Some n) ?s1 = Inr ?s2"
      using mz zn by (simp add: set_next_Some)
    let ?s' = "put_list (Some l) (L\<lparr>last_m := Some n, total_members := total_members L + 1\<rparr>) ?s2"
    have "append_to_list (Some l) (Some x) s = Inr (0, ?s')"
      using calloc L F La setn by (simp add: append_to_list_def)
    moreover have "lseg ?h2 (first_m L) (xs @ [n]) None"
    proof -
      have "lseg ?h2 (first_m L) ys (Some z)" using seg fresh dz snoc by simp
      moreover have "lseg ?h2 (Some z) [z, n] None" using zn by simp
      ultimately show ?thesis
        using snoc lseg_append [of ?h2 "first_m L" ys "[z, n]" None] by auto
    qed
    moreover have "items_at ?h2 xs = items_at (members s) xs"
      using fresh mz by (simp add: items_at_def)
    moreover have "store_ok ?s'"
      by (rule store_ok_step [OF st]) (use L mz in \<open>auto simp: put_list_def n_def\<close>)
    moreover have "unchanged_outside s ?s' (insert n (set xs)) {l}"
      using snoc by (simp add: unchanged_outside_def put_list_def)
    ultimately show ?thesis
      using hL snoc zn L by (auto simp: list_ok_def hdr_ok_def put_list_def split: option.splits)
  qed
qed

lemma abs_list_pos_extend:
  assumes "list_ok s l xs"
    and "map_option current_m (lists s' l) = map_option current_m (lists s l)"
  shows "pos (abs_list s' l (xs @ ys)) = pos (abs_list s l xs)"
  using assms
  by (auto simp: abs_list_def list_ok_def hdr_ok_def split: option.splits)

lemma append_to_list_abs:
  assumes "store_ok s" and "list_ok s l xs" and "0 < avail s"
  shows "\<exists>s'. append_to_list (Some l) (Some x) s = Inr (0, s') \<and> store_ok s' \<and>
     list_ok s' l (xs @ [next_free s]) \<and>
     abs_list s' l (xs @ [next_free s]) = seq_append x (abs_list s l xs) \<and>
     unchanged_outside s s' (insert (next_free s) (set xs)) {l} \<and>
     next_free s' = Suc (next_free s) \<and> avail s' = avail s - 1 \<and> destroyed s' = destroyed s"
proof -
  from append_to_list_item [OF assms, of x] obtain s' where
    app: "append_to_list (Some l) (Some x) s = Inr (0, s')" and st': "store_ok s'"
    and ok': "list_ok s' l (xs @ [next_free s])"
    and new: "members s' (next_free s) = Some \<lparr>next_m = None, item = x\<rparr>"
    and un: "unchanged_outside s s' (insert (next_free s) (set xs)) {l}"
    and its: "items_at (members s') xs = items_at (members s) xs"
    and rest: "next_free s' = Suc (next_free s)" "avail s' = avail s - 1" "destroyed s' = destroyed s"
    and cur: "map_option current_m (lists s' l) = map_option current_m (lists s l)"
    by blast
  have "abs_list s' l (xs @ [next_free s]) = seq_append x (abs_list s l xs)"
    using abs_list_pos_extend [OF assms(2) cur, of "[next_free s]"] its new
    by (simp add: abs_list_def seq_append_def)
  with app st' ok' un rest show ?thesis by blast
qed

lemma append_to_list_failure:
  assumes "append_to_list l it s = Inr (r, s')" and "r \<noteq> 0"
  shows "s' = s \<and> (r = 1 \<longleftrightarrow> it = None) \<and> (r = 2 \<longleftrightarrow> it \<noteq> None \<and> avail s = 0)"
  using assms
  by (auto simp: append_to_list_def calloc_member_def bind_err_eq_Inr Let_def
      split: option.splits if_splits)

section \<open>A run of appends\<close>

text \<open>
  C16. A run of append_to_list calls on a well-formed list never fails; the
  list stays well formed, grows by exactly the number of calls that returned
  0, and holds the old items followed by the items of those calls, in order.
\<close>

theorem append_all_run:
  assumes "store_ok s" and "list_ok s l xs"
  shows "\<exists>rs s' ys. append_all (Some l) its s = Inr (rs, s') \<and> store_ok s' \<and> list_ok s' l ys \<and>
     length ys = length xs + count_list rs 0 \<and>
     elems (abs_list s' l ys) = elems (abs_list s l xs) @ [x. (Some x, r) \<leftarrow> zip its rs, r = 0] \<and>
     length rs = length its"
  using assms
proof (induction its arbitrary: s xs)
  case Nil
  then show ?case by fastforce
next
  case (Cons it its)
  show ?case
  proof (cases "it = None \<or> avail s = 0")
    case True
    then have "\<exists>r. append_to_list (Some l) it s = Inr (r, s) \<and> r \<noteq> 0"
      by (cases it) (auto simp: append_to_list_def calloc_member_def)
    then obtain r where r: "append_to_list (Some l) it s = Inr (r, s)" "r \<noteq> 0"
      by blast
    from Cons.IH [OF Cons.prems] obtain rs s' ys where
      "append_all (Some l) its s = Inr (rs, s')" "store_ok s'" "list_ok s' l ys"
      "length ys = length xs + count_list rs 0"
      "elems (abs_list s' l ys) = elems (abs_list s l xs) @ [x. (Some x, r) \<leftarrow> zip its rs, r = 0]"
      "length rs = length its"
      by blast
    with r show ?thesis
      by (intro exI [of _ "r # rs"] exI [of _ s'] exI [of _ ys]) (auto split: option.splits)
  next
    case False
    then obtain x where x: "it = Some x" and av: "0 < avail s" by auto
    from append_to_list_abs [OF Cons.prems av, of x] obtain s1 where
      app: "append_to_list (Some l) (Some x) s = Inr (0, s1)" and st1: "store_ok s1"
      and ok1: "list_ok s1 l (xs @ [next_free s])"
      and abs1: "abs_list s1 l (xs @ [next_free s]) = seq_append x (abs_list s l xs)"
      by blast
    from Cons.IH [OF st1 ok1] obtain rs s' ys where
      "append_all (Some l) its s1 = Inr (rs, s')" "store_ok s'" "list_ok s' l ys"
      "length ys = length (xs @ [next_free s]) + count_list rs 0"
      "elems (abs_list s' l ys) = elems (abs_list s1 l (xs @ [next_free s])) @ [x. (Some x, r) \<leftarrow> zip its rs, r = 0]"
      "length rs = length its"
      by blast
    with app x abs1 show ?thesis
      by (intro exI [of _ "0 # rs"] exI [of _ s'] exI [of _ ys]) (auto simp: seq_append_def)
  qed
qed

theorem append_all_run_witness:
  "store_ok ex_empty_store \<and> list_ok ex_empty_store 0 [] \<and>
   (\<exists>rs s' ys. append_all (Some 0) [Some 5, None] ex_empty_store = Inr (rs, s') \<and>
      store_ok s' \<and> list_ok s' 0 ys \<and> length ys = count_list rs 0 \<and> length rs = 2)"
proof -
  have st: "store_ok ex_empty_store" and ok: "list_ok ex_empty_store 0 []"
    by (simp_all add: ex_empty_store_def store_ok_def list_ok_def hdr_ok_def empty_hdr_def)
  from append_all_run [OF st ok, of "[Some 5, None]"] st ok show ?thesis by auto
qed

section \<open>list_size\<close>

lemma list_size_ok:
  "list_ok s l xs \<Longrightarrow> list_size (Some l) s = Inr (of_nat (length xs))"
  by (auto simp: list_size_def list_ok_def hdr_ok_def split: option.splits)

section \<open>join_lists\<close>

lemma join_lists_ok:
  assumes st: "store_ok s" and oka: "list_ok s a xs" and okb: "list_ok s b ys"
    and ab: "a \<noteq> b" and disj: "set xs \<inter> set ys = {}" and shape: "ys \<noteq> [] \<or> xs = []"
  shows "\<exists>s'. join_lists (Some a) (Some b) s = Inr s' \<and> store_ok s' \<and>
     list_ok s' a (xs @ ys) \<and> lists s' b = None \<and>
     items_at (members s') (xs @ ys) = items_at (members s) (xs @ ys) \<and>
     map_option current_m (lists s' a) = map_option current_m (lists s a) \<and>
     unchanged_outside s s' (set xs) {a, b} \<and>
     next_free s' = next_free s \<and> avail s' = Suc (avail s) \<and> destroyed s' = destroyed s"
proof -
  from oka obtain F where F: "lists s a = Some F" and hF: "hdr_ok (members s) F xs"
    by (auto simp: list_ok_def split: option.splits)
  from okb obtain S where S: "lists s b = Some S" and hS: "hdr_ok (members s) S ys"
    by (auto simp: list_ok_def split: option.splits)
  show ?thesis
  proof (cases xs rule: rev_cases)
    case Nil
    with hF have F0: "last_m F = None" "current_m F = None" "total_members F = 0"
      by (simp_all add: hdr_ok_Nil)
    let ?F' = "F\<lparr>first_m := first_m S, last_m := last_m S, total_members := 0 + total_members S\<rparr>"
    let ?s' = "free_list (Some b) (put_list (Some a) ?F' s)"
    have "join_lists (Some a) (Some b) s = Inr ?s'"
      using F S F0 by (simp add: join_lists_def)
    moreover have "store_ok ?s'"
      by (rule store_ok_step [OF st]) (use F in \<open>auto simp: put_list_def free_list_def\<close>)
    ultimately show ?thesis
      using Nil hS ab F0 F
      by (auto simp: list_ok_def hdr_ok_def put_list_def free_list_def unchanged_outside_def)
  next
    case (snoc zs z)
    with shape obtain y ys' where ys: "ys = y # ys'" by (cases ys) auto
    from hS ys have Sf: "first_m S = Some y" by (simp add: hdr_ok_def)
    from hF snoc have La: "last_m F = Some z" using hdr_ok_snoc_first by blast
    from hF snoc obtain m where mz: "members s z = Some m" and nz: "next_m m = None"
      and seg: "lseg (members s) (first_m F) zs (Some z)"
      by (auto simp: hdr_ok_def lseg_snoc)
    have dz: "z \<notin> set zs" using lseg_distinct [of "members s" "first_m F" xs] hF snoc
      by (auto simp: hdr_ok_def)
    have zy: "z \<notin> set ys" using disj snoc by auto
    let ?h = "(members s)(z \<mapsto> m\<lparr>next_m := Some y\<rparr>)"
    let ?F' = "F\<lparr>last_m := last_m S, total_members := total_members F + total_members S\<rparr>"
    let ?s' = "free_list (Some b) (put_list (Some a) ?F' (s\<lparr>members := ?h\<rparr>))"
    have "join_lists (Some a) (Some b) s = Inr ?s'"
      using F S La Sf mz by (simp add: join_lists_def set_next_Some)
    moreover have "lseg ?h (first_m F) (xs @ ys) None"
    proof -
      have "lseg ?h (first_m F) zs (Some z)" using seg dz by simp
      moreover have "lseg ?h (Some y) ys None" using hS zy Sf by (simp add: hdr_ok_def)
      ultimately show ?thesis
        using snoc lseg_append [of ?h "first_m F" zs "z # ys" None] by auto
    qed
    moreover have "items_at ?h (xs @ ys) = items_at (members s) (xs @ ys)"
      using mz by (auto simp: items_at_def)
    moreover have "store_ok ?s'"
      by (rule store_ok_step [OF st]) (use F mz in \<open>auto simp: put_list_def free_list_def\<close>)
    moreover have "hdr_ok ?h ?F' (xs @ ys) \<longleftrightarrow> lseg ?h (first_m F) (xs @ ys) None"
      using hF hS ys snoc by (auto simp: hdr_ok_def split: option.splits)
    ultimately show ?thesis
      using ab F snoc by (auto simp: list_ok_def put_list_def free_list_def unchanged_outside_def)
  qed
qed

lemma join_lists_abs:
  assumes "store_ok s" and "list_ok s a xs" and "list_ok s b ys"
    and "a \<noteq> b" and "set xs \<inter> set ys = {}" and "ys \<noteq> [] \<or> xs = []"
  shows "\<exists>s'. join_lists (Some a) (Some b) s = Inr s' \<and> store_ok s' \<and>
     list_ok s' a (xs @ ys) \<and> lists s' b = None \<and>
     abs_list s' a (xs @ ys) = seq_join (abs_list s a xs) (abs_list s b ys) \<and>
     unchanged_outside s s' (set xs) {a, b} \<and>
     next_free s' = next_free s \<and> avail s' = Suc (avail s) \<and> destroyed s' = destroyed s"
proof -
  from join_lists_ok [OF assms] obtain s' where
    j: "join_lists (Some a) (Some b) s = Inr s'" "store_ok s'" "list_ok s' a (xs @ ys)"
      "lists s' b = None"
    and its: "items_at (members s') (xs @ ys) = items_at (members s) (xs @ ys)"
    and cur: "map_option current_m (lists s' a) = map_option current_m (lists s a)"
    and rest: "unchanged_outside s s' (set xs) {a, b}" "next_free s' = next_free s"
      "avail s' = Suc (avail s)" "destroyed s' = destroyed s"
    by blast
  have "abs_list s' a (xs @ ys) = seq_join (abs_list s a xs) (abs_list s b ys)"
    using abs_list_pos_extend [OF assms(2) cur, of ys] its
    by (simp add: abs_list_def seq_join_def)
  with j rest show ?thesis by blast
qed

text \<open>
  C1. append_to_list on a well-formed list never fails: a NULL item is
  refused with code 1 and an exhausted allocator with code 2, both leaving the
  memory unchanged; otherwise the code is 0, the list stays well formed with
  the fresh member at its end, and its contents are those of the abstract
  append.
\<close>

theorem append_to_list_spec:
  assumes "store_ok s" and "list_ok s l xs"
  shows "\<exists>r s'. append_to_list (Some l) it s = Inr (r, s') \<and> store_ok s' \<and>
     (case it of
        None \<Rightarrow> r = 1 \<and> s' = s
      | Some x \<Rightarrow>
          (if avail s = 0 then r = 2 \<and> s' = s
           else r = 0 \<and> list_ok s' l (xs @ [next_free s]) \<and>
                abs_list s' l (xs @ [next_free s]) = seq_append x (abs_list s l xs)))"
proof (cases it)
  case None
  with assms show ?thesis by (simp add: append_to_list_def)
next
  case (Some x)
  show ?thesis
  proof (cases "avail s = 0")
    case True
    with Some assms show ?thesis by (simp add: append_to_list_def calloc_member_def)
  next
    case False
    with append_to_list_abs [OF assms, of x] Some show ?thesis by auto
  qed
qed

theorem append_to_list_spec_witness:
  "store_ok ex_empty_store \<and> list_ok ex_empty_store 0 [] \<and>
   (\<exists>r s'. append_to_list (Some 0) (Some 5) ex_empty_store = Inr (r, s') \<and> store_ok s' \<and>
      r = 0 \<and> list_ok s' 0 [1] \<and> elems (abs_list s' 0 [1]) = [5])"
proof -
  have st: "store_ok ex_empty_store" and ok: "list_ok ex_empty_store 0 []"
    by (simp_all add: ex_empty_store_def store_ok_def list_ok_def hdr_ok_def empty_hdr_def)
  from append_to_list_spec [OF st ok, of "Some 5"] st ok show ?thesis
    by (auto simp: ex_empty_store_def abs_list_def seq_append_def)
qed

text \<open>
  C2. join_lists of two disjoint well-formed lists, the second non-empty or
  the first empty, leaves the first list well formed holding the first's
  members followed by the second's (the abstract join, the first's cursor
  kept) and frees the second header.
\<close>

theorem join_lists_refines:
  assumes "store_ok s" and "list_ok s a xs" and "list_ok s b ys"
    and "a \<noteq> b" and "set xs \<inter> set ys = {}" and "ys \<noteq> [] \<or> xs = []"
  shows "\<exists>s'. join_lists (Some a) (Some b) s = Inr s' \<and> store_ok s' \<and>
     list_ok s' a (xs @ ys) \<and> lists s' b = None \<and>
     abs_list s' a (xs @ ys) = seq_join (abs_list s a xs) (abs_list s b ys)"
  using join_lists_abs [OF assms] by blast

theorem join_lists_refines_witness:
  "store_ok ex_join_store \<and> list_ok ex_join_store 2 [] \<and> list_ok ex_join_store 0 [1] \<and>
   set [] \<inter> set [1::nat] = {} \<and>
   (\<exists>s'. join_lists (Some 2) (Some 0) ex_join_store = Inr s' \<and> store_ok s' \<and>
      list_ok s' 2 [1] \<and> lists s' 0 = None \<and>
      abs_list s' 2 ([] @ [1]) = seq_join (abs_list ex_join_store 2 []) (abs_list ex_join_store 0 [1]))"
proof -
  have st: "store_ok ex_join_store"
    by (simp add: ex_join_store_def store_ok_def)
  have a: "list_ok ex_join_store 2 []" and b: "list_ok ex_join_store 0 [1]"
    by (simp_all add: ex_join_store_def list_ok_def hdr_ok_def empty_hdr_def)
  from join_lists_refines [OF st a b, of] st a b show ?thesis by simp
qed

text \<open>
  C11. Defect: join_lists of a non-empty list with an empty one sets the
  first list's last pointer to the second's NULL last pointer while its first
  pointer stays non-NULL. The joined list satisfies the list invariant for no
  member sequence, and the next append_to_list on it dereferences NULL.
\<close>

theorem join_lists_empty_second:
  assumes "store_ok s" and "list_ok s a xs" and "xs \<noteq> []" and "list_ok s b []" and "a \<noteq> b"
  shows "\<exists>s'. join_lists (Some a) (Some b) s = Inr s' \<and> (\<forall>zs. \<not> list_ok s' a zs) \<and>
     append_to_list (Some a) (Some x) s' = Inl Null_dereference"
proof -
  from assms(2) obtain F where F: "lists s a = Some F" and hF: "hdr_ok (members s) F xs"
    by (auto simp: list_ok_def split: option.splits)
  from assms(4) obtain S where S: "lists s b = Some S" and S0: "first_m S = None" "last_m S = None"
    "total_members S = 0"
    by (auto simp: list_ok_def hdr_ok_Nil split: option.splits)
  from assms(3) obtain zs z where xs: "xs = zs @ [z]" by (cases xs rule: rev_cases) auto
  with hF have "first_m F \<noteq> None" and La: "last_m F = Some z" using hdr_ok_snoc_first by blast+
  then obtain f where Ff: "first_m F = Some f" by blast
  from hF xs obtain m where mz: "members s z = Some m"
    by (auto simp: hdr_ok_def lseg_snoc)
  let ?F' = "F\<lparr>last_m := None, total_members := total_members F + 0\<rparr>"
  let ?s' = "free_list (Some b) (put_list (Some a) ?F' (s\<lparr>members := (members s)(z \<mapsto> m\<lparr>next_m := None\<rparr>)\<rparr>))"
  have j: "join_lists (Some a) (Some b) s = Inr ?s'"
    using F S S0 La mz by (simp add: join_lists_def set_next_Some)
  have L': "lists ?s' a = Some ?F'" using assms(5) by (simp add: put_list_def free_list_def)
  have "\<not> list_ok ?s' a zs'" for zs'
    using L' Ff by (auto simp: list_ok_def hdr_ok_def split: if_splits)
  moreover have "append_to_list (Some a) (Some x) ?s' = Inl Null_dereference"
    using L' Ff by (simp add: append_to_list_def calloc_member_def put_list_def free_list_def
        set_next_def)
  ultimately show ?thesis using j by blast
qed

theorem join_lists_empty_second_witness:
  "\<exists>s'. join_lists (Some 0) (Some 2) ex_join_store = Inr s' \<and> (\<forall>zs. \<not> list_ok s' 0 zs) \<and>
     append_to_list (Some 0) (Some 8) s' = Inl Null_dereference"
proof -
  have st: "store_ok ex_join_store"
    by (simp add: ex_join_store_def store_ok_def)
  have a: "list_ok ex_join_store 0 [1]" and b: "list_ok ex_join_store 2 []"
    by (simp_all add: ex_join_store_def list_ok_def hdr_ok_def empty_hdr_def)
  show ?thesis using join_lists_empty_second [OF st a _ b, of 8] by simp
qed

text \<open>
  C24. Joining a non-empty well-formed list to itself, which no check in
  join_lists prevents, links its last member back to its first member (the
  chain becomes a cycle) and frees the header through the second argument,
  so that the first argument dangles: the next call on it reads a freed
  header.
\<close>

theorem join_lists_self:
  assumes "list_ok s l xs" and "xs \<noteq> []"
  shows "\<exists>s'. join_lists (Some l) (Some l) s = Inr s' \<and> lists s' l = None \<and>
     members s' (last xs) = Some ((the (members s (last xs)))\<lparr>next_m := Some (hd xs)\<rparr>) \<and>
     list_size (Some l) s' = Inl Dangling_pointer"
proof -
  from assms(1) obtain L where L: "lists s l = Some L" and hL: "hdr_ok (members s) L xs"
    by (auto simp: list_ok_def split: option.splits)
  from assms(2) hL have F: "first_m L = Some (hd xs)" and La: "last_m L = Some (last xs)"
    by (cases xs; auto simp: hdr_ok_def)+
  obtain m where mz: "members s (last xs) = Some m"
    using list_ok_in_dom [OF assms(1)] last_in_set [OF assms(2)] by auto
  let ?F' = "L\<lparr>last_m := Some (last xs), total_members := total_members L + total_members L\<rparr>"
  let ?s' = "free_list (Some l) (put_list (Some l) ?F'
      (s\<lparr>members := (members s)(last xs \<mapsto> m\<lparr>next_m := Some (hd xs)\<rparr>)\<rparr>))"
  have "join_lists (Some l) (Some l) s = Inr ?s'"
    using L F La mz by (simp add: join_lists_def set_next_Some)
  moreover have "lists ?s' l = None" by (simp add: put_list_def free_list_def)
  ultimately show ?thesis
    using mz by (simp add: list_size_def get_list_def put_list_def free_list_def)
qed

theorem join_lists_self_witness:
  "\<exists>s'. join_lists (Some 0) (Some 0) ex_join_store = Inr s' \<and> lists s' 0 = None \<and>
     members s' 1 = Some \<lparr>next_m = Some 1, item = 7\<rparr> \<and> list_size (Some 0) s' = Inl Dangling_pointer"
proof -
  have a: "list_ok ex_join_store 0 [1]"
    by (simp add: ex_join_store_def list_ok_def hdr_ok_def)
  from join_lists_self [OF a] show ?thesis by (simp add: ex_join_store_def)
qed

end
