(* ===== verification/Iteration.thy ===== *)
theory Iteration
  imports List_Core
begin

text \<open>
  The list's single iteration cursor (\<open>src/liblist.c\<close>, lines 299--328):
  \<open>get_next_item\<close> and \<open>reset_list_item\<close>, and the driver's \<open>print_list\<close>
  (\<open>src/test/test_list.c\<close>, lines 18--26), which calls \<open>get_next_item\<close> until
  it returns NULL. The lemmas show that \<open>get_next_item\<close> refines the abstract
  \<open>seq_next\<close>, that a run of calls from the reset state yields every item in
  order and then NULL, and that \<open>print_list\<close> terminates on a well-formed list.
\<close>

section \<open>Operations\<close>

text \<open>
  \<open>get_next_item\<close>: on an empty list nothing changes; at the last member the
  cursor is reset and NULL returned; otherwise the cursor moves to the next
  member (the first one from the reset state) and that member's item is
  returned. The member reads are unchecked dereferences.
\<close>

definition get_next_item :: "ptr \<Rightarrow> 'a store \<Rightarrow> err + 'a option \<times> 'a store" where
  "get_next_item list s =
     (case list of
        None \<Rightarrow> Inr (None, s)
      | Some _ \<Rightarrow>
          bind_err (get_list s list) (\<lambda>L.
            if first_m L \<noteq> None then
              (if current_m L = last_m L then Inr (None, put_list list (L\<lparr>current_m := None\<rparr>) s)
               else
                 bind_err (if current_m L \<noteq> None
                           then bind_err (get_member s (current_m L)) (\<lambda>m. Inr (next_m m))
                           else Inr (first_m L)) (\<lambda>c.
                 bind_err (get_member s c) (\<lambda>m.
                 Inr (Some (item m), put_list list (L\<lparr>current_m := c\<rparr>) s))))
            else Inr (None, s)))"

definition reset_list_item :: "ptr \<Rightarrow> 'a store \<Rightarrow> err + 'a store" where
  "reset_list_item list s =
     (case list of
        None \<Rightarrow> Inr s
      | Some _ \<Rightarrow> bind_err (get_list s list) (\<lambda>L. Inr (put_list list (L\<lparr>current_m := None\<rparr>) s)))"

text \<open>\<open>k\<close> successive calls of \<open>get_next_item\<close>, collecting the results.\<close>

fun get_next_items :: "nat \<Rightarrow> ptr \<Rightarrow> 'a store \<Rightarrow> err + 'a option list \<times> 'a store" where
  "get_next_items 0 list s = Inr ([], s)"
| "get_next_items (Suc k) list s =
     bind_err (get_next_item list s) (\<lambda>(r, s1).
     bind_err (get_next_items k list s1) (\<lambda>(rs, s2). Inr (r # rs, s2)))"

text \<open>
  \<open>print_list\<close> of the driver: the size, then the items up to the first NULL.
  The loop follows the cursor and need not end, hence the option result.
\<close>

partial_function (option) print_items :: "ptr \<Rightarrow> 'a store \<Rightarrow> (err + 'a list \<times> 'a store) option" where
  "print_items list s =
     (case get_next_item list s of
        Inl e \<Rightarrow> Some (Inl e)
      | Inr (None, s1) \<Rightarrow> Some (Inr ([], s1))
      | Inr (Some x, s1) \<Rightarrow>
          Option.bind (print_items list s1) (\<lambda>r.
            Some (bind_err r (\<lambda>(xs, s2). Inr (x # xs, s2)))))"

definition print_list :: "ptr \<Rightarrow> 'a store \<Rightarrow> (err + (int32 \<times> 'a list) \<times> 'a store) option" where
  "print_list list s =
     (case list_size list s of
        Inl e \<Rightarrow> Some (Inl e)
      | Inr n \<Rightarrow> Option.bind (print_items list s) (\<lambda>r.
                  Some (bind_err r (\<lambda>(xs, s1). Inr ((n, xs), s1)))))"

declare print_items.simps [code]

text \<open>What a call that only moves the cursor of list \<open>l\<close> may change: that header.\<close>

definition cursor_only :: "'a store \<Rightarrow> 'a store \<Rightarrow> addr \<Rightarrow> bool" where
  "cursor_only s s' l =
     (members s' = members s \<and> (\<forall>k. k \<noteq> l \<longrightarrow> lists s' k = lists s k) \<and>
      next_free s' = next_free s \<and> avail s' = avail s \<and> destroyed s' = destroyed s)"

section \<open>Segments and positions\<close>

lemma lseg_nth_next:
  assumes "lseg h p xs None" and "i < length xs"
  shows "\<exists>m. h (xs ! i) = Some m \<and>
           next_m m = (if Suc i < length xs then Some (xs ! Suc i) else None)"
  using assms
proof (induction xs arbitrary: p i)
  case Nil
  then show ?case by simp
next
  case (Cons a xs)
  then obtain m where m: "h a = Some m" and seg: "lseg h (next_m m) xs None"
    by (auto split: option.splits)
  show ?case
  proof (cases i)
    case 0
    with m seg show ?thesis by (cases xs) auto
  next
    case (Suc j)
    with Cons.prems have "j < length xs" by simp
    from Cons.IH [OF seg this] Suc show ?thesis by (auto split: if_splits)
  qed
qed

section \<open>get_next_item refines seq_next\<close>

lemma get_next_item_step:
  assumes ok: "list_ok s l xs"
  shows "\<exists>r L. get_next_item (Some l) s = Inr (r, s\<lparr>lists := (lists s)(l \<mapsto> L)\<rparr>) \<and>
     list_ok (s\<lparr>lists := (lists s)(l \<mapsto> L)\<rparr>) l xs \<and>
     (r, abs_list (s\<lparr>lists := (lists s)(l \<mapsto> L)\<rparr>) l xs) = seq_next (abs_list s l xs)"
proof -
  from ok obtain L where L: "lists s l = Some L" and hL: "hdr_ok (members s) L xs"
    by (auto simp: list_ok_def split: option.splits)
  have dist: "distinct xs" using list_ok_distinct [OF ok] .
  have upd: "s\<lparr>lists := (lists s)(l \<mapsto> L)\<rparr> = s" using L by (cases s) auto
  show ?thesis
  proof (cases xs)
    case Nil
    with hL have "first_m L = None" "current_m L = None" by (simp_all add: hdr_ok_Nil)
    with L Nil ok show ?thesis
      by (intro exI [of _ None] exI [of _ L])
        (simp add: get_next_item_def upd abs_list_def seq_next_def)
  next
    case (Cons y ys)
    from hL Cons have F: "first_m L = Some y" and La: "last_m L = Some (last xs)"
      by (simp_all add: hdr_ok_def)
    from hL have seg: "lseg (members s) (first_m L) xs None" by (simp add: hdr_ok_def)
    show ?thesis
    proof (cases "current_m L")
      case None
      from lseg_nth_next [OF seg, of 0] Cons obtain m where m: "members s y = Some m" by auto
      let ?L = "L\<lparr>current_m := Some y\<rparr>"
      have "get_next_item (Some l) s = Inr (Some (item m), s\<lparr>lists := (lists s)(l \<mapsto> ?L)\<rparr>)"
        using L F La None m by (simp add: get_next_item_def put_list_def)
      moreover have "list_ok (s\<lparr>lists := (lists s)(l \<mapsto> ?L)\<rparr>) l xs"
        using hL Cons by (simp add: list_ok_def hdr_ok_def)
      moreover have "(Some (item m), abs_list (s\<lparr>lists := (lists s)(l \<mapsto> ?L)\<rparr>) l xs) =
                     seq_next (abs_list s l xs)"
        using L None Cons m by (simp add: abs_list_def seq_next_def)
      ultimately show ?thesis by blast
    next
      case (Some c)
      with hL have c: "c \<in> set xs" by (simp add: hdr_ok_def)
      define i where "i = index_in xs c"
      have i: "i < length xs" "xs ! i = c" using c by (simp_all add: i_def)
      from lseg_nth_next [OF seg i(1)] i obtain m where m: "members s c = Some m"
        and nx: "next_m m = (if Suc i < length xs then Some (xs ! Suc i) else None)"
        by auto
      show ?thesis
      proof (cases "Suc i < length xs")
        case False
        then have "i = length xs - 1" using i by simp
        moreover have "xs \<noteq> []" using Cons by simp
        ultimately have "c = last xs" using i by (metis last_conv_nth)
        let ?L = "L\<lparr>current_m := None\<rparr>"
        have "get_next_item (Some l) s = Inr (None, s\<lparr>lists := (lists s)(l \<mapsto> ?L)\<rparr>)"
          using L F La Some \<open>c = last xs\<close> by (simp add: get_next_item_def put_list_def)
        moreover have "list_ok (s\<lparr>lists := (lists s)(l \<mapsto> ?L)\<rparr>) l xs"
          using hL by (simp add: list_ok_def hdr_ok_def)
        moreover have "(None, abs_list (s\<lparr>lists := (lists s)(l \<mapsto> ?L)\<rparr>) l xs) =
                       seq_next (abs_list s l xs)"
          using L Some False by (simp add: abs_list_def seq_next_def i_def)
        ultimately show ?thesis by blast
      next
        case True
        have "c \<noteq> last xs"
        proof
          assume "c = last xs"
          then have "xs ! i = xs ! (length xs - 1)" using i Cons by (simp add: last_conv_nth)
          with dist i(1) Cons have "i = length xs - 1" by (simp add: nth_eq_iff_index_eq)
          with True show False by simp
        qed
        from lseg_nth_next [OF seg True] obtain m' where m': "members s (xs ! Suc i) = Some m'"
          by auto
        let ?L = "L\<lparr>current_m := Some (xs ! Suc i)\<rparr>"
        have "get_next_item (Some l) s = Inr (Some (item m'), s\<lparr>lists := (lists s)(l \<mapsto> ?L)\<rparr>)"
          using L F La Some \<open>c \<noteq> last xs\<close> m nx True m' by (simp add: get_next_item_def put_list_def)
        moreover have "list_ok (s\<lparr>lists := (lists s)(l \<mapsto> ?L)\<rparr>) l xs"
          using hL True by (simp add: list_ok_def hdr_ok_def)
        moreover have "(Some (item m'), abs_list (s\<lparr>lists := (lists s)(l \<mapsto> ?L)\<rparr>) l xs) =
                       seq_next (abs_list s l xs)"
          using L Some True m' dist by (simp add: abs_list_def seq_next_def i_def items_at_def)
        ultimately show ?thesis by blast
      qed
    qed
  qed
qed

lemma get_next_item_ok:
  assumes "list_ok s l xs"
  shows "\<exists>r s'. get_next_item (Some l) s = Inr (r, s') \<and> list_ok s' l xs \<and>
     members s' = members s \<and> (r, abs_list s' l xs) = seq_next (abs_list s l xs)"
  using get_next_item_step [OF assms] by fastforce

lemma get_next_items_run:
  assumes "list_ok s l xs"
  shows "\<exists>rs s'. get_next_items k (Some l) s = Inr (rs, s') \<and> list_ok s' l xs \<and>
     members s' = members s \<and> (rs, abs_list s' l xs) = seq_iterate k (abs_list s l xs)"
  using assms
proof (induction k arbitrary: s)
  case 0
  then show ?case by simp
next
  case (Suc k)
  from get_next_item_ok [OF Suc.prems] obtain r s1 where
    s1: "get_next_item (Some l) s = Inr (r, s1)" "list_ok s1 l xs" "members s1 = members s"
    and a1: "(r, abs_list s1 l xs) = seq_next (abs_list s l xs)"
    by blast
  from Suc.IH [OF s1(2)] obtain rs s' where
    r2: "get_next_items k (Some l) s1 = Inr (rs, s')" "list_ok s' l xs" "members s' = members s1"
    and a2: "(rs, abs_list s' l xs) = seq_iterate k (abs_list s1 l xs)"
    by blast
  have "seq_iterate (Suc k) (abs_list s l xs) = (r # rs, abs_list s' l xs)"
    by (simp add: a1 [symmetric] a2 [symmetric])
  with s1 r2 show ?case by simp
qed

lemma reset_list_item_ok:
  assumes "list_ok s l xs"
  shows "\<exists>s'. reset_list_item (Some l) s = Inr s' \<and> list_ok s' l xs \<and> members s' = members s \<and>
     abs_list s' l xs = seq_reset (abs_list s l xs)"
  using assms
  by (auto simp: reset_list_item_def put_list_def list_ok_def hdr_ok_def abs_list_def seq_reset_def
      split: option.splits)

lemma print_items_from:
  assumes "list_ok s l xs" and "pos (abs_list s l xs) = Some i" and "length xs - Suc i = d"
  shows "\<exists>s'. print_items (Some l) s = Some (Inr (drop (Suc i) (items_at (members s) xs), s')) \<and>
     list_ok s' l xs \<and> members s' = members s \<and> pos (abs_list s' l xs) = None"
  using assms
proof (induction d arbitrary: s i)
  case 0
  from get_next_item_ok [OF 0(1)] obtain r s1 where
    s1: "get_next_item (Some l) s = Inr (r, s1)" "list_ok s1 l xs" "members s1 = members s"
    and a1: "(r, abs_list s1 l xs) = seq_next (abs_list s l xs)"
    by blast
  from a1 0(2,3) have "r = None" "pos (abs_list s1 l xs) = None"
    by (auto simp: seq_next_def abs_list_def)
  with s1 0(3) show ?case by (simp add: print_items.simps)
next
  case (Suc d)
  from get_next_item_ok [OF Suc.prems(1)] obtain r s1 where
    s1: "get_next_item (Some l) s = Inr (r, s1)" "list_ok s1 l xs" "members s1 = members s"
    and a1: "(r, abs_list s1 l xs) = seq_next (abs_list s l xs)"
    by blast
  from Suc.prems(3) have lt: "Suc i < length xs" by simp
  from a1 Suc.prems(2) lt have r: "r = Some (items_at (members s) xs ! Suc i)"
    and p1: "pos (abs_list s1 l xs) = Some (Suc i)"
    by (auto simp: seq_next_def abs_list_def)
  from Suc.prems(3) have d: "length xs - Suc (Suc i) = d" by simp
  from Suc.IH [OF s1(2) p1 d] obtain s' where
    "print_items (Some l) s1 = Some (Inr (drop (Suc (Suc i)) (items_at (members s1) xs), s'))"
    "list_ok s' l xs" "members s' = members s1" "pos (abs_list s' l xs) = None"
    by auto
  moreover have "drop (Suc i) (items_at (members s) xs) =
      items_at (members s) xs ! Suc i # drop (Suc (Suc i)) (items_at (members s) xs)"
    using lt by (simp add: Cons_nth_drop_Suc)
  ultimately show ?case using s1 r by (simp add: print_items.simps)
qed

lemma print_items_reset:
  assumes "list_ok s l xs" and "pos (abs_list s l xs) = None"
  shows "\<exists>s'. print_items (Some l) s = Some (Inr (items_at (members s) xs, s')) \<and>
     list_ok s' l xs \<and> members s' = members s \<and> pos (abs_list s' l xs) = None"
proof -
  from get_next_item_ok [OF assms(1)] obtain r s1 where
    s1: "get_next_item (Some l) s = Inr (r, s1)" "list_ok s1 l xs" "members s1 = members s"
    and a1: "(r, abs_list s1 l xs) = seq_next (abs_list s l xs)"
    by blast
  show ?thesis
  proof (cases xs)
    case Nil
    with a1 assms(2) have "r = None" "pos (abs_list s1 l xs) = None"
      by (auto simp: seq_next_def abs_list_def)
    with s1 Nil show ?thesis by (simp add: print_items.simps)
  next
    case (Cons y ys)
    with a1 assms(2) have r: "r = Some (items_at (members s) xs ! 0)"
      and p1: "pos (abs_list s1 l xs) = Some 0"
      by (auto simp: seq_next_def abs_list_def)
    from print_items_from [OF s1(2) p1 refl] obtain s' where
      "print_items (Some l) s1 = Some (Inr (drop 1 (items_at (members s1) xs), s'))"
      "list_ok s' l xs" "members s' = members s1" "pos (abs_list s' l xs) = None"
      by auto
    with s1 r Cons show ?thesis by (simp add: print_items.simps)
  qed
qed

section \<open>Iteration touches only the cursor\<close>

lemma cursor_only_refl [simp]: "cursor_only s s l"
  by (simp add: cursor_only_def)

lemma cursor_only_trans: "cursor_only s1 s2 l \<Longrightarrow> cursor_only s2 s3 l \<Longrightarrow> cursor_only s1 s3 l"
  by (simp add: cursor_only_def)

lemma cursor_only_unchanged: "cursor_only s s' l \<Longrightarrow> unchanged_outside s s' {} {l}"
  by (simp add: cursor_only_def unchanged_outside_def)

lemma get_next_item_frame:
  assumes "list_ok s l xs" and "get_next_item (Some l) s = Inr (r, s')"
  shows "cursor_only s s' l"
  using get_next_item_step [OF assms(1)] assms(2) by (auto simp: cursor_only_def)

lemma print_items_frame:
  assumes "print_items list s = Some res"
  shows "\<forall>l xs ys s'. list = Some l \<longrightarrow> list_ok s l xs \<longrightarrow> res = Inr (ys, s') \<longrightarrow> cursor_only s s' l"
proof (rule print_items.raw_induct [where P = "\<lambda>list s res.
    \<forall>l xs ys s'. list = Some l \<longrightarrow> list_ok s l xs \<longrightarrow> res = Inr (ys, s') \<longrightarrow> cursor_only s s' l",
    OF _ assms], goal_cases)
  case (1 f list s res)
  show ?case
  proof (intro allI impI)
    fix l xs ys s'
    assume lp: "list = Some l" and ok: "list_ok s l xs" and r: "res = Inr (ys, s')"
    from get_next_item_ok [OF ok] obtain x s1 where
      g: "get_next_item (Some l) s = Inr (x, s1)" and ok1: "list_ok s1 l xs"
      by blast
    have c1: "cursor_only s s1 l" by (rule get_next_item_frame [OF ok g])
    show "cursor_only s s' l"
    proof (cases x)
      case None
      with 1(2) lp g r c1 show ?thesis by simp
    next
      case (Some y)
      with 1(2) lp g r obtain ys' where "f list s1 = Some (Inr (ys', s'))"
        by (auto simp: bind_eq_Some_conv bind_err_eq_Inr split: sum.splits)
      with 1(1) lp ok1 have "cursor_only s1 s' l" by blast
      with c1 show ?thesis by (rule cursor_only_trans)
    qed
  qed
qed

lemma get_next_items_frame:
  assumes "list_ok s l xs" and "get_next_items k (Some l) s = Inr (rs, s')"
  shows "cursor_only s s' l"
  using assms
proof (induction k arbitrary: s rs)
  case 0
  then show ?case by simp
next
  case (Suc k)
  from get_next_item_ok [OF Suc.prems(1)] obtain r s1 where
    g: "get_next_item (Some l) s = Inr (r, s1)" and ok1: "list_ok s1 l xs"
    by blast
  from Suc.prems(2) g obtain rs' where "get_next_items k (Some l) s1 = Inr (rs', s')"
    by (auto simp: bind_err_eq_Inr split: prod.splits)
  with Suc.IH [OF ok1] get_next_item_frame [OF Suc.prems(1) g] show ?case
    by (blast intro: cursor_only_trans)
qed

lemma print_list_run:
  assumes "list_ok s l xs" and "pos (abs_list s l xs) = None"
  shows "\<exists>s'. print_list (Some l) s = Some (Inr ((of_nat (length xs), items_at (members s) xs), s')) \<and>
     list_ok s' l xs \<and> pos (abs_list s' l xs) = None \<and> cursor_only s s' l \<and>
     abs_list s' l xs = abs_list s l xs"
proof -
  from print_items_reset [OF assms] obtain s' where
    p: "print_items (Some l) s = Some (Inr (items_at (members s) xs, s'))"
    and ok': "list_ok s' l xs" and m: "members s' = members s" and p': "pos (abs_list s' l xs) = None"
    by blast
  have c: "cursor_only s s' l" using print_items_frame [OF p] assms(1) by blast
  have "abs_list s' l xs = abs_list s l xs"
    using m p' assms(2) by (simp add: abs_list_def split: option.splits)
  with p ok' p' c list_size_ok [OF assms(1)] show ?thesis
    by (simp add: print_list_def)
qed

text \<open>
  C3. get_next_item on a well-formed list never fails, keeps the list well
  formed, touches no other object than the list header, and returns the item
  and moves the cursor exactly as the abstract nextItem does.
\<close>

theorem get_next_item_refines:
  assumes "list_ok s l xs"
  shows "\<exists>r s'. get_next_item (Some l) s = Inr (r, s') \<and> list_ok s' l xs \<and>
     unchanged_outside s s' {} {l} \<and> (r, abs_list s' l xs) = seq_next (abs_list s l xs)"
  using get_next_item_step [OF assms] by (fastforce simp: unchanged_outside_def)

theorem get_next_item_refines_witness:
  "list_ok ex_join_store 0 [1] \<and>
   (\<exists>r s'. get_next_item (Some 0) ex_join_store = Inr (r, s') \<and> list_ok s' 0 [1] \<and>
      unchanged_outside ex_join_store s' {} {0} \<and>
      (r, abs_list s' 0 [1]) = seq_next (abs_list ex_join_store 0 [1]))"
proof -
  have a: "list_ok ex_join_store 0 [1]"
    by (simp add: ex_join_store_def list_ok_def hdr_ok_def)
  from get_next_item_refines [OF a] a show ?thesis by blast
qed

text \<open>
  C9. After reset_list_item, \<open>n + 1\<close> calls of get_next_item on a well-formed
  list of \<open>n\<close> members return its items in list order and then NULL, and leave
  the cursor reset, so that the same sequence can be produced again.
\<close>

theorem iterate_after_reset:
  assumes "list_ok s l xs"
  shows "\<exists>s1 s2. reset_list_item (Some l) s = Inr s1 \<and>
     get_next_items (Suc (length xs)) (Some l) s1 = Inr (map Some (items_at (members s) xs) @ [None], s2) \<and>
     list_ok s2 l xs \<and> pos (abs_list s2 l xs) = None"
proof -
  from reset_list_item_ok [OF assms] obtain s1 where
    s1: "reset_list_item (Some l) s = Inr s1" "list_ok s1 l xs" "members s1 = members s"
    and a1: "abs_list s1 l xs = seq_reset (abs_list s l xs)"
    by blast
  from get_next_items_run [OF s1(2), of "Suc (length xs)"] obtain rs s2 where
    r: "get_next_items (Suc (length xs)) (Some l) s1 = Inr (rs, s2)" "list_ok s2 l xs"
    and a2: "(rs, abs_list s2 l xs) = seq_iterate (Suc (length xs)) (abs_list s1 l xs)"
    by blast
  have p1: "pos (abs_list s1 l xs) = None" using a1 by (simp add: seq_reset_def)
  have "seq_iterate (Suc (length xs)) (abs_list s1 l xs) =
        (map Some (items_at (members s) xs) @ [None], abs_list s1 l xs)"
    using seq_iterate_all [OF p1] s1(3) by (simp add: abs_list_def)
  with a2 have "rs = map Some (items_at (members s) xs) @ [None]"
    and "abs_list s2 l xs = abs_list s1 l xs" by simp_all
  with s1 r p1 show ?thesis by auto
qed

theorem iterate_after_reset_witness:
  "list_ok ex_join_store 0 [1] \<and>
   (\<exists>s1 s2. reset_list_item (Some 0) ex_join_store = Inr s1 \<and>
      get_next_items 2 (Some 0) s1 = Inr ([Some 7, None], s2))"
proof -
  have a: "list_ok ex_join_store 0 [1]"
    by (simp add: ex_join_store_def list_ok_def hdr_ok_def)
  from iterate_after_reset [OF a] a show ?thesis
    by (auto simp: ex_join_store_def numeral_2_eq_2)
qed

text \<open>
  C15. The driver's print_list terminates on a well-formed list whose cursor
  is reset: it prints the member count and every item in list order, and
  leaves the cursor reset.
\<close>

theorem print_list_total:
  assumes "list_ok s l xs" and "pos (abs_list s l xs) = None"
  shows "\<exists>s'. print_list (Some l) s = Some (Inr ((of_nat (length xs), items_at (members s) xs), s')) \<and>
     list_ok s' l xs \<and> pos (abs_list s' l xs) = None"
  using print_items_reset [OF assms] list_size_ok [OF assms(1)]
  by (auto simp: print_list_def)

theorem print_list_total_witness:
  "list_ok ex_join_store 0 [1] \<and> pos (abs_list ex_join_store 0 [1]) = None \<and>
   (\<exists>s'. print_list (Some 0) ex_join_store = Some (Inr ((1, [7]), s')))"
proof -
  have a: "list_ok ex_join_store 0 [1]" and p: "pos (abs_list ex_join_store 0 [1]) = None"
    by (simp_all add: ex_join_store_def list_ok_def hdr_ok_def abs_list_def)
  from print_list_total [OF a p] a p show ?thesis
    by (auto simp: ex_join_store_def)
qed

end
