(* ===== verification/Sort.thy ===== *)
theory Sort
  imports List_Core
begin

text \<open>
  \<open>sort_list\<close> (\<open>src/liblist.c\<close>, lines 132--162): bubble sort over the member
  chain that swaps the items of adjacent members (never the members) until a
  pass makes no swap. The inner loop is \<open>sort_pass\<close>, one iteration of the outer
  \<open>while (swap_count)\<close> loop with its re-test is \<open>sort_rounds\<close>; both follow
  pointers and need not end, hence \<open>partial_function (option)\<close>. A pass is
  shown equal to the list function \<open>bubble_pass\<close>; termination for a total
  comparator follows from the number of inversions, which each pass lowers by
  exactly its number of swaps. For a comparator that is not total the loop can
  run forever: \<open>sort_list\<close> never returns on a list of equal items when the
  comparator rejects equal items.
\<close>

section \<open>Operations\<close>

text \<open>
  The inner \<open>while (next)\<close> loop, lines 148--159. \<open>cmp\<close> is the caller's
  comparison, non-zero (\<open>True\<close>) when its arguments are in order.
\<close>

partial_function (option) sort_pass ::
  "('a \<Rightarrow> 'a \<Rightarrow> bool) \<Rightarrow> ptr \<Rightarrow> ptr \<Rightarrow> int32 \<Rightarrow> 'a store \<Rightarrow> (err + int32 \<times> 'a store) option"
where
  "sort_pass cmp present next swap_count s =
     (case next of
        None \<Rightarrow> Some (Inr (swap_count, s))
      | Some _ \<Rightarrow>
          (case bind_err (get_member s present) (\<lambda>p. bind_err (get_member s next) (\<lambda>n.
                  if \<not> cmp (item p) (item n) then
                    bind_err (set_item present (item n) s) (\<lambda>s1.
                    bind_err (set_item next (item p) s1) (\<lambda>s2. Inr (swap_count + 1, s2)))
                  else Inr (swap_count, s))) of
             Inl e \<Rightarrow> Some (Inl e)
           | Inr (c, s') \<Rightarrow>
               (case get_member s' next of
                  Inl e \<Rightarrow> Some (Inl e)
                | Inr n' \<Rightarrow> sort_pass cmp next (next_m n') c s')))"

text \<open>
  One round of the outer loop, lines 145--159, and its test \<open>while (swap_count)\<close>
  (line 143); the loop is entered with \<open>swap_count = 1\<close>, so a first round
  always runs.
\<close>

partial_function (option) sort_rounds ::
  "('a \<Rightarrow> 'a \<Rightarrow> bool) \<Rightarrow> ptr \<Rightarrow> 'a store \<Rightarrow> (err + 'a store) option"
where
  "sort_rounds cmp list s =
     (case bind_err (get_list s list) (\<lambda>L. bind_err (get_member s (first_m L)) (\<lambda>p.
             Inr (first_m L, next_m p))) of
        Inl e \<Rightarrow> Some (Inl e)
      | Inr (present, next) \<Rightarrow>
          Option.bind (sort_pass cmp present next 0 s) (\<lambda>r.
            case r of
              Inl e \<Rightarrow> Some (Inl e)
            | Inr (c, s') \<Rightarrow> if c \<noteq> 0 then sort_rounds cmp list s' else Some (Inr s')))"

text \<open>
  \<open>sort_list\<close>: NULL (and no change) for a NULL list, a NULL comparator or an
  empty list, checked in this order; otherwise the list pointer after sorting.
\<close>

definition sort_list ::
  "ptr \<Rightarrow> ('a \<Rightarrow> 'a \<Rightarrow> bool) option \<Rightarrow> 'a store \<Rightarrow> (err + ptr \<times> 'a store) option"
where
  "sort_list list cmp s =
     (case list of
        None \<Rightarrow> Some (Inr (None, s))
      | Some _ \<Rightarrow>
          (case cmp of
             None \<Rightarrow> Some (Inr (None, s))
           | Some c \<Rightarrow>
               (case get_list s list of
                  Inl e \<Rightarrow> Some (Inl e)
                | Inr L \<Rightarrow>
                    if first_m L = None then Some (Inr (None, s))
                    else Option.bind (sort_rounds c list s) (\<lambda>r.
                           Some (bind_err r (\<lambda>s'. Inr (list, s')))))))"

declare sort_pass.simps [code] sort_rounds.simps [code]

text \<open>
  The driver's comparators on its integer items (\<open>src/test/test_list.c\<close>,
  lines 39--47): in order when non-decreasing, respectively non-increasing.
\<close>

definition sort_asc :: "int \<Rightarrow> int \<Rightarrow> bool" where
  "sort_asc a b = (a \<le> b)"

definition sort_desc :: "int \<Rightarrow> int \<Rightarrow> bool" where
  "sort_desc a b = (a \<ge> b)"

text \<open>Two members 1 and 2 with items 5 and 3 in list 0, as in the spec's scenarios.\<close>

definition ex_sort_store :: "int store" where
  "ex_sort_store = \<lparr>members = [1 \<mapsto> \<lparr>next_m = Some 2, item = 5\<rparr>, 2 \<mapsto> \<lparr>next_m = None, item = 3\<rparr>],
     lists = [0 \<mapsto> \<lparr>first_m = Some 1, last_m = Some 2, current_m = None, total_members = 2\<rparr>],
     next_free = 3, avail = 4, destroyed = []\<rparr>"

definition ex_equal_store :: "int store" where
  "ex_equal_store = \<lparr>members = [1 \<mapsto> \<lparr>next_m = Some 2, item = 5\<rparr>, 2 \<mapsto> \<lparr>next_m = None, item = 5\<rparr>],
     lists = [0 \<mapsto> \<lparr>first_m = Some 1, last_m = Some 2, current_m = None, total_members = 2\<rparr>],
     next_free = 3, avail = 4, destroyed = []\<rparr>"

text \<open>
  List 0 of members 1 to 3 with items 25, 13 and 21: sorted by their tens,
  25 and 21 are equal.
\<close>

definition ex_stable_store :: "int store" where
  "ex_stable_store = \<lparr>members = [1 \<mapsto> \<lparr>next_m = Some 2, item = 25\<rparr>, 2 \<mapsto> \<lparr>next_m = Some 3, item = 13\<rparr>,
       3 \<mapsto> \<lparr>next_m = None, item = 21\<rparr>],
     lists = [0 \<mapsto> \<lparr>first_m = Some 1, last_m = Some 3, current_m = None, total_members = 3\<rparr>],
     next_free = 4, avail = 4, destroyed = []\<rparr>"

section \<open>Bubble sort on lists\<close>

text \<open>One pass over a list of items: the passed list and the number of swaps.\<close>

fun bubble_pass :: "('a \<Rightarrow> 'a \<Rightarrow> bool) \<Rightarrow> 'a list \<Rightarrow> 'a list \<times> nat" where
  "bubble_pass cmp (x # y # zs) =
     (if cmp x y then (let (ws, n) = bubble_pass cmp (y # zs) in (x # ws, n))
      else (let (ws, n) = bubble_pass cmp (x # zs) in (y # ws, Suc n)))"
| "bubble_pass cmp xs = (xs, 0)"

text \<open>Pairs out of order, the termination measure of the outer loop.\<close>

fun inversions :: "('a \<Rightarrow> 'a \<Rightarrow> bool) \<Rightarrow> 'a list \<Rightarrow> nat" where
  "inversions cmp [] = 0"
| "inversions cmp (x # xs) = length (filter (\<lambda>y. \<not> cmp x y) xs) + inversions cmp xs"

definition total_cmp :: "('a \<Rightarrow> 'a \<Rightarrow> bool) \<Rightarrow> bool" where
  "total_cmp cmp = (\<forall>x y. cmp x y \<or> cmp y x)"

text \<open>
  Bubble sort on lists: passes until one makes no swap. It need not end (a
  comparator that rejects equal items keeps swapping them), hence the option.
\<close>

partial_function (option) bubble_sort :: "('a \<Rightarrow> 'a \<Rightarrow> bool) \<Rightarrow> 'a list \<Rightarrow> 'a list option" where
  "bubble_sort cmp xs = (case bubble_pass cmp xs of (ys, n) \<Rightarrow> if n = 0 then Some ys else bubble_sort cmp ys)"

declare bubble_sort.simps [code]

section \<open>Lemmas on bubble passes\<close>

lemma bubble_pass_mset: "mset (fst (bubble_pass cmp xs)) = mset xs"
  by (induction cmp xs rule: bubble_pass.induct) (auto split: prod.splits)

lemma bubble_pass_length: "length (fst (bubble_pass cmp xs)) = length xs"
  by (metis bubble_pass_mset size_mset)

lemma bubble_pass_bound: "snd (bubble_pass cmp xs) < length xs \<or> xs = []"
  by (induction cmp xs rule: bubble_pass.induct) (auto split: prod.splits)

lemma bubble_pass_no_swap:
  "snd (bubble_pass cmp xs) = 0 \<Longrightarrow> fst (bubble_pass cmp xs) = xs \<and> successively cmp xs"
proof (induction cmp xs rule: bubble_pass.induct)
  case (1 cmp x y zs)
  then show ?case by (cases "cmp x y") (auto split: prod.splits)
qed auto

lemma bubble_pass_inversions:
  assumes "total_cmp cmp"
  shows "inversions cmp (fst (bubble_pass cmp xs)) + snd (bubble_pass cmp xs) = inversions cmp xs"
  using assms
proof (induction cmp xs rule: bubble_pass.induct)
  case (1 cmp x y zs)
  show ?case
  proof (cases "cmp x y")
    case True
    obtain ws n where p: "bubble_pass cmp (y # zs) = (ws, n)" by fastforce
    have "length (filter (\<lambda>v. \<not> cmp x v) ws) = length (filter (\<lambda>v. \<not> cmp x v) (y # zs))"
      using bubble_pass_mset [of cmp "y # zs"] p by (intro length_filter_mset_eq) simp
    with True p "1.IH"(1) "1.prems" show ?thesis by simp
  next
    case False
    with "1.prems" have yx: "cmp y x" by (auto simp: total_cmp_def)
    obtain ws n where p: "bubble_pass cmp (x # zs) = (ws, n)" by fastforce
    have "length (filter (\<lambda>v. \<not> cmp y v) ws) = length (filter (\<lambda>v. \<not> cmp y v) (x # zs))"
      using bubble_pass_mset [of cmp "x # zs"] p by (intro length_filter_mset_eq) simp
    with False yx p "1.IH"(2) "1.prems" show ?thesis by simp
  qed
qed auto

text \<open>
  A pass swaps only pairs the comparator rejects, so the items a comparator
  accepts in both orders keep their relative order.
\<close>

lemma bubble_pass_filter:
  assumes "\<forall>x y. P x \<and> P y \<longrightarrow> cmp x y"
  shows "filter P (fst (bubble_pass cmp xs)) = filter P xs"
  using assms
proof (induction cmp xs rule: bubble_pass.induct)
  case (1 cmp x y zs)
  show ?case
  proof (cases "cmp x y")
    case True
    then show ?thesis using "1.IH"(1) "1.prems" by (auto split: prod.splits)
  next
    case False
    then have "\<not> (P x \<and> P y)" using "1.prems" by blast
    then show ?thesis using False "1.IH"(2) "1.prems" by (auto split: prod.splits)
  qed
qed auto

section \<open>The inner loop computes one bubble pass\<close>

lemma lseg_next_cong:
  "\<forall>b \<in> set xs. map_option next_m (h' b) = map_option next_m (h b) \<Longrightarrow>
   lseg h' p xs q = lseg h p xs q"
proof (induction xs arbitrary: p)
  case (Cons a xs)
  then show ?case
    by (cases "h a"; cases "h' a") auto
qed simp

lemma sort_pass_run:
  assumes "lseg (members s) (Some a) (a # as) None"
  shows "\<exists>h'. sort_pass cmp (Some a) (next_m (the (members s a))) c s =
       Some (Inr (c + of_nat (snd (bubble_pass cmp (items_at (members s) (a # as)))),
                  s\<lparr>members := h'\<rparr>)) \<and>
     items_at h' (a # as) = fst (bubble_pass cmp (items_at (members s) (a # as))) \<and>
     (\<forall>b. map_option next_m (h' b) = map_option next_m (members s b)) \<and>
     (\<forall>b. b \<notin> set (a # as) \<longrightarrow> h' b = members s b)"
  using assms
proof (induction as arbitrary: a s c)
  case Nil
  then obtain p where p: "members s a = Some p" "next_m p = None"
    by (auto split: option.splits)
  then show ?case
    by (intro exI [of _ "members s"]) (simp add: sort_pass.simps)
next
  case (Cons b bs)
  from Cons.prems obtain p where p: "members s a = Some p" "next_m p = Some b"
    and segb: "lseg (members s) (Some b) (b # bs) None"
    by (auto split: option.splits)
  from segb obtain n where n: "members s b = Some n" by (auto split: option.splits)
  have dist: "distinct (a # b # bs)" using lseg_distinct [OF Cons.prems] .
  show ?case
  proof (cases "cmp (item p) (item n)")
    case True
    from Cons.IH [OF segb, of c] n obtain h' where
      run: "sort_pass cmp (Some b) (next_m n) c s =
              Some (Inr (c + of_nat (snd (bubble_pass cmp (items_at (members s) (b # bs)))),
                         s\<lparr>members := h'\<rparr>))"
      and its: "items_at h' (b # bs) = fst (bubble_pass cmp (items_at (members s) (b # bs)))"
      and nx: "\<forall>b. map_option next_m (h' b) = map_option next_m (members s b)"
      and out: "\<forall>x. x \<notin> set (b # bs) \<longrightarrow> h' x = members s x"
      by auto
    have "h' a = Some p" using out dist p by simp
    with run its nx out p n True show ?thesis
      by (intro exI [of _ h']) (auto simp: sort_pass.simps [of cmp "Some a"] split: prod.splits)
  next
    case False
    let ?h2 = "(members s)(a \<mapsto> p\<lparr>item := item n\<rparr>, b \<mapsto> n\<lparr>item := item p\<rparr>)"
    let ?s2 = "s\<lparr>members := ?h2\<rparr>"
    have ab: "a \<noteq> b" using dist by simp
    have swap: "sort_pass cmp (Some a) (Some b) c s =
                sort_pass cmp (Some b) (next_m n) (c + 1) ?s2"
      using p n False ab by (simp add: sort_pass.simps [of cmp "Some a"] set_item_Some)
    have "lseg ?h2 (Some b) (b # bs) None"
      using segb p n by (subst lseg_next_cong) auto
    then have seg2: "lseg (members ?s2) (Some b) (b # bs) None" by simp
    have rest: "items_at ?h2 bs = items_at (members s) bs"
      using dist by (intro items_at_cong) auto
    from Cons.IH [OF seg2, of "c + 1"] obtain h' where
      run: "sort_pass cmp (Some b) (next_m (the (members ?s2 b))) (c + 1) ?s2 =
              Some (Inr (c + 1 + of_nat (snd (bubble_pass cmp (items_at (members ?s2) (b # bs)))),
                         ?s2\<lparr>members := h'\<rparr>))"
      and its: "items_at h' (b # bs) = fst (bubble_pass cmp (items_at (members ?s2) (b # bs)))"
      and nx: "\<forall>x. map_option next_m (h' x) = map_option next_m (members ?s2 x)"
      and out: "\<forall>x. x \<notin> set (b # bs) \<longrightarrow> h' x = members ?s2 x"
      by blast
    have items2: "items_at (members ?s2) (b # bs) = item p # items_at (members s) bs"
      using rest ab by simp
    have nb: "next_m (the (members ?s2 b)) = next_m n" by simp
    have ha: "h' a = Some (p\<lparr>item := item n\<rparr>)" using out dist ab by simp
    have nx': "\<forall>x. map_option next_m (h' x) = map_option next_m (members s x)"
      using nx p n by auto
    have out': "\<forall>x. x \<notin> set (a # b # bs) \<longrightarrow> h' x = members s x"
      using out by auto
    have run': "sort_pass cmp (Some a) (next_m (the (members s a))) c s =
        Some (Inr (c + 1 + of_nat (snd (bubble_pass cmp (item p # items_at (members s) bs))),
                   s\<lparr>members := h'\<rparr>))"
      using swap run p items2 nb by simp
    show ?thesis
      using run' its items2 nx' out' ha p n False
      by (intro exI [of _ h']) (auto split: prod.splits)
  qed
qed

section \<open>The outer loop terminates with a sorted permutation\<close>

lemma hdr_ok_next_cong:
  assumes "\<forall>b. map_option next_m (h' b) = map_option next_m (h b)"
  shows "hdr_ok h' L xs = hdr_ok h L xs"
  using lseg_next_cong [of xs h' h "first_m L" None] assms by (simp add: hdr_ok_def)

lemma sort_rounds_run:
  assumes ok: "list_ok s l xs" and ne: "xs \<noteq> []" and tot: "total_cmp cmp"
    and len: "length xs < 2 ^ 32"
  shows "\<exists>h'. sort_rounds cmp (Some l) s = Some (Inr (s\<lparr>members := h'\<rparr>)) \<and>
     list_ok (s\<lparr>members := h'\<rparr>) l xs \<and>
     mset (items_at h' xs) = mset (items_at (members s) xs) \<and>
     successively cmp (items_at h' xs) \<and> (\<forall>b. b \<notin> set xs \<longrightarrow> h' b = members s b) \<and>
     (\<forall>P. (\<forall>x y. P x \<and> P y \<longrightarrow> cmp x y) \<longrightarrow> filter P (items_at h' xs) = filter P (items_at (members s) xs))"
  using ok
proof (induction "inversions cmp (items_at (members s) xs)" arbitrary: s rule: less_induct)
  case less
  from less.prems obtain L where L: "lists s l = Some L" and hL: "hdr_ok (members s) L xs"
    by (auto simp: list_ok_def split: option.splits)
  from ne obtain a as where xs: "xs = a # as" by (cases xs) auto
  from hL xs have F: "first_m L = Some a" and seg: "lseg (members s) (Some a) (a # as) None"
    by (simp_all add: hdr_ok_def)
  from seg obtain p where p: "members s a = Some p" by (auto split: option.splits)
  let ?bp = "bubble_pass cmp (items_at (members s) xs)"
  from sort_pass_run [OF seg, of cmp 0] xs obtain h1 where
    run: "sort_pass cmp (Some a) (next_m (the (members s a))) 0 s =
            Some (Inr (of_nat (snd ?bp), s\<lparr>members := h1\<rparr>))"
    and its1: "items_at h1 xs = fst ?bp"
    and nx1: "\<forall>b. map_option next_m (h1 b) = map_option next_m (members s b)"
    and out1: "\<forall>b. b \<notin> set xs \<longrightarrow> h1 b = members s b"
    by auto
  let ?s1 = "s\<lparr>members := h1\<rparr>"
  have body: "sort_rounds cmp (Some l) s =
      (if (of_nat (snd ?bp) :: int32) \<noteq> 0 then sort_rounds cmp (Some l) ?s1 else Some (Inr ?s1))"
    using L F p run by (simp add: sort_rounds.simps [of cmp "Some l" s])
  have ok1: "list_ok ?s1 l xs"
    using L hL hdr_ok_next_cong [OF nx1] by (simp add: list_ok_def)
  have bound: "snd ?bp < 2 ^ 32"
    using bubble_pass_bound [of cmp "items_at (members s) xs"] ne len by auto
  show ?case
  proof (cases "snd ?bp = 0")
    case True
    with bubble_pass_no_swap have "fst ?bp = items_at (members s) xs"
      and "successively cmp (items_at (members s) xs)" by blast+
    with True body ok1 its1 out1 show ?thesis
      by (intro exI [of _ h1]) simp
  next
    case False
    with of_nat_int32_eq_0 [OF bound] have nz: "(of_nat (snd ?bp) :: int32) \<noteq> 0" by simp
    have "inversions cmp (items_at h1 xs) < inversions cmp (items_at (members s) xs)"
      using bubble_pass_inversions [OF tot, of "items_at (members s) xs"] False its1 by simp
    from less.hyps [OF _ ok1] this obtain h' where
      r: "sort_rounds cmp (Some l) ?s1 = Some (Inr (?s1\<lparr>members := h'\<rparr>))"
      "list_ok (?s1\<lparr>members := h'\<rparr>) l xs"
      and m: "mset (items_at h' xs) = mset (items_at h1 xs)"
      and sc: "successively cmp (items_at h' xs)"
      and o: "\<forall>b. b \<notin> set xs \<longrightarrow> h' b = h1 b"
      and fl: "\<forall>P. (\<forall>x y. P x \<and> P y \<longrightarrow> cmp x y) \<longrightarrow> filter P (items_at h' xs) = filter P (items_at h1 xs)"
      by auto
    have fl': "\<forall>P. (\<forall>x y. P x \<and> P y \<longrightarrow> cmp x y) \<longrightarrow>
        filter P (items_at h' xs) = filter P (items_at (members s) xs)"
      using fl its1 bubble_pass_filter by metis
    have "mset (items_at h1 xs) = mset (items_at (members s) xs)"
      using its1 bubble_pass_mset by metis
    with body nz r m sc o out1 fl' show ?thesis
      by (intro exI [of _ h']) auto
  qed
qed

lemma sort_list_run:
  assumes "list_ok s l xs" and "xs \<noteq> []" and "total_cmp cmp" and "length xs < 2 ^ 32"
  shows "\<exists>s'. sort_list (Some l) (Some cmp) s = Some (Inr (Some l, s')) \<and> list_ok s' l xs \<and>
     mset (elems (abs_list s' l xs)) = mset (elems (abs_list s l xs)) \<and>
     successively cmp (elems (abs_list s' l xs)) \<and>
     pos (abs_list s' l xs) = pos (abs_list s l xs) \<and> unchanged_outside s s' (set xs) {} \<and>
     next_free s' = next_free s \<and> avail s' = avail s \<and> destroyed s' = destroyed s \<and>
     (\<forall>P. (\<forall>x y. P x \<and> P y \<longrightarrow> cmp x y) \<longrightarrow>
        filter P (elems (abs_list s' l xs)) = filter P (elems (abs_list s l xs)))"
proof -
  from assms(1) obtain L where L: "lists s l = Some L" and hL: "hdr_ok (members s) L xs"
    by (auto simp: list_ok_def split: option.splits)
  from hL assms(2) have F: "first_m L \<noteq> None" by (cases xs) (auto simp: hdr_ok_def)
  from sort_rounds_run [OF assms] obtain h' where
    r: "sort_rounds cmp (Some l) s = Some (Inr (s\<lparr>members := h'\<rparr>))"
      "list_ok (s\<lparr>members := h'\<rparr>) l xs"
    and m: "mset (items_at h' xs) = mset (items_at (members s) xs)"
    and sc: "successively cmp (items_at h' xs)"
    and o: "\<forall>b. b \<notin> set xs \<longrightarrow> h' b = members s b"
    and fl: "\<forall>P. (\<forall>x y. P x \<and> P y \<longrightarrow> cmp x y) \<longrightarrow> filter P (items_at h' xs) = filter P (items_at (members s) xs)"
    by blast
  have "sort_list (Some l) (Some cmp) s = Some (Inr (Some l, s\<lparr>members := h'\<rparr>))"
    using L F r by (simp add: sort_list_def)
  with r m sc o fl show ?thesis
    by (intro exI [of _ "s\<lparr>members := h'\<rparr>"]) (auto simp: abs_list_def unchanged_outside_def)
qed

lemma sort_asc_sorted_eq:
  assumes "successively sort_asc ws" and "mset ws = mset xs"
  shows "ws = sort xs"
proof -
  have asc: "sort_asc = (\<le>)" by (simp add: fun_eq_iff sort_asc_def)
  have "sorted ws"
    using assms(1) successively_conv_sorted_wrt [of "(\<le>) :: int \<Rightarrow> int \<Rightarrow> bool"]
    by (simp add: asc transp_def)
  with assms(2) show ?thesis by (simp add: properties_for_sort)
qed

lemma sort_desc_sorted_eq:
  assumes "successively sort_desc ws" and "mset ws = mset xs"
  shows "ws = rev (sort xs)"
proof -
  have "successively sort_asc (rev ws)"
    using assms(1) by (simp add: successively_rev sort_asc_def sort_desc_def)
  from sort_asc_sorted_eq [OF this] assms(2) have "rev ws = sort xs" by simp
  then show ?thesis by (metis rev_rev_ident)
qed

text \<open>
  C4. For any total comparator, sort_list on a non-empty well-formed list (of
  fewer than \<open>2^32\<close> members, so that a pass's swap count cannot wrap to 0)
  returns the list; the member chain and the cursor are unchanged, the items
  are a permutation of the old ones, and every adjacent pair is in order.
\<close>

theorem sort_list_sorts:
  assumes "list_ok s l xs" and "xs \<noteq> []" and "total_cmp cmp" and "length xs < 2 ^ 32"
  shows "\<exists>s'. sort_list (Some l) (Some cmp) s = Some (Inr (Some l, s')) \<and> list_ok s' l xs \<and>
     mset (elems (abs_list s' l xs)) = mset (elems (abs_list s l xs)) \<and>
     successively cmp (elems (abs_list s' l xs)) \<and>
     pos (abs_list s' l xs) = pos (abs_list s l xs) \<and> unchanged_outside s s' (set xs) {} \<and>
     next_free s' = next_free s \<and> avail s' = avail s \<and> destroyed s' = destroyed s"
  using sort_list_run [OF assms] by blast

theorem sort_list_sorts_witness:
  "list_ok ex_join_store 0 [1] \<and> [1::nat] \<noteq> [] \<and> total_cmp ((\<le>) :: nat \<Rightarrow> nat \<Rightarrow> bool) \<and>
   length [1::nat] < 2 ^ 32 \<and>
   (\<exists>s'. sort_list (Some 0) (Some (\<le>)) ex_join_store = Some (Inr (Some 0, s')) \<and>
      list_ok s' 0 [1] \<and> elems (abs_list s' 0 [1]) = [7])"
proof -
  have a: "list_ok ex_join_store 0 [1]"
    by (simp add: ex_join_store_def list_ok_def hdr_ok_def)
  have t: "total_cmp ((\<le>) :: nat \<Rightarrow> nat \<Rightarrow> bool)" by (auto simp: total_cmp_def)
  from sort_list_sorts [OF a _ t] a t show ?thesis
    by (auto simp: ex_join_store_def abs_list_def)
qed

text \<open>
  C10. With the driver's ascending comparator sort_asc, sort_list leaves the
  items of a non-empty well-formed list in exactly the order of the sorted
  list of its old items.
\<close>

theorem sort_list_ascending:
  assumes "list_ok s l xs" and "xs \<noteq> []" and "length xs < 2 ^ 32"
  shows "\<exists>s'. sort_list (Some l) (Some sort_asc) s = Some (Inr (Some l, s')) \<and> list_ok s' l xs \<and>
     elems (abs_list s' l xs) = sort (elems (abs_list s l xs))"
proof -
  have t: "total_cmp sort_asc" by (auto simp: total_cmp_def sort_asc_def)
  from sort_list_run [OF assms(1,2) t assms(3)] obtain s' where
    r: "sort_list (Some l) (Some sort_asc) s = Some (Inr (Some l, s'))" "list_ok s' l xs"
    and m: "mset (elems (abs_list s' l xs)) = mset (elems (abs_list s l xs))"
    and sc: "successively sort_asc (elems (abs_list s' l xs))"
    by blast
  from r sort_asc_sorted_eq [OF sc m] show ?thesis by auto
qed

text \<open>
  C18. sort_list returns NULL and changes nothing for a NULL list, for a NULL
  comparator, and for an empty well-formed list.
\<close>

theorem sort_list_null_cases:
  assumes "list_ok s l []"
  shows "sort_list None cmp s = Some (Inr (None, s)) \<and> sort_list (Some l) None s = Some (Inr (None, s)) \<and>
     sort_list (Some l) cmp s = Some (Inr (None, s))"
  using assms by (auto simp: sort_list_def list_ok_def hdr_ok_Nil split: option.splits)

theorem sort_list_null_cases_witness:
  "list_ok ex_join_store 2 [] \<and> sort_list (Some 2) (Some (\<le>)) ex_join_store = Some (Inr (None, ex_join_store))"
proof -
  have a: "list_ok ex_join_store 2 []"
    by (simp add: ex_join_store_def list_ok_def hdr_ok_def empty_hdr_def)
  from sort_list_null_cases [OF a, of "Some (\<le>)"] a show ?thesis by simp
qed

theorem sort_list_ascending_witness:
  "list_ok ex_sort_store 0 [1, 2] \<and> length [1::nat, 2] < 2 ^ 32 \<and>
   (\<exists>s'. sort_list (Some 0) (Some sort_asc) ex_sort_store = Some (Inr (Some 0, s')) \<and>
      elems (abs_list s' 0 [1, 2]) = [3, 5])"
proof -
  have a: "list_ok ex_sort_store 0 [1, 2]"
    by (simp add: ex_sort_store_def list_ok_def hdr_ok_def)
  from sort_list_ascending [OF a] a show ?thesis
    by (auto simp: ex_sort_store_def abs_list_def)
qed

section \<open>A comparator that rejects equal items\<close>

lemma bubble_pass_replicate:
  "\<not> cmp x x \<Longrightarrow> bubble_pass cmp (replicate (Suc k) x) = (replicate (Suc k) x, k)"
  by (induction k) auto

lemma sort_rounds_never_returns:
  assumes "sort_rounds cmp list s = Some r"
  shows "\<not> (list = Some l \<and> list_ok s l xs \<and> 2 \<le> length xs \<and> length xs < 2 ^ 32 \<and>
            items_at (members s) xs = replicate (length xs) x \<and> \<not> cmp x x)"
proof (rule sort_rounds.raw_induct [where P = "\<lambda>cmp list s r.
    \<not> (list = Some l \<and> list_ok s l xs \<and> 2 \<le> length xs \<and> length xs < 2 ^ 32 \<and>
       items_at (members s) xs = replicate (length xs) x \<and> \<not> cmp x x)", OF _ assms],
    goal_cases)
  case (1 f cmp list s r)
  show ?case
  proof
    assume pre: "list = Some l \<and> list_ok s l xs \<and> 2 \<le> length xs \<and> length xs < 2 ^ 32 \<and>
       items_at (members s) xs = replicate (length xs) x \<and> \<not> cmp x x"
    then have ok: "list_ok s l xs" and len: "2 \<le> length xs" "length xs < 2 ^ 32"
      and its: "items_at (members s) xs = replicate (length xs) x" and nx: "\<not> cmp x x"
      and lp: "list = Some l"
      by auto
    from ok obtain L where L: "lists s l = Some L" and hL: "hdr_ok (members s) L xs"
      by (auto simp: list_ok_def split: option.splits)
    from len obtain a as where xs: "xs = a # as" by (cases xs) auto
    from hL xs have F: "first_m L = Some a" and seg: "lseg (members s) (Some a) (a # as) None"
      by (simp_all add: hdr_ok_def)
    from seg obtain p where p: "members s a = Some p" by (auto split: option.splits)
    have bp: "bubble_pass cmp (items_at (members s) xs) = (replicate (length xs) x, length xs - 1)"
      using bubble_pass_replicate [of cmp x "length xs - 1", OF nx] its xs by simp
    from sort_pass_run [OF seg, of cmp 0] xs bp obtain h1 where
      run: "sort_pass cmp (Some a) (next_m (the (members s a))) 0 s =
              Some (Inr (of_nat (length xs - 1), s\<lparr>members := h1\<rparr>))"
      and its1: "items_at h1 xs = replicate (length xs) x"
      and nx1: "\<forall>b. map_option next_m (h1 b) = map_option next_m (members s b)"
      by auto
    have lt: "length xs - 1 < 2 ^ 32" and ne0: "length xs - 1 \<noteq> 0" using len by auto
    have nz: "(of_nat (length xs - 1) :: int32) \<noteq> 0"
      using of_nat_int32_eq_0 [OF lt] ne0 by simp
    from "1"(2) lp L F p run nz have again: "f cmp (Some l) (s\<lparr>members := h1\<rparr>) = Some r" by simp
    have "list_ok (s\<lparr>members := h1\<rparr>) l xs"
      using L hL hdr_ok_next_cong [OF nx1] by (simp add: list_ok_def)
    with "1"(1) [OF again] len its1 nx show False by simp
  qed
qed

text \<open>
  C13. Divergence: when the comparator rejects an item compared with itself
  (a strict order, such as \<open><\<close>), sort_list never returns on a well-formed
  list of two or more equal items: every pass swaps each adjacent pair, so the
  swap count is never 0. The spec allows such comparators ("true for equal
  elements if no strict ordering is desired").
\<close>

theorem sort_list_strict_diverges:
  assumes "list_ok s l xs" and "2 \<le> length xs" and "length xs < 2 ^ 32"
    and "items_at (members s) xs = replicate (length xs) x" and "\<not> cmp x x"
  shows "sort_list (Some l) (Some cmp) s = None"
proof -
  from assms(1) obtain L where L: "lists s l = Some L" and hL: "hdr_ok (members s) L xs"
    by (auto simp: list_ok_def split: option.splits)
  from hL assms(2) have F: "first_m L \<noteq> None" by (cases xs) (auto simp: hdr_ok_def)
  have "sort_rounds cmp (Some l) s = None"
  proof (rule ccontr)
    assume "sort_rounds cmp (Some l) s \<noteq> None"
    then obtain r where "sort_rounds cmp (Some l) s = Some r" by blast
    from sort_rounds_never_returns [OF this, of l xs x] assms show False by simp
  qed
  with L F show ?thesis by (simp add: sort_list_def)
qed

theorem sort_list_strict_diverges_witness:
  "list_ok ex_equal_store 0 [1, 2] \<and> items_at (members ex_equal_store) [1, 2] = replicate 2 5 \<and>
   sort_list (Some 0) (Some (<)) ex_equal_store = None"
proof -
  have a: "list_ok ex_equal_store 0 [1, 2]"
    by (simp add: ex_equal_store_def list_ok_def hdr_ok_def)
  have i: "items_at (members ex_equal_store) [1, 2] = replicate (length [1::nat, 2]) (5::int)"
    by (simp add: ex_equal_store_def numeral_2_eq_2)
  have "sort_list (Some 0) (Some (<)) ex_equal_store = None"
    by (rule sort_list_strict_diverges [OF a _ _ i]) simp_all
  with a i show ?thesis by (simp add: numeral_2_eq_2)
qed

text \<open>
  C21. Equivalence of the C inner loop with the reference bubble pass: on a
  non-empty well-formed list, one run of sort_pass from the first member
  returns the number of swaps of bubble_pass on the list's items, leaves
  the member chain untouched (the list stays well formed) and leaves the
  items exactly as bubble_pass does.
\<close>

theorem sort_pass_equiv_bubble_pass:
  assumes "list_ok s l (a # as)" and "lists s l = Some L"
  shows "\<exists>h'. sort_pass cmp (first_m L) (next_m (the (members s a))) 0 s =
       Some (Inr (of_nat (snd (bubble_pass cmp (items_at (members s) (a # as)))), s\<lparr>members := h'\<rparr>)) \<and>
     list_ok (s\<lparr>members := h'\<rparr>) l (a # as) \<and>
     items_at h' (a # as) = fst (bubble_pass cmp (items_at (members s) (a # as)))"
proof -
  from assms have hL: "hdr_ok (members s) L (a # as)" by (simp add: list_ok_def)
  then have F: "first_m L = Some a" and seg: "lseg (members s) (Some a) (a # as) None"
    by (simp_all add: hdr_ok_def)
  from sort_pass_run [OF seg, of cmp 0] obtain h' where
    run: "sort_pass cmp (Some a) (next_m (the (members s a))) 0 s =
       Some (Inr (0 + of_nat (snd (bubble_pass cmp (items_at (members s) (a # as)))), s\<lparr>members := h'\<rparr>))"
    and its: "items_at h' (a # as) = fst (bubble_pass cmp (items_at (members s) (a # as)))"
    and nx: "\<forall>b. map_option next_m (h' b) = map_option next_m (members s b)"
    by blast
  have "list_ok (s\<lparr>members := h'\<rparr>) l (a # as)"
    using assms(2) hL hdr_ok_next_cong [OF nx] by (simp add: list_ok_def)
  with run its F show ?thesis by (intro exI [of _ h']) simp
qed

theorem sort_pass_equiv_bubble_pass_witness:
  "\<exists>h'. sort_pass sort_asc (Some 1) (Some 2) 0 ex_sort_store =
       Some (Inr (1, ex_sort_store\<lparr>members := h'\<rparr>)) \<and> items_at h' [1, 2] = [3, 5]"
proof -
  have ok: "list_ok ex_sort_store 0 [1, 2]" by (simp add: ex_sort_store_def list_ok_def hdr_ok_def)
  have L: "lists ex_sort_store 0 = Some \<lparr>first_m = Some 1, last_m = Some 2, current_m = None, total_members = 2\<rparr>"
    by (simp add: ex_sort_store_def)
  from sort_pass_equiv_bubble_pass [OF ok L, of sort_asc] show ?thesis
    by (simp add: ex_sort_store_def sort_asc_def) blast
qed

text \<open>
  C29. bubble sort keeps equal items in order: with a comparator that orders
  items by a key and accepts items of equal key in either order, sort_list on
  a non-empty well-formed list returns and leaves exactly the stable sort by
  that key of the old items (\<open>sort_key\<close>), so the sort of the spec's
  "stable-ish" bubble sort is stable.
\<close>

theorem sort_list_stable:
  fixes f :: "'a \<Rightarrow> 'b :: linorder"
  assumes "list_ok s l xs" and "xs \<noteq> []" and "length xs < 2 ^ 32"
  shows "\<exists>s'. sort_list (Some l) (Some (\<lambda>a b. f a \<le> f b)) s = Some (Inr (Some l, s')) \<and>
     list_ok s' l xs \<and> elems (abs_list s' l xs) = sort_key f (elems (abs_list s l xs))"
proof -
  have tc: "total_cmp (\<lambda>a b. f a \<le> f b)" by (auto simp: total_cmp_def)
  from sort_list_run [OF assms(1,2) tc assms(3)] obtain s' where
    r: "sort_list (Some l) (Some (\<lambda>a b. f a \<le> f b)) s = Some (Inr (Some l, s'))" "list_ok s' l xs"
    and m: "mset (elems (abs_list s' l xs)) = mset (elems (abs_list s l xs))"
    and sc: "successively (\<lambda>a b. f a \<le> f b) (elems (abs_list s' l xs))"
    and fl: "\<forall>P. (\<forall>x y. P x \<and> P y \<longrightarrow> f x \<le> f y) \<longrightarrow>
      filter P (elems (abs_list s' l xs)) = filter P (elems (abs_list s l xs))"
    by blast
  have "sorted (map f (elems (abs_list s' l xs)))"
  proof -
    have "transp (\<lambda>a b. f a \<le> f b)" by (rule transpI) (rule order_trans)
    with sc show ?thesis by (simp add: sorted_map successively_conv_sorted_wrt)
  qed
  moreover have "filter (\<lambda>x. f k = f x) (elems (abs_list s' l xs)) =
      filter (\<lambda>x. f k = f x) (elems (abs_list s l xs))" for k
    by (rule fl [rule_format]) (metis order_refl)
  ultimately have "sort_key f (elems (abs_list s l xs)) = elems (abs_list s' l xs)"
    using m by (intro properties_for_sort_key) simp_all
  with r show ?thesis by auto
qed

theorem sort_list_stable_witness:
  "list_ok ex_stable_store 0 [1, 2, 3] \<and>
   (\<exists>s'. sort_list (Some 0) (Some (\<lambda>a b. a div 10 \<le> b div 10)) ex_stable_store = Some (Inr (Some 0, s')) \<and>
      elems (abs_list s' 0 [1, 2, 3]) = [13, 25, 21])"
proof -
  have ok: "list_ok ex_stable_store 0 [1, 2, 3]"
    by (simp add: ex_stable_store_def list_ok_def hdr_ok_def)
  from sort_list_stable [OF ok, of "\<lambda>x :: int. x div 10"] ok show ?thesis
    by (auto simp: ex_stable_store_def abs_list_def items_at_def)
qed

section \<open>sort_list is bubble sort, for every comparator\<close>

lemma sort_round_pass:
  assumes ok: "list_ok s l xs" and ne: "xs \<noteq> []" and len: "length xs < 2 ^ 32"
  obtains L a p h1 where "lists s l = Some L" "first_m L = Some a" "members s a = Some p"
    "sort_pass cmp (Some a) (next_m (the (members s a))) 0 s =
       Some (Inr (of_nat (snd (bubble_pass cmp (items_at (members s) xs))), s\<lparr>members := h1\<rparr>))"
    "items_at h1 xs = fst (bubble_pass cmp (items_at (members s) xs))"
    "list_ok (s\<lparr>members := h1\<rparr>) l xs" "\<forall>b. b \<notin> set xs \<longrightarrow> h1 b = members s b"
    "((of_nat (snd (bubble_pass cmp (items_at (members s) xs))) :: int32) = 0) =
       (snd (bubble_pass cmp (items_at (members s) xs)) = 0)"
proof -
  from ok obtain L where L: "lists s l = Some L" and hL: "hdr_ok (members s) L xs"
    by (auto simp: list_ok_def split: option.splits)
  from ne obtain a as where xs: "xs = a # as" by (cases xs) auto
  from hL xs have F: "first_m L = Some a" and seg: "lseg (members s) (Some a) (a # as) None"
    by (simp_all add: hdr_ok_def)
  from seg obtain p where p: "members s a = Some p" by (auto split: option.splits)
  from sort_pass_run [OF seg, of cmp 0] xs obtain h1 where
    run: "sort_pass cmp (Some a) (next_m (the (members s a))) 0 s =
            Some (Inr (of_nat (snd (bubble_pass cmp (items_at (members s) xs))), s\<lparr>members := h1\<rparr>))"
    and its1: "items_at h1 xs = fst (bubble_pass cmp (items_at (members s) xs))"
    and nx1: "\<forall>b. map_option next_m (h1 b) = map_option next_m (members s b)"
    and out1: "\<forall>b. b \<notin> set xs \<longrightarrow> h1 b = members s b"
    by auto
  have ok1: "list_ok (s\<lparr>members := h1\<rparr>) l xs"
    using L hL hdr_ok_next_cong [OF nx1] by (simp add: list_ok_def)
  have "snd (bubble_pass cmp (items_at (members s) xs)) < 2 ^ 32"
    using bubble_pass_bound [of cmp "items_at (members s) xs"] ne len by auto
  from of_nat_int32_eq_0 [OF this] show thesis
    by (rule that [OF L F p run its1 ok1 out1])
qed

lemma bubble_sort_unfold:
  "bubble_sort cmp xs =
     (if snd (bubble_pass cmp xs) = 0 then Some (fst (bubble_pass cmp xs)) else bubble_sort cmp (fst (bubble_pass cmp xs)))"
  by (subst bubble_sort.simps) (simp split: prod.splits)

lemma sort_rounds_bubble:
  assumes "bubble_sort cmp ws = Some ys"
  shows "\<forall>s. list_ok s l xs \<longrightarrow> xs \<noteq> [] \<longrightarrow> length xs < 2 ^ 32 \<longrightarrow> items_at (members s) xs = ws \<longrightarrow>
     (\<exists>h'. sort_rounds cmp (Some l) s = Some (Inr (s\<lparr>members := h'\<rparr>)) \<and> list_ok (s\<lparr>members := h'\<rparr>) l xs \<and>
        items_at h' xs = ys \<and> (\<forall>b. b \<notin> set xs \<longrightarrow> h' b = members s b))"
proof (rule bubble_sort.raw_induct [where P = "\<lambda>cmp ws ys. \<forall>s. list_ok s l xs \<longrightarrow> xs \<noteq> [] \<longrightarrow>
    length xs < 2 ^ 32 \<longrightarrow> items_at (members s) xs = ws \<longrightarrow>
     (\<exists>h'. sort_rounds cmp (Some l) s = Some (Inr (s\<lparr>members := h'\<rparr>)) \<and> list_ok (s\<lparr>members := h'\<rparr>) l xs \<and>
        items_at h' xs = ys \<and> (\<forall>b. b \<notin> set xs \<longrightarrow> h' b = members s b))", OF _ assms], goal_cases)
  case (1 f cmp ws ys)
  show ?case
  proof (intro allI impI)
    fix s
    assume ok: "list_ok s l xs" and ne: "xs \<noteq> []" and len: "length xs < 2 ^ 32"
      and its: "items_at (members s) xs = ws"
    obtain L a p h1 where L: "lists s l = Some L" "first_m L = Some a" "members s a = Some p"
      and run: "sort_pass cmp (Some a) (next_m (the (members s a))) 0 s =
         Some (Inr (of_nat (snd (bubble_pass cmp ws)), s\<lparr>members := h1\<rparr>))"
      and its1: "items_at h1 xs = fst (bubble_pass cmp ws)"
      and ok1: "list_ok (s\<lparr>members := h1\<rparr>) l xs" and out1: "\<forall>b. b \<notin> set xs \<longrightarrow> h1 b = members s b"
      and z: "((of_nat (snd (bubble_pass cmp ws)) :: int32) = 0) = (snd (bubble_pass cmp ws) = 0)"
      by (rule sort_round_pass [OF ok ne len, of cmp], unfold its)
    have body: "sort_rounds cmp (Some l) s =
        (if snd (bubble_pass cmp ws) \<noteq> 0 then sort_rounds cmp (Some l) (s\<lparr>members := h1\<rparr>)
         else Some (Inr (s\<lparr>members := h1\<rparr>)))"
      using L run z by (simp add: sort_rounds.simps [of cmp "Some l" s])
    show "\<exists>h'. sort_rounds cmp (Some l) s = Some (Inr (s\<lparr>members := h'\<rparr>)) \<and>
        list_ok (s\<lparr>members := h'\<rparr>) l xs \<and> items_at h' xs = ys \<and> (\<forall>b. b \<notin> set xs \<longrightarrow> h' b = members s b)"
    proof (cases "snd (bubble_pass cmp ws) = 0")
      case True
      with "1"(2) have "ys = fst (bubble_pass cmp ws)" by (simp split: prod.splits)
      with True body ok1 its1 out1 show ?thesis by (intro exI [of _ h1]) simp
    next
      case False
      with "1"(2) have "f cmp (fst (bubble_pass cmp ws)) = Some ys" by (simp split: prod.splits)
      from "1"(1) [OF this, rule_format, OF ok1 ne len] its1 obtain h' where
        r: "sort_rounds cmp (Some l) (s\<lparr>members := h1\<rparr>) = Some (Inr (s\<lparr>members := h'\<rparr>))"
          "list_ok (s\<lparr>members := h'\<rparr>) l xs" "items_at h' xs = ys"
        and o: "\<forall>b. b \<notin> set xs \<longrightarrow> h' b = h1 b"
        by auto
      with False body out1 show ?thesis by (intro exI [of _ h']) simp
    qed
  qed
qed

lemma sort_rounds_bubble_back:
  assumes "sort_rounds cmp list s = Some r"
  shows "list = Some l \<longrightarrow> list_ok s l xs \<longrightarrow> xs \<noteq> [] \<longrightarrow> length xs < 2 ^ 32 \<longrightarrow>
     bubble_sort cmp (items_at (members s) xs) \<noteq> None"
proof (rule sort_rounds.raw_induct [where P = "\<lambda>cmp list s r. list = Some l \<longrightarrow> list_ok s l xs \<longrightarrow>
    xs \<noteq> [] \<longrightarrow> length xs < 2 ^ 32 \<longrightarrow> bubble_sort cmp (items_at (members s) xs) \<noteq> None", OF _ assms],
    goal_cases)
  case (1 f cmp list s r)
  show ?case
  proof (intro impI)
    assume lp: "list = Some l" and ok: "list_ok s l xs" and ne: "xs \<noteq> []" and len: "length xs < 2 ^ 32"
    let ?bp = "bubble_pass cmp (items_at (members s) xs)"
    obtain L a p h1 where L: "lists s l = Some L" "first_m L = Some a" "members s a = Some p"
      and run: "sort_pass cmp (Some a) (next_m (the (members s a))) 0 s =
         Some (Inr (of_nat (snd ?bp), s\<lparr>members := h1\<rparr>))"
      and its1: "items_at h1 xs = fst ?bp" and ok1: "list_ok (s\<lparr>members := h1\<rparr>) l xs"
      and z: "((of_nat (snd ?bp) :: int32) = 0) = (snd ?bp = 0)"
      by (rule sort_round_pass [OF ok ne len, of cmp])
    show "bubble_sort cmp (items_at (members s) xs) \<noteq> None"
    proof (cases "snd ?bp = 0")
      case True
      then show ?thesis by (subst bubble_sort_unfold) simp
    next
      case False
      with "1"(2) lp L run z have "f cmp (Some l) (s\<lparr>members := h1\<rparr>) = Some r" by simp
      from "1"(1) [OF this] lp ok1 ne len its1 have "bubble_sort cmp (fst ?bp) \<noteq> None" by simp
      with False show ?thesis by (subst bubble_sort_unfold) simp
    qed
  qed
qed

lemma sort_list_bubble:
  assumes ok: "list_ok s l xs" and ne: "xs \<noteq> []" and len: "length xs < 2 ^ 32"
  shows "case bubble_sort cmp (elems (abs_list s l xs)) of
       None \<Rightarrow> sort_list (Some l) (Some cmp) s = None
     | Some ys \<Rightarrow> (\<exists>s'. sort_list (Some l) (Some cmp) s = Some (Inr (Some l, s')) \<and> list_ok s' l xs \<and>
         abs_list s' l xs = (abs_list s l xs)\<lparr>elems := ys\<rparr> \<and> unchanged_outside s s' (set xs) {} \<and>
         next_free s' = next_free s \<and> avail s' = avail s \<and> destroyed s' = destroyed s)"
proof -
  from ok obtain L where L: "lists s l = Some L" and hL: "hdr_ok (members s) L xs"
    by (auto simp: list_ok_def split: option.splits)
  from hL ne have F: "first_m L \<noteq> None" by (cases xs) (auto simp: hdr_ok_def)
  have sl: "sort_list (Some l) (Some cmp) s =
      Option.bind (sort_rounds cmp (Some l) s) (\<lambda>r. Some (bind_err r (\<lambda>s'. Inr (Some l, s'))))"
    using L F by (auto simp: sort_list_def)
  show ?thesis
  proof (cases "bubble_sort cmp (elems (abs_list s l xs))")
    case None
    have "sort_rounds cmp (Some l) s = None"
    proof (rule ccontr)
      assume "sort_rounds cmp (Some l) s \<noteq> None"
      then obtain r where "sort_rounds cmp (Some l) s = Some r" by blast
      from sort_rounds_bubble_back [where l = l and xs = xs, OF this] ok ne len None show False by (simp add: abs_list_def)
    qed
    with None sl show ?thesis by simp
  next
    case (Some ys)
    then have "bubble_sort cmp (items_at (members s) xs) = Some ys" by (simp add: abs_list_def)
    from sort_rounds_bubble [OF this, rule_format, OF ok ne len refl] obtain h' where
      r: "sort_rounds cmp (Some l) s = Some (Inr (s\<lparr>members := h'\<rparr>))" "list_ok (s\<lparr>members := h'\<rparr>) l xs"
        "items_at h' xs = ys" and o: "\<forall>b. b \<notin> set xs \<longrightarrow> h' b = members s b"
      by blast
    with Some sl show ?thesis
      by (auto simp: abs_list_def unchanged_outside_def)
  qed
qed

text \<open>
  C30. For every comparator, total or not, sort_list on a non-empty
  well-formed list behaves as bubble sort on the list of its items: it
  returns exactly when bubble sort ends, and then leaves the items bubble
  sort computes.
\<close>

theorem sort_list_bubble_sort:
  assumes "list_ok s l xs" and "xs \<noteq> []" and "length xs < 2 ^ 32"
  shows "map_option (map_sum id (\<lambda>(p, s'). (p, elems (abs_list s' l xs)))) (sort_list (Some l) (Some cmp) s) =
     map_option (\<lambda>ys. Inr (Some l, ys)) (bubble_sort cmp (elems (abs_list s l xs)))"
  using sort_list_bubble [OF assms, of cmp] by (auto split: option.splits)

theorem sort_list_bubble_sort_witness:
  "list_ok ex_sort_store 0 [1, 2] \<and>
   map_option (map_sum id (\<lambda>(p, s'). (p, elems (abs_list s' 0 [1, 2])))) (sort_list (Some 0) (Some sort_asc) ex_sort_store) =
     Some (Inr (Some 0, [3, 5]))"
proof -
  have ok: "list_ok ex_sort_store 0 [1, 2]" by (simp add: ex_sort_store_def list_ok_def hdr_ok_def)
  have e: "elems (abs_list ex_sort_store 0 [1, 2]) = [5, 3]" by (simp add: ex_sort_store_def abs_list_def)
  have b: "bubble_sort sort_asc [5, 3] = Some [3, 5]" by code_simp
  from sort_list_bubble_sort [OF ok, of sort_asc] ok e b show ?thesis by simp
qed

end
