(* ===== verification/Remove.thy ===== *)
theory Remove
  imports Iteration
begin

text \<open>
  \<open>remove_from_list\<close> (\<open>src/liblist.c\<close>, lines 208--244): one pass over the
  chain with a trailing pointer \<open>previous\<close> to the last surviving member; a
  matching member is unlinked (from the header's \<open>first\<close> or from
  \<open>previous->next\<close>), its item handed to \<open>delete_item\<close> when one is given, the
  member freed and the count decremented; \<open>last\<close> is set to \<open>previous\<close> when
  the walk reaches NULL. The loop is \<open>remove_loop\<close>. The lemmas give the
  result on a well-formed list with a reset cursor (the survivors in order, the
  count of removed members, one destructor call per removed item), the error
  value -1, and the defect that a cursor left on a removed member dangles.
\<close>

section \<open>Operations\<close>

text \<open>
  One iteration of \<open>while (next)\<close>, lines 220--242, then the loop. The criterion
  is the caller's \<open>int (*criterion)(void *, void *)\<close>, non-zero as \<open>True\<close>.
\<close>

partial_function (option) remove_loop ::
  "('a \<Rightarrow> 'p \<Rightarrow> bool) \<Rightarrow> 'p \<Rightarrow> bool \<Rightarrow> ptr \<Rightarrow> ptr \<Rightarrow> ptr \<Rightarrow> int32 \<Rightarrow> 'a store \<Rightarrow>
   (err + int32 \<times> 'a store) option"
where
  "remove_loop criterion params delete_item list previous next removed_count s =
     (case next of
        None \<Rightarrow> Some (Inr (removed_count, s))
      | Some a \<Rightarrow>
          (case bind_err (get_member s next) (\<lambda>m.
                  if criterion (item m) params then
                    (let s1 = call_delete_item delete_item (item m) s in
                     bind_err (if previous = None
                               then bind_err (get_list s1 list) (\<lambda>L.
                                      Inr (put_list list (L\<lparr>first_m := next_m m\<rparr>) s1))
                               else set_next previous (next_m m) s1) (\<lambda>s2.
                     bind_err (get_list s2 list) (\<lambda>L.
                       Inr (previous, removed_count + 1,
                            put_list list (L\<lparr>total_members := total_members L - 1\<rparr>)
                              (free_member a s2)))))
                  else Inr (next, removed_count, s)) of
             Inl e \<Rightarrow> Some (Inl e)
           | Inr (prev', count', s3) \<Rightarrow>
               (case bind_err (if prev' = None then bind_err (get_list s3 list) (\<lambda>L. Inr (first_m L))
                               else bind_err (get_member s3 prev') (\<lambda>m. Inr (next_m m))) (\<lambda>next'.
                       if next' = None
                       then bind_err (get_list s3 list) (\<lambda>L.
                              Inr (next', put_list list (L\<lparr>last_m := prev'\<rparr>) s3))
                       else Inr (next', s3)) of
                  Inl e \<Rightarrow> Some (Inl e)
                | Inr (next', s4) \<Rightarrow>
                    remove_loop criterion params delete_item list prev' next' count' s4)))"

declare remove_loop.simps [code]

text \<open>
  \<open>remove_from_list\<close>: -1 for a NULL list, a NULL criterion or an empty list
  (checked in this order), otherwise the number of removed members.
\<close>

definition remove_from_list ::
  "ptr \<Rightarrow> ('a \<Rightarrow> 'p \<Rightarrow> bool) option \<Rightarrow> 'p \<Rightarrow> bool \<Rightarrow> 'a store \<Rightarrow> (err + int32 \<times> 'a store) option"
where
  "remove_from_list list criterion params delete_item s =
     (case list of
        None \<Rightarrow> Some (Inr (-1, s))
      | Some _ \<Rightarrow>
          (case criterion of
             None \<Rightarrow> Some (Inr (-1, s))
           | Some c \<Rightarrow>
               (case get_list s list of
                  Inl e \<Rightarrow> Some (Inl e)
                | Inr L \<Rightarrow>
                    if first_m L = None then Some (Inr (-1, s))
                    else remove_loop c params delete_item list None (first_m L) 0 s)))"

text \<open>List 0 of members 1 to 4 (items 5, 3, 8, 1), its cursor reset.\<close>

definition ex_remove_store :: "int store" where
  "ex_remove_store = \<lparr>members = [1 \<mapsto> \<lparr>next_m = Some 2, item = 5\<rparr>, 2 \<mapsto> \<lparr>next_m = Some 3, item = 3\<rparr>,
       3 \<mapsto> \<lparr>next_m = Some 4, item = 8\<rparr>, 4 \<mapsto> \<lparr>next_m = None, item = 1\<rparr>],
     lists = [0 \<mapsto> \<lparr>first_m = Some 1, last_m = Some 4, current_m = None, total_members = 4\<rparr>],
     next_free = 5, avail = 4, destroyed = []\<rparr>"

text \<open>List 0 of members 1 and 2 (items 5 and 3), its cursor on member 1.\<close>

definition ex_cursor_store :: "int store" where
  "ex_cursor_store = \<lparr>members = [1 \<mapsto> \<lparr>next_m = Some 2, item = 5\<rparr>, 2 \<mapsto> \<lparr>next_m = None, item = 3\<rparr>],
     lists = [0 \<mapsto> \<lparr>first_m = Some 1, last_m = Some 2, current_m = Some 1, total_members = 2\<rparr>],
     next_free = 3, avail = 4, destroyed = []\<rparr>"

text \<open>
  The state at the head of the loop: the surviving members \<open>ks\<close> already
  passed, followed by the members \<open>ys\<close> still to visit, form the chain; the
  count covers both; \<open>previous\<close> is the last survivor; once nothing is left,
  \<open>last\<close> has been set.
\<close>

definition rm_inv :: "'a store \<Rightarrow> addr \<Rightarrow> ptr \<Rightarrow> addr list \<Rightarrow> addr list \<Rightarrow> bool" where
  "rm_inv s l prev ks ys =
     (case lists s l of
        None \<Rightarrow> False
      | Some L \<Rightarrow>
          lseg (members s) (first_m L) (ks @ ys) None \<and>
          total_members L = of_nat (length (ks @ ys)) \<and>
          prev = (if ks = [] then None else Some (last ks)) \<and>
          (if ys = [] then last_m L = prev else True))"

section \<open>One iteration of the loop\<close>

lemma lseg_Cons_next:
  assumes "lseg h (Some y) (y # ys) None" and "h y = Some m"
  shows "next_m m = (case ys of [] \<Rightarrow> None | z # _ \<Rightarrow> Some z) \<and> lseg h (next_m m) ys None"
  using assms by (cases ys) (auto split: option.splits)

lemma lseg_split_at:
  "lseg h p (ks @ y # ys) None \<longleftrightarrow>
     (\<exists>m. lseg h p ks (Some y) \<and> h y = Some m \<and> lseg h (next_m m) ys None)"
  by (auto simp: lseg_append split: option.splits)

lemma remove_step:
  fixes crit :: "'a \<Rightarrow> 'p \<Rightarrow> bool" and ps :: 'p
  assumes inv: "rm_inv s l prev ks (y # ys)" and m: "members s y = Some m"
  defines "del_it \<equiv> crit (item m) ps"
  defines "ks' \<equiv> (if del_it then ks else ks @ [y])"
  defines "prev' \<equiv> (if ks' = [] then None else Some (last ks'))"
  shows "\<exists>s4. remove_loop crit ps del (Some l) prev (Some y) cnt s =
            remove_loop crit ps del (Some l) prev' (case ys of [] \<Rightarrow> None | z # _ \<Rightarrow> Some z)
              (if del_it then cnt + 1 else cnt) s4 \<and>
          rm_inv s4 l prev' ks' ys \<and>
          (\<forall>a. a \<notin> insert y (set ks) \<longrightarrow> members s4 a = members s a) \<and>
          (\<forall>a \<in> set ks. map_option item (members s4 a) = map_option item (members s a)) \<and>
          members s4 y = (if del_it then None else members s y) \<and>
          destroyed s4 = destroyed s @ (if del_it \<and> del then [item m] else []) \<and>
          (\<forall>l'. l' \<noteq> l \<longrightarrow> lists s4 l' = lists s l') \<and> next_free s4 = next_free s \<and>
          dom (members s4) \<subseteq> dom (members s) \<and>
          map_option current_m (lists s4 l) = map_option current_m (lists s l) \<and>
          avail s4 = avail s + (if del_it then 1 else 0)"
proof -
  from inv obtain L where L: "lists s l = Some L"
    and chain: "lseg (members s) (first_m L) (ks @ y # ys) None"
    and tot: "total_members L = of_nat (length (ks @ y # ys))"
    and pv: "prev = (if ks = [] then None else Some (last ks))"
    by (auto simp: rm_inv_def split: option.splits)
  have dist: "distinct (ks @ y # ys)" using lseg_distinct [OF chain] .
  from chain m obtain seg1: "lseg (members s) (first_m L) ks (Some y)"
    and rest: "lseg (members s) (next_m m) ys None"
    by (auto simp: lseg_split_at)
  have nm: "next_m m = (case ys of [] \<Rightarrow> None | z # _ \<Rightarrow> Some z)"
    using rest by (cases ys) (auto split: option.splits)
  let ?nx = "case ys of [] \<Rightarrow> None | z # _ \<Rightarrow> Some z"
  show ?thesis
  proof (cases del_it)
    case False
    let ?L4 = "if ys = [] then L\<lparr>last_m := Some y\<rparr> else L"
    let ?s4 = "s\<lparr>lists := (lists s)(l \<mapsto> ?L4)\<rparr>"
    have eq: "remove_loop crit ps del (Some l) prev (Some y) cnt s =
        remove_loop crit ps del (Some l) (Some y) ?nx cnt ?s4"
      using False m L nm unfolding del_it_def
      by (cases ys) (simp_all add: remove_loop.simps [of crit ps del "Some l" prev "Some y"]
          put_list_def lists_upd_same)
    have "rm_inv ?s4 l (Some y) (ks @ [y]) ys"
      using chain tot by (cases ys) (simp_all add: rm_inv_def)
    with eq False L show ?thesis
      by (intro exI [of _ ?s4]) (auto simp: ks'_def prev'_def)
  next
    case True
    let ?s1 = "call_delete_item del (item m) s"
    have s1: "members ?s1 = members s" "lists ?s1 = lists s" "next_free ?s1 = next_free s"
      "avail ?s1 = avail s"
      "destroyed ?s1 = destroyed s @ (if del then [item m] else [])"
      by (simp_all add: call_delete_item_def)
    have yk: "y \<notin> set ks" and yys: "y \<notin> set ys" using dist by auto
    have tot': "total_members L - 1 = of_nat (length (ks @ ys))" using tot by simp
    show ?thesis
    proof (cases "ks = []")
      case True
      with pv have pN: "prev = None" by simp
      from seg1 True have F: "first_m L = Some y" by simp
      let ?L4 = "L\<lparr>first_m := ?nx, total_members := total_members L - 1,
                  last_m := (if ys = [] then None else last_m L)\<rparr>"
      let ?s4 = "?s1\<lparr>members := (members s)(y := None), avail := Suc (avail s),
                       lists := (lists s)(l \<mapsto> ?L4)\<rparr>"
      have eq: "remove_loop crit ps del (Some l) prev (Some y) cnt s =
          remove_loop crit ps del (Some l) None ?nx (cnt + 1) ?s4"
        using \<open>del_it\<close> m L pN nm s1 unfolding del_it_def
        by (cases ys) (simp_all add: remove_loop.simps [of crit ps del "Some l" None "Some y"]
            put_list_def free_member_def Let_def)
      have "lseg ((members s)(y := None)) ?nx ys None"
        using rest yys by (simp add: nm [symmetric])
      then have "rm_inv ?s4 l None [] ys"
        using tot' True by (simp add: rm_inv_def)
      with eq \<open>del_it\<close> True s1 L show ?thesis
        by (intro exI [of _ ?s4]) (auto simp: ks'_def prev'_def)
    next
      case False
      then obtain ks0 k where ks: "ks = ks0 @ [k]" by (cases ks rule: rev_cases) auto
      with pv have pk: "prev = Some k" by simp
      from seg1 ks obtain mk where mk: "members s k = Some mk" "next_m mk = Some y"
        and seg0: "lseg (members s) (first_m L) ks0 (Some k)"
        by (auto simp: lseg_snoc)
      have ky: "k \<noteq> y" and k0: "k \<notin> set ks0" and y0: "y \<notin> set ks0" and kys: "k \<notin> set ys"
        using dist ks by auto
      let ?L4 = "L\<lparr>total_members := total_members L - 1,
                  last_m := (if ys = [] then Some k else last_m L)\<rparr>"
      let ?h4 = "(members s)(k \<mapsto> mk\<lparr>next_m := next_m m\<rparr>, y := None)"
      let ?s4 = "?s1\<lparr>members := ?h4, avail := Suc (avail s), lists := (lists s)(l \<mapsto> ?L4)\<rparr>"
      have eq: "remove_loop crit ps del (Some l) prev (Some y) cnt s =
          remove_loop crit ps del (Some l) (Some k) ?nx (cnt + 1) ?s4"
        using \<open>del_it\<close> m L pk nm s1 mk ky unfolding del_it_def
        by (cases ys) (simp_all add: remove_loop.simps [of crit ps del "Some l" "Some k" "Some y"]
            put_list_def free_member_def set_next_Some Let_def)
      have "lseg ?h4 (first_m L) (ks0 @ k # ys) None"
        using seg0 rest k0 y0 kys yys ky by (auto simp: lseg_split_at)
      then have "rm_inv ?s4 l (Some k) ks ys"
        using tot' ks by (cases ys) (simp_all add: rm_inv_def)
      with eq \<open>del_it\<close> ks s1 L ky mk y0 show ?thesis
        by (intro exI [of _ ?s4]) (auto simp: ks'_def prev'_def)
    qed
  qed
qed

section \<open>The whole loop\<close>

lemma remove_loop_run:
  fixes crit :: "'a \<Rightarrow> 'p \<Rightarrow> bool" and ps :: 'p
  assumes "rm_inv s l prev ks ys"
  defines "keep \<equiv> \<lambda>a. \<not> crit (item (the (members s a))) ps"
  shows "\<exists>s'. remove_loop crit ps del (Some l) prev (case ys of [] \<Rightarrow> None | y # _ \<Rightarrow> Some y) cnt s =
       Some (Inr (cnt + of_nat (length (filter (Not \<circ> keep) ys)), s')) \<and>
     rm_inv s' l (if ks @ filter keep ys = [] then None else Some (last (ks @ filter keep ys)))
       (ks @ filter keep ys) [] \<and>
     (\<forall>a. a \<notin> set ks \<union> set ys \<longrightarrow> members s' a = members s a) \<and>
     (\<forall>a \<in> set ks \<union> set (filter keep ys). map_option item (members s' a) = map_option item (members s a)) \<and>
     (\<forall>a \<in> set ys. \<not> keep a \<longrightarrow> members s' a = None) \<and>
     destroyed s' = destroyed s @ (if del then items_at (members s) (filter (Not \<circ> keep) ys) else []) \<and>
     (\<forall>l'. l' \<noteq> l \<longrightarrow> lists s' l' = lists s l') \<and> next_free s' = next_free s \<and>
     dom (members s') \<subseteq> dom (members s) \<and>
     map_option current_m (lists s' l) = map_option current_m (lists s l) \<and>
     avail s' = avail s + length (filter (Not \<circ> keep) ys)"
  using assms(1) unfolding keep_def
proof (induction ys arbitrary: prev ks s cnt)
  case Nil
  then have "prev = (if ks = [] then None else Some (last ks))"
    by (auto simp: rm_inv_def split: option.splits)
  with Nil show ?case by (cases "ks = []") (simp_all add: remove_loop.simps)
next
  case (Cons y ys)
  from Cons.prems obtain L where "lists s l = Some L" "lseg (members s) (first_m L) (ks @ y # ys) None"
    by (auto simp: rm_inv_def split: option.splits)
  then obtain m where m: "members s y = Some m"
    by (auto simp: lseg_split_at)
  have dist: "distinct (ks @ y # ys)"
    using lseg_distinct \<open>lseg (members s) (first_m L) (ks @ y # ys) None\<close> by blast
  let ?d = "crit (item m) ps"
  let ?ks' = "if ?d then ks else ks @ [y]"
  let ?prev' = "if ?ks' = [] then None else Some (last ?ks')"
  from remove_step [OF Cons.prems m, of crit ps del cnt] obtain s4 where
    eq: "remove_loop crit ps del (Some l) prev (Some y) cnt s =
         remove_loop crit ps del (Some l) ?prev' (case ys of [] \<Rightarrow> None | z # _ \<Rightarrow> Some z)
           (if ?d then cnt + 1 else cnt) s4"
    and inv4: "rm_inv s4 l ?prev' ?ks' ys"
    and out4: "\<forall>a. a \<notin> insert y (set ks) \<longrightarrow> members s4 a = members s a"
    and it4: "\<forall>a \<in> set ks. map_option item (members s4 a) = map_option item (members s a)"
    and y4: "members s4 y = (if ?d then None else members s y)"
    and d4: "destroyed s4 = destroyed s @ (if ?d \<and> del then [item m] else [])"
    and r4: "\<forall>l'. l' \<noteq> l \<longrightarrow> lists s4 l' = lists s l'" "next_free s4 = next_free s"
      "dom (members s4) \<subseteq> dom (members s)"
      "map_option current_m (lists s4 l) = map_option current_m (lists s l)"
    and av4: "avail s4 = avail s + (if ?d then 1 else 0)"
    by blast
  have same: "\<forall>a \<in> set ys. members s4 a = members s a" using out4 dist by auto
  let ?keep = "\<lambda>a. \<not> crit (item (the (members s a))) ps"
  let ?keep4 = "\<lambda>a. \<not> crit (item (the (members s4 a))) ps"
  have fk: "filter ?keep4 ys = filter ?keep ys" "filter (Not \<circ> ?keep4) ys = filter (Not \<circ> ?keep) ys"
    using same by (auto intro: filter_cong)
  have ia: "items_at (members s4) (filter (Not \<circ> ?keep) ys) = items_at (members s) (filter (Not \<circ> ?keep) ys)"
    using same by (intro items_at_cong) auto
  from Cons.IH [OF inv4, of "if ?d then cnt + 1 else cnt"] obtain s' where
    run: "remove_loop crit ps del (Some l) ?prev' (case ys of [] \<Rightarrow> None | z # _ \<Rightarrow> Some z)
            (if ?d then cnt + 1 else cnt) s4 =
          Some (Inr ((if ?d then cnt + 1 else cnt) + of_nat (length (filter (Not \<circ> ?keep4) ys)), s'))"
    and inv': "rm_inv s' l (if ?ks' @ filter ?keep4 ys = [] then None else Some (last (?ks' @ filter ?keep4 ys)))
                 (?ks' @ filter ?keep4 ys) []"
    and out': "\<forall>a. a \<notin> set ?ks' \<union> set ys \<longrightarrow> members s' a = members s4 a"
    and it': "\<forall>a \<in> set ?ks' \<union> set (filter ?keep4 ys). map_option item (members s' a) = map_option item (members s4 a)"
    and rm': "\<forall>a \<in> set ys. \<not> ?keep4 a \<longrightarrow> members s' a = None"
    and d': "destroyed s' = destroyed s4 @ (if del then items_at (members s4) (filter (Not \<circ> ?keep4) ys) else [])"
    and r': "\<forall>l'. l' \<noteq> l \<longrightarrow> lists s' l' = lists s4 l'" "next_free s' = next_free s4"
      "dom (members s') \<subseteq> dom (members s4)"
      "map_option current_m (lists s' l) = map_option current_m (lists s4 l)"
    and av': "avail s' = avail s4 + length (filter (Not \<circ> ?keep4) ys)"
    by blast
  have fy: "filter ?keep (y # ys) = (if ?d then filter ?keep ys else y # filter ?keep ys)"
    and fny: "filter (Not \<circ> ?keep) (y # ys) = (if ?d then y # filter (Not \<circ> ?keep) ys else filter (Not \<circ> ?keep) ys)"
    using m by simp_all
  have kl: "?ks' @ filter ?keep4 ys = ks @ filter ?keep (y # ys)"
    using fk fy by simp
  have c: "(if ?d then cnt + 1 else cnt) + of_nat (length (filter (Not \<circ> ?keep4) ys)) =
           cnt + (of_nat (length (filter (Not \<circ> ?keep) (y # ys))) :: int32)"
    using fk fny by simp
  have yn: "y \<notin> set ks" "y \<notin> set ys" using dist by auto
  have o: "\<forall>a. a \<notin> set ks \<union> set (y # ys) \<longrightarrow> members s' a = members s a"
    using out' out4 by (auto split: if_splits)
  have i: "\<forall>a \<in> set ks \<union> set (filter ?keep (y # ys)).
             map_option item (members s' a) = map_option item (members s a)"
  proof
    fix a
    assume a: "a \<in> set ks \<union> set (filter ?keep (y # ys))"
    show "map_option item (members s' a) = map_option item (members s a)"
    proof (cases "a \<in> set ks \<or> (a = y \<and> \<not> ?d)")
      case True
      then have "a \<in> set ?ks'" by auto
      with it' have "map_option item (members s' a) = map_option item (members s4 a)" by blast
      with True it4 y4 show ?thesis by auto
    next
      case False
      with a fy have "a \<in> set (filter ?keep ys)" by (auto split: if_splits)
      with it' fk same show ?thesis by auto
    qed
  qed
  have r: "\<forall>a \<in> set (y # ys). \<not> ?keep a \<longrightarrow> members s' a = None"
  proof
    fix a
    assume a: "a \<in> set (y # ys)"
    show "\<not> ?keep a \<longrightarrow> members s' a = None"
    proof (cases "a = y")
      case True
      then have "a \<notin> set ?ks' \<union> set ys \<or> \<not> ?d" using yn by auto
      with True out' y4 m show ?thesis by auto
    next
      case False
      with a rm' same show ?thesis by auto
    qed
  qed
  have d: "destroyed s' = destroyed s @ (if del then items_at (members s) (filter (Not \<circ> ?keep) (y # ys)) else [])"
    using d' d4 fk ia fny m by auto
  have L1: "remove_loop crit ps del (Some l) prev (case y # ys of [] \<Rightarrow> None | z # _ \<Rightarrow> Some z) cnt s =
      Some (Inr (cnt + of_nat (length (filter (Not \<circ> ?keep) (y # ys))), s'))"
    using eq run c by simp
  have L2: "rm_inv s' l (if ks @ filter ?keep (y # ys) = [] then None
                         else Some (last (ks @ filter ?keep (y # ys)))) (ks @ filter ?keep (y # ys)) []"
    using inv' by (simp only: kl)
  have L3: "\<forall>l'. l' \<noteq> l \<longrightarrow> lists s' l' = lists s l'" using r'(1) r4(1) by simp
  have L4: "next_free s' = next_free s" using r'(2) r4(2) by simp
  have L5: "dom (members s') \<subseteq> dom (members s)" using r'(3) r4(3) by blast
  have L6: "map_option current_m (lists s' l) = map_option current_m (lists s l)"
    using r'(4) r4(4) by simp
  have L7: "avail s' = avail s + length (filter (Not \<circ> ?keep) (y # ys))"
    using av' av4 fk fny by simp
  show ?case
    using L1 L2 o i r d L3 L4 L5 L6 L7 by (intro exI [of _ s'] conjI) assumption+
qed

section \<open>remove_from_list\<close>

lemma items_at_filter:
  "items_at h (filter (\<lambda>a. P (item (the (h a)))) xs) = filter P (items_at h xs)"
  by (induction xs) auto

lemma remove_from_list_run:
  fixes crit :: "'a \<Rightarrow> 'p \<Rightarrow> bool" and ps :: 'p
  assumes st: "store_ok s" and ok: "list_ok s l xs" and ne: "xs \<noteq> []"
  defines "keep \<equiv> \<lambda>a. \<not> crit (item (the (members s a))) ps"
  shows "\<exists>s'. remove_from_list (Some l) (Some crit) ps del s =
       Some (Inr (of_nat (length (filter (\<lambda>x. crit x ps) (items_at (members s) xs))), s')) \<and>
     store_ok s' \<and>
     rm_inv s' l (if filter keep xs = [] then None else Some (last (filter keep xs))) (filter keep xs) [] \<and>
     items_at (members s') (filter keep xs) = filter (\<lambda>x. \<not> crit x ps) (items_at (members s) xs) \<and>
     (\<forall>a \<in> set xs. \<not> keep a \<longrightarrow> members s' a = None) \<and>
     destroyed s' = destroyed s @ (if del then filter (\<lambda>x. crit x ps) (items_at (members s) xs) else []) \<and>
     unchanged_outside s s' (set xs) {l} \<and>
     map_option current_m (lists s' l) = map_option current_m (lists s l) \<and>
     avail s' = avail s + length (filter (\<lambda>x. crit x ps) (items_at (members s) xs)) \<and>
     next_free s' = next_free s"
proof -
  from ok obtain L where L: "lists s l = Some L" and hL: "hdr_ok (members s) L xs"
    by (auto simp: list_ok_def split: option.splits)
  from hL ne have F: "first_m L = (case xs of [] \<Rightarrow> None | y # _ \<Rightarrow> Some y)"
    by (cases xs) (auto simp: hdr_ok_def)
  with ne have FN: "first_m L \<noteq> None" by (cases xs) auto
  have inv: "rm_inv s l None [] xs"
    using L hL ne by (simp add: rm_inv_def hdr_ok_def)
  from remove_loop_run [OF inv, of crit ps del 0] obtain s' where
    run0: "remove_loop crit ps del (Some l) None (case xs of [] \<Rightarrow> None | y # _ \<Rightarrow> Some y) 0 s =
            Some (Inr (0 + of_nat (length (filter (Not \<circ> keep) xs)), s'))"
    and inv0: "rm_inv s' l (if [] @ filter keep xs = [] then None else Some (last ([] @ filter keep xs)))
                 ([] @ filter keep xs) []"
    and out0: "\<forall>a. a \<notin> set [] \<union> set xs \<longrightarrow> members s' a = members s a"
    and its0: "\<forall>a \<in> set [] \<union> set (filter keep xs). map_option item (members s' a) = map_option item (members s a)"
    and rm: "\<forall>a \<in> set xs. \<not> keep a \<longrightarrow> members s' a = None"
    and d: "destroyed s' = destroyed s @ (if del then items_at (members s) (filter (Not \<circ> keep) xs) else [])"
    and r: "\<forall>l'. l' \<noteq> l \<longrightarrow> lists s' l' = lists s l'" "next_free s' = next_free s"
      "dom (members s') \<subseteq> dom (members s)"
      "map_option current_m (lists s' l) = map_option current_m (lists s l)"
    and av: "avail s' = avail s + length (filter (Not \<circ> keep) xs)"
    unfolding keep_def by blast
  have run: "remove_loop crit ps del (Some l) None (case xs of [] \<Rightarrow> None | y # _ \<Rightarrow> Some y) 0 s =
            Some (Inr (of_nat (length (filter (Not \<circ> keep) xs)), s'))"
    using run0 by simp
  have inv': "rm_inv s' l (if filter keep xs = [] then None else Some (last (filter keep xs)))
                 (filter keep xs) []"
    using inv0 by (cases "filter keep xs = []") simp_all
  have out: "\<forall>a. a \<notin> set xs \<longrightarrow> members s' a = members s a" using out0 by simp
  have its: "\<forall>a \<in> set (filter keep xs). map_option item (members s' a) = map_option item (members s a)"
    using its0 by simp
  have call: "remove_from_list (Some l) (Some crit) ps del s =
      Some (Inr (of_nat (length (filter (Not \<circ> keep) xs)), s'))"
    using L F run ne by (cases xs) (simp_all add: remove_from_list_def)
  have dl: "dom (lists s') \<subseteq> dom (lists s)"
  proof
    fix x
    assume x: "x \<in> dom (lists s')"
    show "x \<in> dom (lists s)"
    proof (cases "x = l")
      case True
      with L show ?thesis by auto
    next
      case False
      with r(1) x show ?thesis by (auto simp: dom_def)
    qed
  qed
  have "store_ok s'"
    by (rule store_ok_step [OF st]) (use r(2,3) dl in auto)
  moreover have "items_at (members s') (filter keep xs) = items_at (members s) (filter keep xs)"
    unfolding items_at_def
  proof (rule map_cong [OF refl])
    fix a
    assume a: "a \<in> set (filter keep xs)"
    then obtain mm where "members s a = Some mm" using list_ok_in_dom [OF ok] by auto
    with its a show "item (the (members s' a)) = item (the (members s a))"
      by (cases "members s' a") auto
  qed
  moreover have "items_at (members s) (filter keep xs) = filter (\<lambda>x. \<not> crit x ps) (items_at (members s) xs)"
    unfolding keep_def by (rule items_at_filter)
  moreover have "items_at (members s) (filter (Not \<circ> keep) xs) = filter (\<lambda>x. crit x ps) (items_at (members s) xs)"
    using items_at_filter [where P = "\<lambda>x. crit x ps" and h = "members s" and xs = xs]
    by (simp add: keep_def comp_def)
  moreover have "length (filter (Not \<circ> keep) xs) = length (filter (\<lambda>x. crit x ps) (items_at (members s) xs))"
    using calculation(4) length_items_at [of "members s" "filter (Not \<circ> keep) xs"] by simp
  ultimately show ?thesis
    using call inv' out rm d r av by (auto simp: unchanged_outside_def)
qed

lemma rm_inv_list_ok:
  assumes "rm_inv s l (if ks = [] then None else Some (last ks)) ks []"
    and "map_option current_m (lists s l) = Some None"
  shows "list_ok s l ks"
  using assms by (auto simp: rm_inv_def list_ok_def hdr_ok_def split: option.splits)

lemma remove_from_list_abs:
  assumes "store_ok s" and "list_ok s l xs" and "xs \<noteq> []" and "pos (abs_list s l xs) = None"
  shows "\<exists>s' ys. remove_from_list (Some l) (Some crit) ps del s =
       Some (Inr (of_nat (length (filter (\<lambda>x. crit x ps) (elems (abs_list s l xs)))), s')) \<and>
     store_ok s' \<and> list_ok s' l ys \<and> set ys \<subseteq> set xs \<and>
     abs_list s' l ys = seq_remove (\<lambda>x. crit x ps) (abs_list s l xs) \<and>
     destroyed s' = destroyed s @ (if del then filter (\<lambda>x. crit x ps) (elems (abs_list s l xs)) else []) \<and>
     unchanged_outside s s' (set xs) {l}"
proof -
  let ?keep = "\<lambda>a. \<not> crit (item (the (members s a))) ps"
  from remove_from_list_run [OF assms(1-3), of crit ps del] obtain s' where
    call: "remove_from_list (Some l) (Some crit) ps del s =
       Some (Inr (of_nat (length (filter (\<lambda>x. crit x ps) (items_at (members s) xs))), s'))"
    and st': "store_ok s'"
    and inv': "rm_inv s' l (if filter ?keep xs = [] then None else Some (last (filter ?keep xs)))
                 (filter ?keep xs) []"
    and its: "items_at (members s') (filter ?keep xs) = filter (\<lambda>x. \<not> crit x ps) (items_at (members s) xs)"
    and d: "destroyed s' = destroyed s @ (if del then filter (\<lambda>x. crit x ps) (items_at (members s) xs) else [])"
    and un: "unchanged_outside s s' (set xs) {l}"
    and cur: "map_option current_m (lists s' l) = map_option current_m (lists s l)"
    by blast
  from assms(2,4) have c0: "map_option current_m (lists s l) = Some None"
    by (auto simp: list_ok_def abs_list_def split: option.splits)
  have ok': "list_ok s' l (filter ?keep xs)"
    using rm_inv_list_ok [OF inv'] cur c0 by simp
  have "abs_list s' l (filter ?keep xs) = seq_remove (\<lambda>x. crit x ps) (abs_list s l xs)"
    using its cur c0 by (auto simp: abs_list_def seq_remove_def split: option.splits)
  with call st' ok' d un show ?thesis
    by (intro exI [of _ s'] exI [of _ "filter ?keep xs"]) (auto simp: abs_list_def)
qed

section \<open>Properties\<close>

text \<open>
  C5. remove_from_list on a non-empty well-formed list with a reset cursor
  returns the number of matching items; the list stays well formed, holding
  the non-matching items in their order (the abstract removal), the
  destructor, when given, is called once per removed item in list order, and
  nothing outside the list and its members changes.
\<close>

theorem remove_from_list_spec:
  assumes "store_ok s" and "list_ok s l xs" and "xs \<noteq> []" and "pos (abs_list s l xs) = None"
  shows "\<exists>s' ys. remove_from_list (Some l) (Some crit) ps del s =
       Some (Inr (of_nat (length (filter (\<lambda>x. crit x ps) (elems (abs_list s l xs)))), s')) \<and>
     store_ok s' \<and> list_ok s' l ys \<and> set ys \<subseteq> set xs \<and>
     abs_list s' l ys = seq_remove (\<lambda>x. crit x ps) (abs_list s l xs) \<and>
     destroyed s' = destroyed s @ (if del then filter (\<lambda>x. crit x ps) (elems (abs_list s l xs)) else []) \<and>
     unchanged_outside s s' (set xs) {l}"
  by (rule remove_from_list_abs [OF assms])

theorem remove_from_list_spec_witness:
  "store_ok ex_remove_store \<and> list_ok ex_remove_store 0 [1, 2, 3, 4] \<and>
   pos (abs_list ex_remove_store 0 [1, 2, 3, 4]) = None \<and>
   (\<exists>s' ys. remove_from_list (Some 0) (Some (<)) 4 True ex_remove_store = Some (Inr (2, s')) \<and>
      list_ok s' 0 ys \<and> elems (abs_list s' 0 ys) = [5, 8] \<and> destroyed s' = [3, 1])"
proof -
  have st: "store_ok ex_remove_store" by (simp add: ex_remove_store_def store_ok_def)
  have ok: "list_ok ex_remove_store 0 [1, 2, 3, 4]"
    by (simp add: ex_remove_store_def list_ok_def hdr_ok_def)
  have p: "pos (abs_list ex_remove_store 0 [1, 2, 3, 4]) = None"
    by (simp add: ex_remove_store_def abs_list_def)
  from remove_from_list_spec [OF st ok _ p, of "(<)" 4 True] obtain s' ys where
    call: "remove_from_list (Some 0) (Some (<)) 4 True ex_remove_store =
       Some (Inr (of_nat (length (filter (\<lambda>x. x < 4) (elems (abs_list ex_remove_store 0 [1, 2, 3, 4])))), s'))"
    and ok': "list_ok s' 0 ys"
    and a: "abs_list s' 0 ys = seq_remove (\<lambda>x. x < 4) (abs_list ex_remove_store 0 [1, 2, 3, 4])"
    and d: "destroyed s' = destroyed ex_remove_store @
       (if True then filter (\<lambda>x. x < 4) (elems (abs_list ex_remove_store 0 [1, 2, 3, 4])) else [])"
    by auto
  have e: "elems (abs_list ex_remove_store 0 [1, 2, 3, 4]) = [5, 3, 8, 1]"
    by (simp add: ex_remove_store_def abs_list_def)
  have "elems (abs_list s' 0 ys) = [5, 8]"
    using a e by (simp add: seq_remove_def)
  moreover have "destroyed s' = [3, 1]"
    using d e by (simp add: ex_remove_store_def)
  moreover have "remove_from_list (Some 0) (Some (<)) 4 True ex_remove_store = Some (Inr (2, s'))"
    using call e by simp
  ultimately show ?thesis
    using st ok p ok' by blast
qed

text \<open>
  C17. remove_from_list returns -1 and changes nothing for a NULL list, a
  NULL criterion, or a well-formed empty list.
\<close>

theorem remove_from_list_invalid:
  assumes "list_ok s l []"
  shows "remove_from_list None crit ps del s = Some (Inr (-1, s)) \<and>
     remove_from_list (Some l) None ps del s = Some (Inr (-1, s)) \<and>
     remove_from_list (Some l) crit ps del s = Some (Inr (-1, s))"
  using assms by (auto simp: remove_from_list_def list_ok_def hdr_ok_Nil split: option.splits)

theorem remove_from_list_invalid_witness:
  "list_ok ex_join_store 2 [] \<and>
   remove_from_list (Some 2) (Some (\<lambda>x p. x = p)) 7 True ex_join_store = Some (Inr (-1, ex_join_store))"
proof -
  have a: "list_ok ex_join_store 2 []"
    by (simp add: ex_join_store_def list_ok_def hdr_ok_def empty_hdr_def)
  from remove_from_list_invalid [OF a, of "Some (\<lambda>x p. x = p)" 7 True] a show ?thesis by simp
qed

text \<open>
  C12. Defect: remove_from_list never moves the iteration cursor. When the
  cursor is on a member that is removed while another member survives, the
  header keeps the address of the freed member, and the next get_next_item
  dereferences it. The spec requires the cursor to be NULL or a member
  reachable from first.
\<close>

theorem remove_from_list_dangling_cursor:
  assumes "store_ok s" and "list_ok s l xs" and "lists s l = Some L" and "current_m L = Some c"
    and "crit (item (the (members s c))) ps" and "\<exists>a \<in> set xs. \<not> crit (item (the (members s a))) ps"
  shows "\<exists>r s'. remove_from_list (Some l) (Some crit) ps del s = Some (Inr (r, s')) \<and>
     members s' c = None \<and> map_option current_m (lists s' l) = Some (Some c) \<and>
     get_next_item (Some l) s' = Inl Dangling_pointer"
proof -
  let ?keep = "\<lambda>a. \<not> crit (item (the (members s a))) ps"
  from assms(2-4) have c: "c \<in> set xs" by (simp add: list_ok_def hdr_ok_def)
  then have ne: "xs \<noteq> []" by auto
  from remove_from_list_run [OF assms(1,2) ne, of crit ps del] obtain s' r where
    call: "remove_from_list (Some l) (Some crit) ps del s = Some (Inr (r, s'))"
    and inv': "rm_inv s' l (if filter ?keep xs = [] then None else Some (last (filter ?keep xs)))
                 (filter ?keep xs) []"
    and rm: "\<forall>a \<in> set xs. \<not> ?keep a \<longrightarrow> members s' a = None"
    and cur: "map_option current_m (lists s' l) = map_option current_m (lists s l)"
    by blast
  have kne: "filter ?keep xs \<noteq> []" using assms(6) by (simp add: filter_empty_conv)
  from inv' kne obtain L' where L': "lists s' l = Some L'"
    and seg: "lseg (members s') (first_m L') (filter ?keep xs) None"
    and la: "last_m L' = Some (last (filter ?keep xs))"
    by (auto simp: rm_inv_def split: option.splits)
  from seg kne have F: "first_m L' \<noteq> None" by (cases "filter ?keep xs") auto
  have cL: "current_m L' = Some c" using cur L' assms(3,4) by simp
  have gone: "members s' c = None" using rm c assms(5) by simp
  have "c \<noteq> last (filter ?keep xs)"
    using last_in_set [OF kne] assms(5) by auto
  with F la cL gone L' have "get_next_item (Some l) s' = Inl Dangling_pointer"
    by (simp add: get_next_item_def)
  with call gone cL L' show ?thesis by auto
qed

theorem remove_from_list_dangling_cursor_witness:
  "\<exists>r s'. remove_from_list (Some 0) (Some (\<lambda>x p. x = p)) 5 True ex_cursor_store = Some (Inr (r, s')) \<and>
     members s' 1 = None \<and> get_next_item (Some 0) s' = Inl Dangling_pointer"
proof -
  have st: "store_ok ex_cursor_store" by (simp add: ex_cursor_store_def store_ok_def)
  have ok: "list_ok ex_cursor_store 0 [1, 2]"
    by (simp add: ex_cursor_store_def list_ok_def hdr_ok_def)
  have L: "lists ex_cursor_store 0 =
      Some \<lparr>first_m = Some 1, last_m = Some 2, current_m = Some 1, total_members = 2\<rparr>"
    by (simp add: ex_cursor_store_def)
  show ?thesis
    using remove_from_list_dangling_cursor [OF st ok L, of 1 "\<lambda>x p. x = p" 5 True]
    by (auto simp: ex_cursor_store_def)
qed

end
