(* ===== verification/Select.thy ===== *)
theory Select
  imports List_Core
begin

text \<open>
  The two operations of \<open>src/liblist.c\<close> that build a new list from an old
  one: \<open>search_in_list\<close> (lines 174--199), which appends a duplicate of every
  item meeting a criterion, and \<open>duplicate_list\<close> (lines 265--291), which
  appends a duplicate (or the item itself) of every item. Both walk the source
  chain with \<open>next = next->next\<close>, ignore the return code of \<open>append_to_list\<close>,
  and free the new header when it ends up empty. The loops are
  \<open>search_loop\<close> and \<open>duplicate_loop\<close>; the lemmas give the result for every
  amount of free memory: the new list holds the selected items up to the
  number of members that could still be allocated.
\<close>

section \<open>Operations\<close>

text \<open>
  The loop of \<open>search_in_list\<close>, lines 186--191. \<open>duplicate_item\<close> returns
  NULL (\<open>None\<close>) when it cannot copy an item; \<open>append_to_list\<close> then returns 1
  and the match is skipped.
\<close>

partial_function (option) search_loop ::
  "('a \<Rightarrow> 'p \<Rightarrow> bool) \<Rightarrow> 'p \<Rightarrow> ('a \<Rightarrow> 'a option) \<Rightarrow> ptr \<Rightarrow> ptr \<Rightarrow> 'a store \<Rightarrow>
   (err + 'a store) option"
where
  "search_loop criterion params duplicate_item new next s =
     (case next of
        None \<Rightarrow> Some (Inr s)
      | Some _ \<Rightarrow>
          (case bind_err (get_member s next) (\<lambda>m.
                  bind_err (if criterion (item m) params
                            then bind_err (append_to_list new (duplicate_item (item m)) s) (\<lambda>(_, s1). Inr s1)
                            else Inr s) (\<lambda>s1.
                  bind_err (get_member s1 next) (\<lambda>m1. Inr (next_m m1, s1)))) of
             Inl e \<Rightarrow> Some (Inl e)
           | Inr (next', s1) \<Rightarrow> search_loop criterion params duplicate_item new next' s1))"

declare search_loop.simps [code]

text \<open>
  \<open>search_in_list\<close>: NULL for a NULL list, a NULL criterion, an empty list or a
  NULL duplicator (checked in this order, so \<open>list->first\<close> is read before the
  duplicator is checked), for a failed \<open>create_list\<close>, and for an empty result,
  whose header is freed.
\<close>

definition search_in_list ::
  "ptr \<Rightarrow> ('a \<Rightarrow> 'p \<Rightarrow> bool) option \<Rightarrow> 'p \<Rightarrow> ('a \<Rightarrow> 'a option) option \<Rightarrow> 'a store \<Rightarrow>
   (err + ptr \<times> 'a store) option"
where
  "search_in_list list criterion params duplicate_item s =
     (case list of
        None \<Rightarrow> Some (Inr (None, s))
      | Some _ \<Rightarrow>
     (case criterion of
        None \<Rightarrow> Some (Inr (None, s))
      | Some c \<Rightarrow>
     (case get_list s list of
        Inl e \<Rightarrow> Some (Inl e)
      | Inr L \<Rightarrow>
     if first_m L = None then Some (Inr (None, s)) else
     (case duplicate_item of
        None \<Rightarrow> Some (Inr (None, s))
      | Some d \<Rightarrow>
     (case create_list s of
        (None, s1) \<Rightarrow> Some (Inr (None, s1))
      | (Some n, s1) \<Rightarrow>
     (case get_list s1 list of
        Inl e \<Rightarrow> Some (Inl e)
      | Inr L1 \<Rightarrow>
     (case search_loop c params d (Some n) (first_m L1) s1 of
        None \<Rightarrow> None
      | Some (Inl e) \<Rightarrow> Some (Inl e)
      | Some (Inr s2) \<Rightarrow>
     (case list_size (Some n) s2 of
        Inl e \<Rightarrow> Some (Inl e)
      | Inr k \<Rightarrow>
     if k = 0 then Some (Inr (None, free_list (Some n) s2)) else Some (Inr (Some n, s2))))))))))"

text \<open>
  The loop of \<open>duplicate_list\<close>, lines 278--287: the duplicate of each item
  when a duplicator is given, otherwise the item pointer itself.
\<close>

partial_function (option) duplicate_loop ::
  "('a \<Rightarrow> 'a option) option \<Rightarrow> ptr \<Rightarrow> ptr \<Rightarrow> 'a store \<Rightarrow> (err + 'a store) option"
where
  "duplicate_loop duplicate_item new next s =
     (case next of
        None \<Rightarrow> Some (Inr s)
      | Some _ \<Rightarrow>
          (case bind_err (get_member s next) (\<lambda>m.
                  bind_err (case duplicate_item of
                              Some d \<Rightarrow> append_to_list new (d (item m)) s
                            | None \<Rightarrow> append_to_list new (Some (item m)) s) (\<lambda>(_, s1).
                  bind_err (get_member s1 next) (\<lambda>m1. Inr (next_m m1, s1)))) of
             Inl e \<Rightarrow> Some (Inl e)
           | Inr (next', s1) \<Rightarrow> duplicate_loop duplicate_item new next' s1))"

declare duplicate_loop.simps [code]

text \<open>
  \<open>duplicate_list\<close>: NULL for a NULL or empty list, for a failed
  \<open>create_list\<close>, and for an empty result, whose header is freed.
\<close>

definition duplicate_list ::
  "ptr \<Rightarrow> ('a \<Rightarrow> 'a option) option \<Rightarrow> 'a store \<Rightarrow> (err + ptr \<times> 'a store) option"
where
  "duplicate_list list duplicate_item s =
     (case list of
        None \<Rightarrow> Some (Inr (None, s))
      | Some _ \<Rightarrow>
     (case get_list s list of
        Inl e \<Rightarrow> Some (Inl e)
      | Inr L \<Rightarrow>
     if first_m L = None then Some (Inr (None, s)) else
     (case create_list s of
        (None, s1) \<Rightarrow> Some (Inr (None, s1))
      | (Some n, s1) \<Rightarrow>
     (case get_list s1 list of
        Inl e \<Rightarrow> Some (Inl e)
      | Inr L1 \<Rightarrow>
     (case duplicate_loop duplicate_item (Some n) (first_m L1) s1 of
        None \<Rightarrow> None
      | Some (Inl e) \<Rightarrow> Some (Inl e)
      | Some (Inr s2) \<Rightarrow>
     (case list_size (Some n) s2 of
        Inl e \<Rightarrow> Some (Inl e)
      | Inr k \<Rightarrow>
     if k = 0 then Some (Inr (None, free_list (Some n) s2)) else Some (Inr (Some n, s2))))))))"

text \<open>List 0 of members 1 to 3 (items 10, 60, 20); room for two more objects.\<close>

definition ex_select_store :: "int store" where
  "ex_select_store = \<lparr>members = [1 \<mapsto> \<lparr>next_m = Some 2, item = 10\<rparr>, 2 \<mapsto> \<lparr>next_m = Some 3, item = 60\<rparr>,
       3 \<mapsto> \<lparr>next_m = None, item = 20\<rparr>],
     lists = [0 \<mapsto> \<lparr>first_m = Some 1, last_m = Some 3, current_m = None, total_members = 3\<rparr>],
     next_free = 4, avail = 2, destroyed = []\<rparr>"

section \<open>One append to the new list\<close>

text \<open>
  \<open>append_to_list\<close> on a well-formed list with a possibly-NULL item, for any
  amount of free memory: the member added (if any), and that nothing but the
  list's own members and fresh addresses changes.
\<close>

lemma append_to_list_opt:
  fixes it :: "'a option"
  assumes st: "store_ok s" and ok: "list_ok s n ys"
  defines "k \<equiv> (if it \<noteq> None \<and> 0 < avail s then [next_free s] else [])"
  shows "\<exists>r s'. append_to_list (Some n) it s = Inr (r, s') \<and> store_ok s' \<and> list_ok s' n (ys @ k) \<and>
     items_at (members s') (ys @ k) =
       items_at (members s) ys @ (if 0 < avail s then (case it of None \<Rightarrow> [] | Some x \<Rightarrow> [x]) else []) \<and>
     unchanged_outside s s' (set ys \<union> {a. next_free s \<le> a}) {n} \<and>
     next_free s \<le> next_free s' \<and> next_free s' = next_free s + length k \<and>
     avail s' = avail s - length k \<and> destroyed s' = destroyed s \<and>
     map_option current_m (lists s' n) = map_option current_m (lists s n)"
proof (cases "it \<noteq> None \<and> 0 < avail s")
  case True
  then obtain x where x: "it = Some x" and av: "0 < avail s" by auto
  from append_to_list_item [OF st ok av, of x] obtain s' where
    "append_to_list (Some n) (Some x) s = Inr (0, s')" "store_ok s'"
    "list_ok s' n (ys @ [next_free s])"
    "members s' (next_free s) = Some \<lparr>next_m = None, item = x\<rparr>"
    "unchanged_outside s s' (insert (next_free s) (set ys)) {n}"
    "items_at (members s') ys = items_at (members s) ys"
    "next_free s' = Suc (next_free s)" "avail s' = avail s - 1" "destroyed s' = destroyed s"
    "map_option current_m (lists s' n) = map_option current_m (lists s n)"
    by blast
  moreover have "unchanged_outside s s' (insert (next_free s) (set ys)) {n} \<Longrightarrow>
      unchanged_outside s s' (set ys \<union> {a. next_free s \<le> a}) {n}" for s'
    by (erule unchanged_outside_mono) auto
  ultimately show ?thesis
    using True x by (intro exI [of _ 0] exI [of _ s']) (simp add: k_def)
next
  case False
  then have "append_to_list (Some n) it s = Inr (if it = None then 1 else 2, s)"
    by (cases it) (auto simp: append_to_list_def calloc_member_def)
  with False st ok show ?thesis
    by (intro exI [of _ "if it = None then 1 else 2"] exI [of _ s])
      (auto simp: k_def unchanged_outside_def split: option.splits)
qed

lemma take_opt_append:
  "(if 0 < a then (case it of None \<Rightarrow> [] | Some x \<Rightarrow> [x]) else []) @
     take (a - length (if it \<noteq> None \<and> 0 < a then [b] else [])) R =
   take a (case it of None \<Rightarrow> R | Some x \<Rightarrow> x # R)"
  by (cases it; cases a) auto

section \<open>One iteration of the copying loops\<close>

text \<open>
  The source chain \<open>z # zs\<close> lies below the bound \<open>N\<close>, the new list's
  members at or above it: an append to the new list leaves the source chain
  and its items alone, and keeps the new list above the bound.
\<close>

lemma copy_step:
  fixes it :: "'a option"
  assumes st: "store_ok s" and ok: "list_ok s n ys" and mz: "members s z = Some m"
    and seg: "lseg (members s) (next_m m) zs None"
    and lo: "\<forall>a \<in> set (z # zs). a < N" and hi: "\<forall>a \<in> set ys. N \<le> a" and N: "N \<le> next_free s"
  shows "\<exists>r s1 ys1. append_to_list (Some n) it s = Inr (r, s1) \<and> members s1 z = Some m \<and>
     store_ok s1 \<and> list_ok s1 n ys1 \<and> lseg (members s1) (next_m m) zs None \<and>
     items_at (members s1) zs = items_at (members s) zs \<and>
     (\<forall>a \<in> set ys1. N \<le> a) \<and> N \<le> next_free s1 \<and> set ys1 \<subseteq> set ys \<union> {a. next_free s \<le> a} \<and>
     items_at (members s1) ys1 =
       items_at (members s) ys @ (if 0 < avail s then (case it of None \<Rightarrow> [] | Some x \<Rightarrow> [x]) else []) \<and>
     avail s1 = avail s - length (if it \<noteq> None \<and> 0 < avail s then [next_free s] else []) \<and>
     avail s1 + length ys1 = avail s + length ys \<and> next_free s1 + length ys = next_free s + length ys1 \<and>
     unchanged_outside s s1 (set ys \<union> {a. next_free s \<le> a}) {n} \<and> next_free s \<le> next_free s1 \<and>
     destroyed s1 = destroyed s \<and> map_option current_m (lists s1 n) = map_option current_m (lists s n)"
proof -
  let ?k = "if it \<noteq> None \<and> 0 < avail s then [next_free s] else []"
  from append_to_list_opt [OF st ok, of it] obtain r s1 where
    app: "append_to_list (Some n) it s = Inr (r, s1)" and st1: "store_ok s1"
    and ok1: "list_ok s1 n (ys @ ?k)"
    and its1: "items_at (members s1) (ys @ ?k) =
       items_at (members s) ys @ (if 0 < avail s then (case it of None \<Rightarrow> [] | Some x \<Rightarrow> [x]) else [])"
    and un: "unchanged_outside s s1 (set ys \<union> {a. next_free s \<le> a}) {n}"
    and rest: "next_free s \<le> next_free s1" "avail s1 = avail s - length ?k" "destroyed s1 = destroyed s"
      "map_option current_m (lists s1 n) = map_option current_m (lists s n)"
    and nf: "next_free s1 = next_free s + length ?k"
    by blast
  have dom: "set (z # zs) \<subseteq> dom (members s)"
    using mz lseg_in_dom [OF seg] by auto
  have same: "\<forall>a \<in> set (z # zs). members s1 a = members s a"
  proof
    fix a
    assume a: "a \<in> set (z # zs)"
    with lo hi have "a \<notin> set ys" by fastforce
    moreover from a dom st have "a < next_free s" by (auto simp: store_ok_def)
    ultimately show "members s1 a = members s a"
      using un by (auto simp: unchanged_outside_def)
  qed
  have "lseg (members s1) (next_m m) zs None"
    using seg lseg_cong [of zs "members s1" "members s" "next_m m" None] same by simp
  moreover have "items_at (members s1) zs = items_at (members s) zs"
    using items_at_cong [of zs "members s1" "members s"] same by simp
  moreover have "\<forall>a \<in> set (ys @ ?k). N \<le> a" using hi N by auto
  moreover have "set (ys @ ?k) \<subseteq> set ys \<union> {a. next_free s \<le> a}" by auto
  moreover have "members s1 z = Some m" using same mz by simp
  moreover have "avail s1 + length (ys @ ?k) = avail s + length ys" using rest(2) by auto
  moreover have "next_free s1 + length ys = next_free s + length (ys @ ?k)" using nf by simp
  ultimately show ?thesis
    using app st1 ok1 its1 un rest N
    by (intro exI [of _ r] exI [of _ s1] exI [of _ "ys @ ?k"]) auto
qed

text \<open>Composing an iteration with the rest of the loop.\<close>

lemma copy_compose:
  assumes "unchanged_outside s s1 (set ys \<union> {a. next_free s \<le> a}) {n}"
    and "unchanged_outside s1 s' (set ys1 \<union> {a. next_free s1 \<le> a}) {n}"
    and "set ys1 \<subseteq> set ys \<union> {a. next_free s \<le> a}" and "next_free s \<le> next_free s1"
  shows "unchanged_outside s s' (set ys \<union> {a. next_free s \<le> a}) {n}"
proof -
  have "unchanged_outside s s' ((set ys \<union> {a. next_free s \<le> a}) \<union> (set ys1 \<union> {a. next_free s1 \<le> a})) ({n} \<union> {n})"
    by (rule unchanged_outside_trans [OF assms(1,2)])
  then show ?thesis
    by (rule unchanged_outside_mono) (use assms(3,4) in auto)
qed

section \<open>The loops\<close>

lemma search_loop_run:
  assumes "store_ok s" and "list_ok s n ys" and "lseg (members s) p zs None"
    and "\<forall>a \<in> set zs. a < N" and "\<forall>a \<in> set ys. N \<le> a" and "N \<le> next_free s"
  shows "\<exists>s' ys'. search_loop c ps d (Some n) p s = Some (Inr s') \<and> store_ok s' \<and> list_ok s' n ys' \<and>
     (\<forall>a \<in> set ys'. N \<le> a) \<and>
     items_at (members s') ys' = items_at (members s) ys @
        take (avail s) (List.map_filter (\<lambda>x. if c x ps then d x else None) (items_at (members s) zs)) \<and>
     unchanged_outside s s' (set ys \<union> {a. next_free s \<le> a}) {n} \<and> next_free s \<le> next_free s' \<and>
     destroyed s' = destroyed s \<and> map_option current_m (lists s' n) = map_option current_m (lists s n) \<and>
     avail s' + length ys' = avail s + length ys \<and> next_free s' + length ys = next_free s + length ys'"
  using assms
proof (induction zs arbitrary: p s ys)
  case Nil
  then show ?case by (auto simp: search_loop.simps unchanged_outside_def)
next
  case (Cons z zs)
  let ?f = "\<lambda>x. if c x ps then d x else None"
  from Cons.prems(3) obtain m where p: "p = Some z" and mz: "members s z = Some m"
    and seg: "lseg (members s) (next_m m) zs None"
    by (auto split: option.splits)
  from copy_step [OF Cons.prems(1,2) mz seg Cons.prems(4,5,6), of "?f (item m)"] obtain r s1 ys1 where
    app: "append_to_list (Some n) (?f (item m)) s = Inr (r, s1)" and mz1: "members s1 z = Some m"
    and st1: "store_ok s1" and ok1: "list_ok s1 n ys1" and seg1: "lseg (members s1) (next_m m) zs None"
    and its: "items_at (members s1) zs = items_at (members s) zs"
    and hi1: "\<forall>a \<in> set ys1. N \<le> a" and N1: "N \<le> next_free s1"
    and sub: "set ys1 \<subseteq> set ys \<union> {a. next_free s \<le> a}"
    and its1: "items_at (members s1) ys1 = items_at (members s) ys @
       (if 0 < avail s then (case ?f (item m) of None \<Rightarrow> [] | Some x \<Rightarrow> [x]) else [])"
    and av1: "avail s1 = avail s - length (if ?f (item m) \<noteq> None \<and> 0 < avail s then [next_free s] else [])"
    and acc1: "avail s1 + length ys1 = avail s + length ys"
    and nf1: "next_free s1 + length ys = next_free s + length ys1"
    and un1: "unchanged_outside s s1 (set ys \<union> {a. next_free s \<le> a}) {n}"
    and rest: "next_free s \<le> next_free s1" "destroyed s1 = destroyed s"
      "map_option current_m (lists s1 n) = map_option current_m (lists s n)"
    by blast
  have body: "(if c (item m) ps then bind_err (append_to_list (Some n) (d (item m)) s) (\<lambda>(_, s1). Inr s1)
               else Inr s) = Inr s1"
    using app by (cases "c (item m) ps") (auto simp: append_to_list_def)
  have step: "search_loop c ps d (Some n) p s = search_loop c ps d (Some n) (next_m m) s1"
    using p mz mz1 body by (simp add: search_loop.simps [of c ps d "Some n" "Some z"])
  from Cons.IH [OF st1 ok1 seg1 _ hi1 N1] Cons.prems(4) obtain s' ys' where
    run: "search_loop c ps d (Some n) (next_m m) s1 = Some (Inr s')" and st': "store_ok s'"
    and ok': "list_ok s' n ys'" and hi': "\<forall>a \<in> set ys'. N \<le> a"
    and its': "items_at (members s') ys' = items_at (members s1) ys1 @
        take (avail s1) (List.map_filter ?f (items_at (members s1) zs))"
    and un': "unchanged_outside s1 s' (set ys1 \<union> {a. next_free s1 \<le> a}) {n}"
    and rest': "next_free s1 \<le> next_free s'" "destroyed s' = destroyed s1"
      "map_option current_m (lists s' n) = map_option current_m (lists s1 n)"
    and acc': "avail s' + length ys' = avail s1 + length ys1"
    and nf': "next_free s' + length ys1 = next_free s1 + length ys'"
    by auto
  have "items_at (members s') ys' = items_at (members s) ys @
        take (avail s) (List.map_filter ?f (items_at (members s) (z # zs)))"
    using its' its1 its av1 mz take_opt_append [of "avail s" "?f (item m)" "next_free s"]
    by (simp split: option.splits)
  with step run st' ok' hi' copy_compose [OF un1 un' sub rest(1)] rest rest' acc1 acc' nf1 nf' show ?case
    by (intro exI [of _ s'] exI [of _ ys']) simp
qed

lemma duplicate_loop_run:
  assumes "store_ok s" and "list_ok s n ys" and "lseg (members s) p zs None"
    and "\<forall>a \<in> set zs. a < N" and "\<forall>a \<in> set ys. N \<le> a" and "N \<le> next_free s"
  shows "\<exists>s' ys'. duplicate_loop dup (Some n) p s = Some (Inr s') \<and> store_ok s' \<and> list_ok s' n ys' \<and>
     (\<forall>a \<in> set ys'. N \<le> a) \<and>
     items_at (members s') ys' = items_at (members s) ys @
        take (avail s) (List.map_filter (\<lambda>x. case dup of Some g \<Rightarrow> g x | None \<Rightarrow> Some x) (items_at (members s) zs)) \<and>
     unchanged_outside s s' (set ys \<union> {a. next_free s \<le> a}) {n} \<and> next_free s \<le> next_free s' \<and>
     destroyed s' = destroyed s \<and> map_option current_m (lists s' n) = map_option current_m (lists s n) \<and>
     avail s' + length ys' = avail s + length ys \<and> next_free s' + length ys = next_free s + length ys'"
  using assms
proof (induction zs arbitrary: p s ys)
  case Nil
  then show ?case by (auto simp: duplicate_loop.simps unchanged_outside_def)
next
  case (Cons z zs)
  let ?f = "\<lambda>x. case dup of Some g \<Rightarrow> g x | None \<Rightarrow> Some x"
  from Cons.prems(3) obtain m where p: "p = Some z" and mz: "members s z = Some m"
    and seg: "lseg (members s) (next_m m) zs None"
    by (auto split: option.splits)
  from copy_step [OF Cons.prems(1,2) mz seg Cons.prems(4,5,6), of "?f (item m)"] obtain r s1 ys1 where
    app: "append_to_list (Some n) (?f (item m)) s = Inr (r, s1)" and mz1: "members s1 z = Some m"
    and st1: "store_ok s1" and ok1: "list_ok s1 n ys1" and seg1: "lseg (members s1) (next_m m) zs None"
    and its: "items_at (members s1) zs = items_at (members s) zs"
    and hi1: "\<forall>a \<in> set ys1. N \<le> a" and N1: "N \<le> next_free s1"
    and sub: "set ys1 \<subseteq> set ys \<union> {a. next_free s \<le> a}"
    and its1: "items_at (members s1) ys1 = items_at (members s) ys @
       (if 0 < avail s then (case ?f (item m) of None \<Rightarrow> [] | Some x \<Rightarrow> [x]) else [])"
    and av1: "avail s1 = avail s - length (if ?f (item m) \<noteq> None \<and> 0 < avail s then [next_free s] else [])"
    and acc1: "avail s1 + length ys1 = avail s + length ys"
    and nf1: "next_free s1 + length ys = next_free s + length ys1"
    and un1: "unchanged_outside s s1 (set ys \<union> {a. next_free s \<le> a}) {n}"
    and rest: "next_free s \<le> next_free s1" "destroyed s1 = destroyed s"
      "map_option current_m (lists s1 n) = map_option current_m (lists s n)"
    by blast
  have body: "(case dup of Some g \<Rightarrow> append_to_list (Some n) (g (item m)) s
               | None \<Rightarrow> append_to_list (Some n) (Some (item m)) s) = Inr (r, s1)"
    using app by (cases dup) auto
  have step: "duplicate_loop dup (Some n) p s = duplicate_loop dup (Some n) (next_m m) s1"
    using p mz mz1 body by (simp add: duplicate_loop.simps [of dup "Some n" "Some z"])
  from Cons.IH [OF st1 ok1 seg1 _ hi1 N1] Cons.prems(4) obtain s' ys' where
    run: "duplicate_loop dup (Some n) (next_m m) s1 = Some (Inr s')" and st': "store_ok s'"
    and ok': "list_ok s' n ys'" and hi': "\<forall>a \<in> set ys'. N \<le> a"
    and its': "items_at (members s') ys' = items_at (members s1) ys1 @
        take (avail s1) (List.map_filter ?f (items_at (members s1) zs))"
    and un': "unchanged_outside s1 s' (set ys1 \<union> {a. next_free s1 \<le> a}) {n}"
    and rest': "next_free s1 \<le> next_free s'" "destroyed s' = destroyed s1"
      "map_option current_m (lists s' n) = map_option current_m (lists s1 n)"
    and acc': "avail s' + length ys' = avail s1 + length ys1"
    and nf': "next_free s' + length ys1 = next_free s1 + length ys'"
    by auto
  have "items_at (members s') ys' = items_at (members s) ys @
        take (avail s) (List.map_filter ?f (items_at (members s) (z # zs)))"
    using its' its1 its av1 mz take_opt_append [of "avail s" "?f (item m)" "next_free s"]
    by (simp split: option.splits)
  with step run st' ok' hi' copy_compose [OF un1 un' sub rest(1)] rest rest' acc1 acc' nf1 nf' show ?case
    by (intro exI [of _ s'] exI [of _ ys']) simp
qed

section \<open>The common tail of search_in_list and duplicate_list\<close>

lemma store_ok_free_list: "store_ok s \<Longrightarrow> store_ok (free_list p s)"
  by (auto simp: store_ok_def free_list_def split: option.splits if_splits)

lemma unchanged_outside_free_list: "unchanged_outside s (free_list (Some n) s) {} {n}"
  by (simp add: unchanged_outside_def free_list_def)

text \<open>
  After \<open>create_list\<close> both operations run a loop over the source chain, read
  the new list's size and free the header when it is 0. Given the loop's
  behaviour (as \<open>search_loop_run\<close> and \<open>duplicate_loop_run\<close> state it, for the
  item function \<open>f\<close>), the result is the list of the first \<open>avail s - 1\<close>
  items of \<open>List.map_filter f\<close> over the source items, or NULL when there are
  none; the bound on the length keeps \<open>total_members\<close> from wrapping to 0.
\<close>

lemma copy_list_tail:
  fixes loop :: "addr \<Rightarrow> ptr \<Rightarrow> 'a store \<Rightarrow> (err + 'a store) option" and f :: "'a \<Rightarrow> 'a option"
  assumes st: "store_ok s" and ok: "list_ok s l xs" and len: "length xs < 2 ^ 32"
    and run: "\<And>s0 n ys p zs N. store_ok s0 \<Longrightarrow> list_ok s0 n ys \<Longrightarrow> lseg (members s0) p zs None \<Longrightarrow>
       \<forall>a \<in> set zs. a < N \<Longrightarrow> \<forall>a \<in> set ys. N \<le> a \<Longrightarrow> N \<le> next_free s0 \<Longrightarrow>
       \<exists>s' ys'. loop n p s0 = Some (Inr s') \<and> store_ok s' \<and> list_ok s' n ys' \<and>
         (\<forall>a \<in> set ys'. N \<le> a) \<and>
         items_at (members s') ys' = items_at (members s0) ys @
           take (avail s0) (List.map_filter f (items_at (members s0) zs)) \<and>
         unchanged_outside s0 s' (set ys \<union> {a. next_free s0 \<le> a}) {n} \<and> next_free s0 \<le> next_free s' \<and>
         destroyed s' = destroyed s0 \<and> map_option current_m (lists s' n) = map_option current_m (lists s0 n) \<and>
         avail s' + length ys' = avail s0 + length ys \<and> next_free s' + length ys = next_free s0 + length ys'"
  defines "sel \<equiv> take (avail s - 1) (List.map_filter f (items_at (members s) xs))"
  shows "\<exists>r s'.
     (case create_list s of
        (None, s1) \<Rightarrow> Some (Inr (None, s1))
      | (Some n, s1) \<Rightarrow>
     (case get_list s1 (Some l) of
        Inl e \<Rightarrow> Some (Inl e)
      | Inr L1 \<Rightarrow>
     (case loop n (first_m L1) s1 of
        None \<Rightarrow> None
      | Some (Inl e) \<Rightarrow> Some (Inl e)
      | Some (Inr s2) \<Rightarrow>
     (case list_size (Some n) s2 of
        Inl e \<Rightarrow> Some (Inl e)
      | Inr k \<Rightarrow>
     if k = 0 then Some (Inr (None, free_list (Some n) s2)) else Some (Inr (Some n, s2)))))) =
       Some (Inr (r, s')) \<and>
     store_ok s' \<and> list_ok s' l xs \<and> abs_list s' l xs = abs_list s l xs \<and>
     unchanged_outside s s' {a. next_free s \<le> a} {a. next_free s \<le> a} \<and> destroyed s' = destroyed s \<and>
     (case r of
        None \<Rightarrow> sel = [] \<and> avail s' = avail s \<and> next_free s' = next_free s + (if avail s = 0 then 0 else 1)
      | Some n \<Rightarrow> n = next_free s \<and> sel \<noteq> [] \<and> (\<exists>ys. list_ok s' n ys \<and> abs_list s' n ys = \<lparr>elems = sel, pos = None\<rparr> \<and>
          (\<forall>a \<in> set ys. next_free s \<le> a) \<and> avail s' + length ys + 1 = avail s \<and>
          next_free s' = next_free s + length ys + 1))"
proof (cases "avail s = 0")
  case True
  then show ?thesis
    using st ok by (intro exI [of _ None] exI [of _ s])
      (simp add: create_list_no_memory sel_def unchanged_outside_def)
next
  case False
  let ?N = "next_free s"
  from ok obtain L where L: "lists s l = Some L" and hL: "hdr_ok (members s) L xs"
    by (auto simp: list_ok_def split: option.splits)
  from create_list_ok [OF st] False obtain s1 where
    cr: "create_list s = (Some ?N, s1)" and st1: "store_ok s1" and ok1: "list_ok s1 ?N []"
    and ab1: "abs_list s1 ?N [] = seq_empty" and un1: "unchanged_outside s s1 {} {?N}"
    and nf1: "next_free s1 = Suc ?N" and av1: "avail s1 = avail s - 1"
    and d1: "destroyed s1 = destroyed s"
    by auto
  have lN: "l < ?N" using L st by (auto simp: store_ok_def)
  have lo: "\<forall>a \<in> set xs. a < ?N"
    using list_ok_in_dom [OF ok] st by (auto simp: store_ok_def)
  have L1: "lists s1 l = Some L" and mem1: "members s1 = members s"
    using un1 L lN by (auto simp: unchanged_outside_def)
  have seg1: "lseg (members s1) (first_m L) xs None"
    using hL mem1 by (simp add: hdr_ok_def)
  from run [OF st1 ok1 seg1 lo] nf1 obtain s2 ys' where
    lp: "loop ?N (first_m L) s1 = Some (Inr s2)" and st2: "store_ok s2" and ok2: "list_ok s2 ?N ys'"
    and its2: "items_at (members s2) ys' = take (avail s1) (List.map_filter f (items_at (members s1) xs))"
    and un2: "unchanged_outside s1 s2 (set [] \<union> {a. next_free s1 \<le> a}) {?N}"
    and d2: "destroyed s2 = destroyed s1"
    and cur2: "map_option current_m (lists s2 ?N) = map_option current_m (lists s1 ?N)"
    and ge2: "\<forall>a \<in> set ys'. ?N \<le> a" and av2: "avail s2 + length ys' = avail s1"
    and nf2: "next_free s2 = next_free s1 + length ys'"
    by auto
  have sel2: "items_at (members s2) ys' = sel"
    using its2 av1 mem1 by (simp add: sel_def)
  have "length ys' \<le> length xs"
    using arg_cong [OF sel2, of length] length_map_filter_le [of f "items_at (members s) xs"]
    by (simp add: sel_def)
  with len have k0: "(of_nat (length ys') :: int32) = 0 \<longleftrightarrow> ys' = []"
    using of_nat_int32_eq_0 [of "length ys'"] by simp
  have un12: "unchanged_outside s s2 {a. ?N \<le> a} {a. ?N \<le> a}"
    by (rule unchanged_outside_mono [OF unchanged_outside_trans [OF un1 un2]]) (auto simp: nf1)
  have tail: "(case get_list s1 (Some l) of
        Inl e \<Rightarrow> Some (Inl e)
      | Inr L1 \<Rightarrow>
     (case loop ?N (first_m L1) s1 of
        None \<Rightarrow> None
      | Some (Inl e) \<Rightarrow> Some (Inl e)
      | Some (Inr s2) \<Rightarrow>
     (case list_size (Some ?N) s2 of
        Inl e \<Rightarrow> Some (Inl e)
      | Inr k \<Rightarrow>
     if k = 0 then Some (Inr (None, free_list (Some ?N) s2)) else Some (Inr (Some ?N, s2))))) =
     Some (Inr (if ys' = [] then (None, free_list (Some ?N) s2) else (Some ?N, s2)))"
    using L1 lp list_size_ok [OF ok2] k0 by simp
  show ?thesis
  proof (cases "ys' = []")
    case True
    let ?s' = "free_list (Some ?N) s2"
    have un: "unchanged_outside s ?s' {a. ?N \<le> a} {a. ?N \<le> a}"
      by (rule unchanged_outside_mono [OF unchanged_outside_trans [OF un12 unchanged_outside_free_list]]) auto
    from list_ok_unchanged [OF ok un] lo lN have "list_ok ?s' l xs \<and> abs_list ?s' l xs = abs_list s l xs"
      by fastforce
    moreover have "destroyed ?s' = destroyed s" using d1 d2 by (simp add: free_list_def)
    moreover have "avail ?s' = avail s" using av1 av2 True False by (simp add: free_list_def)
    moreover have "next_free ?s' = next_free s + 1" using nf1 nf2 True by (simp add: free_list_def)
    ultimately show ?thesis
      using un True cr tail store_ok_free_list [OF st2, of "Some ?N"] sel2 \<open>avail s \<noteq> 0\<close>
      by (intro exI [of _ None] exI [of _ ?s']) simp
  next
    case False
    from list_ok_unchanged [OF ok un12] lo lN have "list_ok s2 l xs \<and> abs_list s2 l xs = abs_list s l xs"
      by fastforce
    moreover have "abs_list s2 ?N ys' = \<lparr>elems = sel, pos = None\<rparr>"
      using sel2 cur2 ab1 ok1 by (auto simp: abs_list_def seq_empty_def list_ok_def hdr_ok_Nil split: option.splits)
    moreover have "avail s2 + length ys' + 1 = avail s" using av1 av2 \<open>avail s \<noteq> 0\<close> by simp
    moreover have "sel \<noteq> []" using sel2 False by (auto simp: items_at_def)
    moreover have "next_free s2 = next_free s + length ys' + 1" using nf1 nf2 by simp
    ultimately show ?thesis
      using False cr tail st2 ok2 un12 d1 d2 ge2
      by (intro exI [of _ "Some ?N"] exI [of _ s2]) auto
  qed
qed

lemma search_in_list_run:
  assumes st: "store_ok s" and ok: "list_ok s l xs" and ne: "xs \<noteq> []" and len: "length xs < 2 ^ 32"
  shows "\<exists>r s'. search_in_list (Some l) (Some c) ps (Some d) s = Some (Inr (r, s')) \<and>
     store_ok s' \<and> list_ok s' l xs \<and> abs_list s' l xs = abs_list s l xs \<and>
     unchanged_outside s s' {a. next_free s \<le> a} {a. next_free s \<le> a} \<and> destroyed s' = destroyed s \<and>
     (case r of
        None \<Rightarrow> take (avail s - 1) (List.map_filter (\<lambda>x. if c x ps then d x else None) (items_at (members s) xs)) = [] \<and> avail s' = avail s \<and>
          next_free s' = next_free s + (if avail s = 0 then 0 else 1)
      | Some n \<Rightarrow> n = next_free s \<and> take (avail s - 1) (List.map_filter (\<lambda>x. if c x ps then d x else None) (items_at (members s) xs)) \<noteq> [] \<and> (\<exists>ys. list_ok s' n ys \<and> abs_list s' n ys = \<lparr>elems = take (avail s - 1) (List.map_filter (\<lambda>x. if c x ps then d x else None) (items_at (members s) xs)), pos = None\<rparr> \<and>
          (\<forall>a \<in> set ys. next_free s \<le> a) \<and> avail s' + length ys + 1 = avail s \<and>
          next_free s' = next_free s + length ys + 1))"
proof -
  from ok ne obtain L y where L: "lists s l = Some L" and F: "first_m L = Some y"
    by (cases xs) (auto simp: list_ok_def hdr_ok_def split: option.splits)
  have eq: "search_in_list (Some l) (Some c) ps (Some d) s =
     (case create_list s of
        (None, s1) \<Rightarrow> Some (Inr (None, s1))
      | (Some n, s1) \<Rightarrow>
     (case get_list s1 (Some l) of
        Inl e \<Rightarrow> Some (Inl e)
      | Inr L1 \<Rightarrow>
     (case search_loop c ps d (Some n) (first_m L1) s1 of
        None \<Rightarrow> None
      | Some (Inl e) \<Rightarrow> Some (Inl e)
      | Some (Inr s2) \<Rightarrow>
     (case list_size (Some n) s2 of
        Inl e \<Rightarrow> Some (Inl e)
      | Inr k \<Rightarrow>
     if k = 0 then Some (Inr (None, free_list (Some n) s2)) else Some (Inr (Some n, s2))))))"
    using L F by (simp add: search_in_list_def)
  show ?thesis
    unfolding eq
    by (rule copy_list_tail [where loop = "\<lambda>n. search_loop c ps d (Some n)"
        and f = "\<lambda>x. if c x ps then d x else None", OF st ok len search_loop_run])
qed

lemma duplicate_list_run:
  assumes st: "store_ok s" and ok: "list_ok s l xs" and ne: "xs \<noteq> []" and len: "length xs < 2 ^ 32"
  shows "\<exists>r s'. duplicate_list (Some l) dup s = Some (Inr (r, s')) \<and>
     store_ok s' \<and> list_ok s' l xs \<and> abs_list s' l xs = abs_list s l xs \<and>
     unchanged_outside s s' {a. next_free s \<le> a} {a. next_free s \<le> a} \<and> destroyed s' = destroyed s \<and>
     (case r of
        None \<Rightarrow> take (avail s - 1) (List.map_filter (\<lambda>x. case dup of Some g \<Rightarrow> g x | None \<Rightarrow> Some x) (items_at (members s) xs)) = [] \<and> avail s' = avail s \<and>
          next_free s' = next_free s + (if avail s = 0 then 0 else 1)
      | Some n \<Rightarrow> n = next_free s \<and> take (avail s - 1) (List.map_filter (\<lambda>x. case dup of Some g \<Rightarrow> g x | None \<Rightarrow> Some x) (items_at (members s) xs)) \<noteq> [] \<and> (\<exists>ys. list_ok s' n ys \<and> abs_list s' n ys = \<lparr>elems = take (avail s - 1) (List.map_filter (\<lambda>x. case dup of Some g \<Rightarrow> g x | None \<Rightarrow> Some x) (items_at (members s) xs)), pos = None\<rparr> \<and>
          (\<forall>a \<in> set ys. next_free s \<le> a) \<and> avail s' + length ys + 1 = avail s \<and>
          next_free s' = next_free s + length ys + 1))"
proof -
  from ok ne obtain L y where L: "lists s l = Some L" and F: "first_m L = Some y"
    by (cases xs) (auto simp: list_ok_def hdr_ok_def split: option.splits)
  have eq: "duplicate_list (Some l) dup s =
     (case create_list s of
        (None, s1) \<Rightarrow> Some (Inr (None, s1))
      | (Some n, s1) \<Rightarrow>
     (case get_list s1 (Some l) of
        Inl e \<Rightarrow> Some (Inl e)
      | Inr L1 \<Rightarrow>
     (case duplicate_loop dup (Some n) (first_m L1) s1 of
        None \<Rightarrow> None
      | Some (Inl e) \<Rightarrow> Some (Inl e)
      | Some (Inr s2) \<Rightarrow>
     (case list_size (Some n) s2 of
        Inl e \<Rightarrow> Some (Inl e)
      | Inr k \<Rightarrow>
     if k = 0 then Some (Inr (None, free_list (Some n) s2)) else Some (Inr (Some n, s2))))))"
    using L F by (simp add: duplicate_list_def)
  show ?thesis
    unfolding eq
    by (rule copy_list_tail [where loop = "\<lambda>n. duplicate_loop dup (Some n)"
        and f = "\<lambda>x. case dup of Some g \<Rightarrow> g x | None \<Rightarrow> Some x", OF st ok len duplicate_loop_run])
qed

lemma take_map_filter_all:
  "length xs < a \<Longrightarrow> take (a - 1) (List.map_filter f (items_at h xs)) = List.map_filter f (items_at h xs)"
  using length_map_filter_le [of f "items_at h xs"] by simp

lemma dup_fun_eq:
  "(\<lambda>x. case dup of Some g \<Rightarrow> g x | None \<Rightarrow> Some x) = (case dup of None \<Rightarrow> Some | Some g \<Rightarrow> g)"
  by (cases dup) auto

lemma map_filter_Some [simp]: "List.map_filter Some xs = xs"
  by (induction xs) auto

section \<open>Properties\<close>

text \<open>
  C6. search_in_list on a non-empty well-formed list, with memory for every
  copy: the result is NULL exactly when no item matches with a successful
  copy, and otherwise a new well-formed list holding the copies of the
  matching items in order (the abstract searchMatching); the source list and
  everything allocated before the call are unchanged.
\<close>

theorem search_in_list_refines:
  assumes "store_ok s" and "list_ok s l xs" and "xs \<noteq> []" and "length xs < 2 ^ 32"
    and "length xs < avail s"
  shows "\<exists>r s'. search_in_list (Some l) (Some c) ps (Some d) s = Some (Inr (r, s')) \<and>
     store_ok s' \<and> list_ok s' l xs \<and> abs_list s' l xs = abs_list s l xs \<and>
     unchanged_outside s s' {a. next_free s \<le> a} {a. next_free s \<le> a} \<and> destroyed s' = destroyed s \<and>
     (case r of
        None \<Rightarrow> elems (seq_search (\<lambda>x. c x ps) d (abs_list s l xs)) = []
      | Some n \<Rightarrow> elems (seq_search (\<lambda>x. c x ps) d (abs_list s l xs)) \<noteq> [] \<and>
          (\<exists>ys. list_ok s' n ys \<and> abs_list s' n ys = seq_search (\<lambda>x. c x ps) d (abs_list s l xs)))"
proof -
  have sel: "take (avail s - 1) (List.map_filter (\<lambda>x. if c x ps then d x else None) (items_at (members s) xs)) =
      elems (seq_search (\<lambda>x. c x ps) d (abs_list s l xs))"
    using take_map_filter_all [OF assms(5)] by (simp add: seq_search_def abs_list_def)
  have rec: "\<lparr>elems = elems (seq_search (\<lambda>x. c x ps) d (abs_list s l xs)), pos = None\<rparr> =
      seq_search (\<lambda>x. c x ps) d (abs_list s l xs)"
    by (simp add: seq_search_def)
  from search_in_list_run [OF assms(1-4), of c ps d] obtain r s' where
    call: "search_in_list (Some l) (Some c) ps (Some d) s = Some (Inr (r, s'))"
    and fr: "store_ok s' \<and> list_ok s' l xs \<and> abs_list s' l xs = abs_list s l xs \<and>
       unchanged_outside s s' {a. next_free s \<le> a} {a. next_free s \<le> a} \<and> destroyed s' = destroyed s"
    and res: "case r of
        None \<Rightarrow> elems (seq_search (\<lambda>x. c x ps) d (abs_list s l xs)) = [] \<and> avail s' = avail s \<and>
          next_free s' = next_free s + (if avail s = 0 then 0 else 1)
      | Some n \<Rightarrow> n = next_free s \<and> elems (seq_search (\<lambda>x. c x ps) d (abs_list s l xs)) \<noteq> [] \<and> (\<exists>ys. list_ok s' n ys \<and>
          abs_list s' n ys = \<lparr>elems = elems (seq_search (\<lambda>x. c x ps) d (abs_list s l xs)), pos = None\<rparr> \<and>
          (\<forall>a \<in> set ys. next_free s \<le> a) \<and> avail s' + length ys + 1 = avail s \<and>
          next_free s' = next_free s + length ys + 1)"
    unfolding sel by blast
  have "case r of
        None \<Rightarrow> elems (seq_search (\<lambda>x. c x ps) d (abs_list s l xs)) = []
      | Some n \<Rightarrow> elems (seq_search (\<lambda>x. c x ps) d (abs_list s l xs)) \<noteq> [] \<and>
          (\<exists>ys. list_ok s' n ys \<and> abs_list s' n ys = seq_search (\<lambda>x. c x ps) d (abs_list s l xs))"
    using res unfolding rec by (cases r) auto
  with call fr show ?thesis by blast
qed

theorem search_in_list_refines_witness:
  "\<exists>s' ys. search_in_list (Some 0) (Some (\<lambda>x p. x < p)) 50 (Some Some) (ex_select_store\<lparr>avail := 4\<rparr>) =
       Some (Inr (Some 4, s')) \<and> list_ok s' 4 ys \<and> elems (abs_list s' 4 ys) = [10, 20]"
proof -
  let ?s = "ex_select_store\<lparr>avail := 4\<rparr>"
  have st: "store_ok ?s" by (simp add: ex_select_store_def store_ok_def)
  have ok: "list_ok ?s 0 [1, 2, 3]" by (simp add: ex_select_store_def list_ok_def hdr_ok_def)
  have e: "elems (abs_list ?s 0 [1, 2, 3]) = [10, 60, 20]"
    by (simp add: ex_select_store_def abs_list_def)
  from search_in_list_refines [OF st ok, of "\<lambda>x p. x < p" 50 Some] obtain r s' where
    call: "search_in_list (Some 0) (Some (\<lambda>x p. x < p)) 50 (Some Some) ?s = Some (Inr (r, s'))"
    and res: "case r of None \<Rightarrow> elems (seq_search (\<lambda>x. x < 50) Some (abs_list ?s 0 [1, 2, 3])) = []
      | Some n \<Rightarrow> elems (seq_search (\<lambda>x. x < 50) Some (abs_list ?s 0 [1, 2, 3])) \<noteq> [] \<and> (\<exists>ys. list_ok s' n ys \<and> abs_list s' n ys = seq_search (\<lambda>x. x < 50) Some (abs_list ?s 0 [1, 2, 3]))"
    by (auto simp: ex_select_store_def)
  have sr: "seq_search (\<lambda>x. x < 50) Some (abs_list ?s 0 [1, 2, 3]) = \<lparr>elems = [10, 20], pos = None\<rparr>"
    using e by (simp add: seq_search_def)
  from res have "r \<noteq> None" unfolding sr by (cases r) simp_all
  then obtain n where n: "r = Some n" by auto
  moreover from search_in_list_run [OF st ok, of "\<lambda>x p. x < p" 50 Some] call n have "n = 4"
    by (auto simp: ex_select_store_def)
  ultimately show ?thesis using call res sr by auto
qed

text \<open>
  C7. duplicate_list on a non-empty well-formed list, with memory for every
  copy: the result is NULL exactly when every copy fails, and otherwise a new
  well-formed list holding the successful copies in order (the items
  themselves without a duplicator), the abstract duplicate; the source list
  and everything allocated before the call are unchanged.
\<close>

theorem duplicate_list_refines:
  assumes "store_ok s" and "list_ok s l xs" and "xs \<noteq> []" and "length xs < 2 ^ 32"
    and "length xs < avail s"
  shows "\<exists>r s'. duplicate_list (Some l) dup s = Some (Inr (r, s')) \<and>
     store_ok s' \<and> list_ok s' l xs \<and> abs_list s' l xs = abs_list s l xs \<and>
     unchanged_outside s s' {a. next_free s \<le> a} {a. next_free s \<le> a} \<and> destroyed s' = destroyed s \<and>
     (case r of
        None \<Rightarrow> elems (seq_duplicate dup (abs_list s l xs)) = []
      | Some n \<Rightarrow> elems (seq_duplicate dup (abs_list s l xs)) \<noteq> [] \<and>
          (\<exists>ys. list_ok s' n ys \<and> abs_list s' n ys = seq_duplicate dup (abs_list s l xs)))"
proof -
  have sel: "take (avail s - 1) (List.map_filter (\<lambda>x. case dup of Some g \<Rightarrow> g x | None \<Rightarrow> Some x)
        (items_at (members s) xs)) = elems (seq_duplicate dup (abs_list s l xs))"
    using take_map_filter_all [OF assms(5)] by (simp add: seq_duplicate_def abs_list_def dup_fun_eq)
  have rec: "\<lparr>elems = elems (seq_duplicate dup (abs_list s l xs)), pos = None\<rparr> =
      seq_duplicate dup (abs_list s l xs)"
    by (simp add: seq_duplicate_def)
  from duplicate_list_run [OF assms(1-4), of dup] obtain r s' where
    call: "duplicate_list (Some l) dup s = Some (Inr (r, s'))"
    and fr: "store_ok s' \<and> list_ok s' l xs \<and> abs_list s' l xs = abs_list s l xs \<and>
       unchanged_outside s s' {a. next_free s \<le> a} {a. next_free s \<le> a} \<and> destroyed s' = destroyed s"
    and res: "case r of
        None \<Rightarrow> elems (seq_duplicate dup (abs_list s l xs)) = [] \<and> avail s' = avail s \<and>
          next_free s' = next_free s + (if avail s = 0 then 0 else 1)
      | Some n \<Rightarrow> n = next_free s \<and> elems (seq_duplicate dup (abs_list s l xs)) \<noteq> [] \<and> (\<exists>ys. list_ok s' n ys \<and>
          abs_list s' n ys = \<lparr>elems = elems (seq_duplicate dup (abs_list s l xs)), pos = None\<rparr> \<and>
          (\<forall>a \<in> set ys. next_free s \<le> a) \<and> avail s' + length ys + 1 = avail s \<and>
          next_free s' = next_free s + length ys + 1)"
    unfolding sel by blast
  have "case r of
        None \<Rightarrow> elems (seq_duplicate dup (abs_list s l xs)) = []
      | Some n \<Rightarrow> elems (seq_duplicate dup (abs_list s l xs)) \<noteq> [] \<and>
          (\<exists>ys. list_ok s' n ys \<and> abs_list s' n ys = seq_duplicate dup (abs_list s l xs))"
    using res unfolding rec by (cases r) auto
  with call fr show ?thesis by blast
qed

theorem duplicate_list_refines_witness:
  "\<exists>s' ys. duplicate_list (Some 0) None (ex_select_store\<lparr>avail := 4\<rparr>) = Some (Inr (Some 4, s')) \<and>
     list_ok s' 4 ys \<and> elems (abs_list s' 4 ys) = [10, 60, 20]"
proof -
  let ?s = "ex_select_store\<lparr>avail := 4\<rparr>"
  have st: "store_ok ?s" by (simp add: ex_select_store_def store_ok_def)
  have ok: "list_ok ?s 0 [1, 2, 3]" by (simp add: ex_select_store_def list_ok_def hdr_ok_def)
  have e: "seq_duplicate None (abs_list ?s 0 [1, 2, 3]) = \<lparr>elems = [10, 60, 20], pos = None\<rparr>"
    by (simp add: ex_select_store_def abs_list_def seq_duplicate_def)
  from duplicate_list_refines [OF st ok, of None] obtain r s' where
    call: "duplicate_list (Some 0) None ?s = Some (Inr (r, s'))"
    and res: "case r of None \<Rightarrow> elems (seq_duplicate None (abs_list ?s 0 [1, 2, 3])) = []
      | Some n \<Rightarrow> elems (seq_duplicate None (abs_list ?s 0 [1, 2, 3])) \<noteq> [] \<and> (\<exists>ys. list_ok s' n ys \<and> abs_list s' n ys = seq_duplicate None (abs_list ?s 0 [1, 2, 3]))"
    by (auto simp: ex_select_store_def)
  from res have "r \<noteq> None" unfolding e by (cases r) simp_all
  then obtain n where n: "r = Some n" by auto
  moreover from duplicate_list_run [OF st ok, of None] call n have "n = 4"
    by (auto simp: ex_select_store_def)
  ultimately show ?thesis using call res e by auto
qed

text \<open>
  C14. When memory runs out part-way, duplicate_list reports success with a
  shorter list: with room for the header and only \<open>k\<close> members, the copy of a
  longer list holds its first \<open>k\<close> items. The return code 2 of
  append_to_list is ignored; the spec allows a partial result only when the
  duplicator fails.
\<close>

theorem duplicate_list_out_of_memory:
  assumes "store_ok s" and "list_ok s l xs" and "length xs < 2 ^ 32"
    and "1 < avail s" and "avail s \<le> length xs"
  shows "\<exists>n s' ys. duplicate_list (Some l) None s = Some (Inr (Some n, s')) \<and> list_ok s' n ys \<and>
     elems (abs_list s' n ys) = take (avail s - 1) (elems (abs_list s l xs)) \<and> length ys < length xs"
proof -
  have ne: "xs \<noteq> []" using assms(4,5) by auto
  let ?sel = "take (avail s - 1) (items_at (members s) xs)"
  have mf: "List.map_filter (\<lambda>x. case None of Some g \<Rightarrow> g x | None \<Rightarrow> Some x) ys = ys" for ys :: "'a list"
    by simp
  from duplicate_list_run [OF assms(1,2) ne assms(3), of None] obtain r s' where
    call: "duplicate_list (Some l) None s = Some (Inr (r, s'))"
    and res: "case r of None \<Rightarrow> ?sel = [] \<and> avail s' = avail s \<and>
          next_free s' = next_free s + (if avail s = 0 then 0 else 1)
      | Some n \<Rightarrow> n = next_free s \<and> ?sel \<noteq> [] \<and> (\<exists>ys. list_ok s' n ys \<and> abs_list s' n ys = \<lparr>elems = ?sel, pos = None\<rparr> \<and>
          (\<forall>a \<in> set ys. next_free s \<le> a) \<and> avail s' + length ys + 1 = avail s \<and>
          next_free s' = next_free s + length ys + 1)"
    unfolding mf by blast
  have "?sel \<noteq> []" using assms(4) ne by (simp add: items_at_def)
  with res obtain n ys where "r = Some n" "list_ok s' n ys" "abs_list s' n ys = \<lparr>elems = ?sel, pos = None\<rparr>"
    by (cases r) auto
  moreover have "length ?sel < length xs" using assms(4,5) by simp
  moreover have "length ys = length ?sel"
    using arg_cong [OF calculation(3), of "\<lambda>S. length (elems S)"] by (simp add: abs_list_def)
  ultimately show ?thesis
    using call by (intro exI [of _ n] exI [of _ s'] exI [of _ ys]) (simp add: abs_list_def)
qed

theorem duplicate_list_out_of_memory_witness:
  "\<exists>n s' ys. duplicate_list (Some 0) None ex_select_store = Some (Inr (Some n, s')) \<and>
     list_ok s' n ys \<and> elems (abs_list s' n ys) = [10] \<and> length ys < 3"
proof -
  have st: "store_ok ex_select_store" by (simp add: ex_select_store_def store_ok_def)
  have ok: "list_ok ex_select_store 0 [1, 2, 3]" by (simp add: ex_select_store_def list_ok_def hdr_ok_def)
  have e: "take (avail ex_select_store - 1) (elems (abs_list ex_select_store 0 [1, 2, 3])) = [10]"
    by (simp add: ex_select_store_def abs_list_def)
  have "\<exists>n s' ys. duplicate_list (Some 0) None ex_select_store = Some (Inr (Some n, s')) \<and>
     list_ok s' n ys \<and>
     elems (abs_list s' n ys) = take (avail ex_select_store - 1) (elems (abs_list ex_select_store 0 [1, 2, 3])) \<and>
     length ys < length [1, 2, 3 :: nat]"
    by (rule duplicate_list_out_of_memory [OF st ok]) (simp_all add: ex_select_store_def)
  then show ?thesis unfolding e by (simp add: eval_nat_numeral)
qed

text \<open>
  C19. search_in_list and duplicate_list return NULL without changing the
  store for a NULL list, a NULL criterion, an empty list, or (for
  search_in_list, on any list) a NULL duplicator.
\<close>

theorem copy_null_cases:
  assumes "list_ok s l []" and "lists s k = Some K"
  shows "search_in_list None c ps d s = Some (Inr (None, s)) \<and>
     search_in_list (Some l) None ps d s = Some (Inr (None, s)) \<and>
     search_in_list (Some l) c ps d s = Some (Inr (None, s)) \<and>
     search_in_list (Some k) c ps None s = Some (Inr (None, s)) \<and>
     duplicate_list None dup s = Some (Inr (None, s)) \<and>
     duplicate_list (Some l) dup s = Some (Inr (None, s))"
  using assms
  by (auto simp: search_in_list_def duplicate_list_def list_ok_def hdr_ok_Nil split: option.splits)

theorem copy_null_cases_witness:
  "search_in_list (Some 2) (Some (\<lambda>x p. x = p)) 7 (Some Some) ex_join_store = Some (Inr (None, ex_join_store)) \<and>
   search_in_list (Some 0) (Some (\<lambda>x p. x = p)) 7 None ex_join_store = Some (Inr (None, ex_join_store)) \<and>
   duplicate_list (Some 2) None ex_join_store = Some (Inr (None, ex_join_store))"
proof -
  have a: "list_ok ex_join_store 2 []"
    by (simp add: ex_join_store_def list_ok_def hdr_ok_def empty_hdr_def)
  have b: "lists ex_join_store 0 = Some \<lparr>first_m = Some 1, last_m = Some 1, current_m = None, total_members = 1\<rparr>"
    by (simp add: ex_join_store_def)
  from copy_null_cases [OF a b, of "Some (\<lambda>x p. x = p)" 7 "Some Some" None] show ?thesis by simp
qed

end
