(* ===== verification/Delete.thy ===== *)
theory Delete
  imports List_Core
begin

text \<open>
  \<open>delete_list\<close> (\<open>src/liblist.c\<close>, lines 101--122): walk the chain, reading
  each member's successor before handing its item to the destructor (when one
  is given) and freeing the member, then free the header. The loop is
  \<open>delete_loop\<close>. The lemmas give its effect on a well-formed list: every
  member and the header released, one destructor call per item in list order,
  nothing else touched.
\<close>

section \<open>Operations\<close>

text \<open>The \<open>while (next != NULL)\<close> loop, lines 111--118.\<close>

partial_function (option) delete_loop :: "bool \<Rightarrow> ptr \<Rightarrow> 'a store \<Rightarrow> (err + 'a store) option" where
  "delete_loop delete_item next s =
     (case next of
        None \<Rightarrow> Some (Inr s)
      | Some aux \<Rightarrow>
          (case get_member s next of
             Inl e \<Rightarrow> Some (Inl e)
           | Inr m \<Rightarrow> delete_loop delete_item (next_m m)
                        (free_member aux (call_delete_item delete_item (item m) s))))"

declare delete_loop.simps [code]

text \<open>\<open>delete_list\<close>: nothing for a NULL list; the header is freed last.\<close>

definition delete_list :: "ptr \<Rightarrow> bool \<Rightarrow> 'a store \<Rightarrow> (err + 'a store) option" where
  "delete_list list delete_item s =
     (case list of
        None \<Rightarrow> Some (Inr s)
      | Some _ \<Rightarrow>
          (case get_list s list of
             Inl e \<Rightarrow> Some (Inl e)
           | Inr L \<Rightarrow>
               (case delete_loop delete_item (first_m L) s of
                  None \<Rightarrow> None
                | Some (Inl e) \<Rightarrow> Some (Inl e)
                | Some (Inr s1) \<Rightarrow> Some (Inr (free_list list s1)))))"

section \<open>The loop\<close>

lemma delete_loop_run:
  assumes "lseg (members s) p zs None"
  shows "\<exists>s'. delete_loop del p s = Some (Inr s') \<and>
     members s' = (\<lambda>a. if a \<in> set zs then None else members s a) \<and>
     lists s' = lists s \<and> next_free s' = next_free s \<and> avail s' = avail s + length zs \<and>
     destroyed s' = destroyed s @ (if del then items_at (members s) zs else [])"
  using assms
proof (induction zs arbitrary: p s)
  case Nil
  then show ?case by (simp add: delete_loop.simps)
next
  case (Cons z zs)
  from Cons.prems obtain m where p: "p = Some z" and mz: "members s z = Some m"
    and seg: "lseg (members s) (next_m m) zs None"
    by (auto split: option.splits)
  let ?s1 = "free_member z (call_delete_item del (item m) s)"
  have nz: "z \<notin> set zs" by (rule lseg_hd_not_in_tl [OF mz seg])
  have mem1: "members ?s1 = (members s)(z := None)"
    by (simp add: free_member_def call_delete_item_def)
  have seg1: "lseg (members ?s1) (next_m m) zs None"
    using seg nz by (simp add: mem1)
  have its: "items_at (members ?s1) zs = items_at (members s) zs"
    using nz by (simp add: mem1 items_at_def)
  have dst1: "destroyed ?s1 = destroyed s @ (if del then [item m] else [])"
    by (simp add: free_member_def call_delete_item_def)
  have step: "delete_loop del p s = delete_loop del (next_m m) ?s1"
    using p mz by (simp add: delete_loop.simps [of del "Some z"])
  from Cons.IH [OF seg1] obtain s' where
    run: "delete_loop del (next_m m) ?s1 = Some (Inr s')"
    and m': "members s' = (\<lambda>a. if a \<in> set zs then None else members ?s1 a)"
    and r': "lists s' = lists ?s1" "next_free s' = next_free ?s1" "avail s' = avail ?s1 + length zs"
      "destroyed s' = destroyed ?s1 @ (if del then items_at (members ?s1) zs else [])"
    by blast
  have "members s' = (\<lambda>a. if a \<in> set (z # zs) then None else members s a)"
    using m' mem1 by auto
  moreover have "destroyed s' = destroyed s @ (if del then items_at (members s) (z # zs) else [])"
    using r'(4) its dst1 mz by (cases del) simp_all
  ultimately show ?case
    using step run r' by (simp add: free_member_def call_delete_item_def)
qed

section \<open>Properties\<close>

lemma delete_list_run:
  assumes st: "store_ok s" and ok: "list_ok s l xs"
  shows "\<exists>s'. delete_list (Some l) del s = Some (Inr s') \<and> store_ok s' \<and> lists s' l = None \<and>
     (\<forall>a \<in> set xs. members s' a = None) \<and>
     destroyed s' = destroyed s @ (if del then items_at (members s) xs else []) \<and>
     unchanged_outside s s' (set xs) {l} \<and> avail s' = avail s + length xs + 1 \<and>
     next_free s' = next_free s"
proof -
  from ok obtain L where L: "lists s l = Some L" and seg: "lseg (members s) (first_m L) xs None"
    by (auto simp: list_ok_def hdr_ok_def split: option.splits)
  from delete_loop_run [OF seg, of del] obtain s1 where
    run: "delete_loop del (first_m L) s = Some (Inr s1)"
    and m1: "members s1 = (\<lambda>a. if a \<in> set xs then None else members s a)"
    and r1: "lists s1 = lists s" "next_free s1 = next_free s" "avail s1 = avail s + length xs"
      "destroyed s1 = destroyed s @ (if del then items_at (members s) xs else [])"
    by blast
  let ?s' = "free_list (Some l) s1"
  have call: "delete_list (Some l) del s = Some (Inr ?s')"
    using L run by (simp add: delete_list_def)
  have "store_ok ?s'"
    by (rule store_ok_step [OF st]) (use m1 r1 in \<open>auto simp: free_list_def dom_def\<close>)
  moreover have "unchanged_outside s ?s' (set xs) {l}"
    using m1 r1 by (simp add: unchanged_outside_def free_list_def)
  ultimately show ?thesis
    using call m1 r1 by (simp add: free_list_def)
qed

text \<open>
  C8. delete_list on a well-formed list returns, having released every
  member and the header (the allocator gets back one object per member plus
  one), called the destructor, when given, once on each item in list order,
  and touched nothing else; a second delete_list on the same pointer then
  reads the freed header.
\<close>

theorem delete_list_spec:
  assumes "store_ok s" and "list_ok s l xs"
  shows "\<exists>s'. delete_list (Some l) del s = Some (Inr s') \<and> store_ok s' \<and> lists s' l = None \<and>
     (\<forall>a \<in> set xs. members s' a = None) \<and>
     destroyed s' = destroyed s @ (if del then elems (abs_list s l xs) else []) \<and>
     unchanged_outside s s' (set xs) {l} \<and> avail s' = avail s + length xs + 1 \<and>
     delete_list (Some l) del s' = Some (Inl Dangling_pointer)"
  using delete_list_run [OF assms, of del] by (auto simp: abs_list_def delete_list_def)

theorem delete_list_spec_witness:
  "\<exists>s'. delete_list (Some 0) True ex_join_store = Some (Inr s') \<and> lists s' 0 = None \<and>
     members s' 1 = None \<and> destroyed s' = [7] \<and> avail s' = 6"
proof -
  have st: "store_ok ex_join_store" by (simp add: ex_join_store_def store_ok_def empty_hdr_def)
  have ok: "list_ok ex_join_store 0 [1]" by (simp add: ex_join_store_def list_ok_def hdr_ok_def)
  from delete_list_spec [OF st ok, of True] show ?thesis
    by (auto simp: ex_join_store_def abs_list_def)
qed

end
