(* ===== verification/Alloc.thy ===== *)
theory Alloc
  imports Iteration Sort Remove Select Delete
begin

text \<open>
  What every operation of the library does to memory, on any store and with
  any arguments, whenever it returns: a sequence of primitive memory steps
  (\<open>mem_step\<close>): allocating an object, writing a field of an allocated
  object, calling the destructor, and releasing an allocated object. Each
  pointer-following loop is such a sequence by fixpoint induction over its
  \<open>partial_function\<close> definition (\<open>raw_induct\<close>). Two invariants follow by
  rule induction over the steps: the allocator's discipline
  \<open>Store.store_ok\<close> (every allocated object lies below the frontier), and the
  conservation of \<open>capacity\<close> (free cells plus allocated objects), which
  says that no operation releases an object that is not allocated and that
  every allocation takes a free cell. Nothing here assumes a well-formed list.
\<close>

section \<open>Memory steps\<close>

inductive mem_step :: "'a store \<Rightarrow> 'a store \<Rightarrow> bool" where
  alloc_member: "calloc_member x s = Some (n, s') \<Longrightarrow> mem_step s s'"
| alloc_list: "calloc_list s = Some (n, s') \<Longrightarrow> mem_step s s'"
| write_member: "members s a \<noteq> None \<Longrightarrow> mem_step s (s\<lparr>members := (members s)(a \<mapsto> m)\<rparr>)"
| write_list: "lists s a \<noteq> None \<Longrightarrow> mem_step s (s\<lparr>lists := (lists s)(a \<mapsto> L)\<rparr>)"
| destroy: "mem_step s (s\<lparr>destroyed := destroyed s @ [x]\<rparr>)"
| release_member: "members s a \<noteq> None \<Longrightarrow> mem_step s (free_member a s)"
| release_list: "lists s a \<noteq> None \<Longrightarrow> mem_step s (free_list (Some a) s)"

abbreviation mem_steps :: "'a store \<Rightarrow> 'a store \<Rightarrow> bool" where
  "mem_steps \<equiv> mem_step\<^sup>*\<^sup>*"

text \<open>Free cells of the allocator plus allocated members and headers.\<close>

definition capacity :: "'a store \<Rightarrow> nat" where
  "capacity s = avail s + card (dom (members s)) + card (dom (lists s))"

section \<open>The invariants of a memory step\<close>

lemma store_ok_finite:
  assumes "store_ok s"
  shows "finite (dom (members s))" and "finite (dom (lists s))"
  by (rule finite_subset [of _ "{..<next_free s}"], use assms in \<open>auto simp: store_ok_def\<close>)+

lemma mem_step_store_ok:
  "mem_step s s' \<Longrightarrow> store_ok s \<Longrightarrow> store_ok s'"
proof (induction rule: mem_step.induct)
  case (alloc_member x s n s')
  then show ?case
    by (elim store_ok_step) (auto simp: calloc_member_def split: if_splits)
next
  case (alloc_list s n s')
  then show ?case
    by (elim store_ok_step) (auto simp: calloc_list_def split: if_splits)
qed (auto simp: store_ok_def free_member_def free_list_def)

lemma mem_step_capacity:
  "mem_step s s' \<Longrightarrow> store_ok s \<Longrightarrow> capacity s' = capacity s"
proof (induction rule: mem_step.induct)
  case (alloc_member x s n s')
  then have "next_free s \<notin> dom (members s)" "0 < avail s"
    and s': "s' = s\<lparr>members := (members s)(next_free s \<mapsto> \<lparr>next_m = None, item = x\<rparr>),
          next_free := Suc (next_free s), avail := avail s - 1\<rparr>"
    by (auto simp: store_ok_def calloc_member_def split: if_splits)
  with store_ok_finite [OF alloc_member.prems] show ?case by (simp add: capacity_def)
next
  case (alloc_list s n s')
  then have "next_free s \<notin> dom (lists s)" "0 < avail s"
    and s': "s' = s\<lparr>lists := (lists s)(next_free s \<mapsto> empty_hdr),
          next_free := Suc (next_free s), avail := avail s - 1\<rparr>"
    by (auto simp: store_ok_def calloc_list_def split: if_splits)
  with store_ok_finite [OF alloc_list.prems] show ?case by (simp add: capacity_def)
next
  case (write_member s a m)
  then have "insert a (dom (members s)) = dom (members s)" by auto
  then show ?case by (simp add: capacity_def)
next
  case (write_list s a L)
  then have "insert a (dom (lists s)) = dom (lists s)" by auto
  then show ?case by (simp add: capacity_def)
next
  case (destroy s x)
  then show ?case by (simp add: capacity_def)
next
  case (release_member s a)
  then have "a \<in> dom (members s)" by auto
  with store_ok_finite [OF release_member.prems] show ?case
    by (simp add: capacity_def free_member_def card_Suc_Diff1 [symmetric] del: card_Diff_insert)
next
  case (release_list s a)
  then have "a \<in> dom (lists s)" by auto
  with store_ok_finite [OF release_list.prems] show ?case
    by (simp add: capacity_def free_list_def card_Suc_Diff1 [symmetric] del: card_Diff_insert)
qed

lemma mem_steps_store_ok:
  "mem_steps s s' \<Longrightarrow> store_ok s \<Longrightarrow> store_ok s'"
  by (induction rule: rtranclp_induct) (auto intro: mem_step_store_ok)

lemma mem_steps_capacity:
  "mem_steps s s' \<Longrightarrow> store_ok s \<Longrightarrow> capacity s' = capacity s"
proof (induction rule: rtranclp_induct)
  case (step s1 s2)
  then show ?case using mem_step_capacity mem_steps_store_ok by metis
qed simp

section \<open>Primitive steps\<close>

named_theorems steps_intros "primitive steps continue a sequence of memory steps"

lemma steps_put_list [steps_intros]:
  "mem_steps s0 s \<Longrightarrow> get_list s p = Inr L0 \<Longrightarrow> mem_steps s0 (put_list p L s)"
  by (auto simp: put_list_def get_list_def split: option.splits
      intro: rtranclp.rtrancl_into_rtrancl mem_step.write_list)

lemma steps_set_next [steps_intros]:
  "mem_steps s0 s \<Longrightarrow> set_next p q s = Inr s' \<Longrightarrow> mem_steps s0 s'"
  by (auto simp: set_next_def get_member_def split: option.splits
      intro: rtranclp.rtrancl_into_rtrancl mem_step.write_member)

lemma steps_set_item [steps_intros]:
  "mem_steps s0 s \<Longrightarrow> set_item p x s = Inr s' \<Longrightarrow> mem_steps s0 s'"
  by (auto simp: set_item_def get_member_def split: option.splits
      intro: rtranclp.rtrancl_into_rtrancl mem_step.write_member)

lemma steps_call_delete_item [steps_intros]:
  "mem_steps s0 s \<Longrightarrow> mem_steps s0 (call_delete_item d x s)"
  by (auto simp: call_delete_item_def intro: rtranclp.rtrancl_into_rtrancl mem_step.destroy)

lemma steps_free_member [steps_intros]:
  "mem_steps s0 s \<Longrightarrow> members s a \<noteq> None \<Longrightarrow> mem_steps s0 (free_member a s)"
  by (auto intro: rtranclp.rtrancl_into_rtrancl mem_step.release_member)

lemma steps_free_list [steps_intros]:
  "mem_steps s0 s \<Longrightarrow> get_list s p = Inr L \<Longrightarrow> mem_steps s0 (free_list p s)"
  by (cases p) (auto simp: get_list_def split: option.splits intro: rtranclp.rtrancl_into_rtrancl mem_step.release_list)

lemma steps_calloc_member [steps_intros]:
  "mem_steps s0 s \<Longrightarrow> calloc_member x s = Some (n, s') \<Longrightarrow> mem_steps s0 s'"
  by (auto intro: rtranclp.rtrancl_into_rtrancl mem_step.alloc_member)

lemma steps_create_list [steps_intros]:
  "mem_steps s0 s \<Longrightarrow> create_list s = (p, s') \<Longrightarrow> mem_steps s0 s'"
  by (auto simp: create_list_def split: option.splits intro: rtranclp.rtrancl_into_rtrancl mem_step.alloc_list)

lemma members_call_delete_item [simp]: "members (call_delete_item d x s) = members s"
  by (simp add: call_delete_item_def)

lemma get_member_call_delete_item [simp]: "get_member (call_delete_item d x s) p = get_member s p"
  by (cases p) (simp_all add: get_member_def call_delete_item_def)

lemma members_set_next_dom: "set_next p q s = Inr s' \<Longrightarrow> members s a \<noteq> None \<Longrightarrow> members s' a \<noteq> None"
  by (auto simp: set_next_def get_member_def split: option.splits)

lemma lists_free_member [simp]: "lists (free_member a s) = lists s"
  by (simp add: free_member_def)

lemma lists_call_delete_item [simp]: "lists (call_delete_item d x s) = lists s"
  by (simp add: call_delete_item_def)

lemma lists_set_next: "set_next p q s = Inr s' \<Longrightarrow> lists s' = lists s"
  by (auto simp: set_next_def get_member_def split: option.splits)

lemma lists_set_item: "set_item p x s = Inr s' \<Longrightarrow> lists s' = lists s"
  by (auto simp: set_item_def get_member_def split: option.splits)

lemma get_list_same_lists:
  assumes "store.lists s' = store.lists s"
  shows "get_list s' p = get_list s p"
  unfolding get_list_def assms ..

lemma get_list_free_member [simp]: "get_list (free_member a s) p = get_list s p"
  by (rule get_list_same_lists) (simp add: free_member_def)

lemma get_list_call_delete_item [simp]: "get_list (call_delete_item d x s) p = get_list s p"
  by (rule get_list_same_lists) (simp add: call_delete_item_def)

lemma get_list_put_list: "get_list s p = Inr L0 \<Longrightarrow> get_list (put_list p L s) p = Inr L"
  by (auto simp: get_list_def put_list_def split: option.splits)

lemma get_list_set_next: "set_next p q s = Inr s' \<Longrightarrow> get_list s' l = get_list s l"
  by (rule get_list_same_lists) (rule lists_set_next)


lemma get_list_put_list_other:
  "get_list s p = Inr L0 \<Longrightarrow> get_list s q = Inr L1 \<Longrightarrow> \<exists>L. get_list (put_list p L' s) q = Inr L"
  by (cases p; cases q) (auto simp: get_list_def put_list_def split: option.splits)

lemma get_list_list_size: "list_size p s = Inr k \<Longrightarrow> \<exists>L. get_list s p = Inr L"
  by (auto simp: list_size_def bind_err_eq_Inr)

section \<open>Every operation is a sequence of memory steps\<close>

lemma append_to_list_steps [steps_intros]:
  assumes "mem_steps s0 s" and "append_to_list l it s = Inr (r, s')"
  shows "mem_steps s0 s'"
proof (cases "\<exists>x n s1. it = Some x \<and> calloc_member x s = Some (n, s1)")
  case True
  then obtain x n s1 where it: "it = Some x" and c: "calloc_member x s = Some (n, s1)" by blast
  have st1: "mem_steps s0 s1" by (rule steps_calloc_member [OF assms(1) c])
  from assms(2) it c obtain L s2 where L: "get_list s1 l = Inr L"
    and s2: "(if first_m L = None then Inr s1 else set_next (last_m L) (Some n) s1) = Inr s2"
    and s': "s' = put_list l ((if first_m L = None then L\<lparr>first_m := Some n\<rparr> else L)\<lparr>last_m := Some n,
               total_members := total_members (if first_m L = None then L\<lparr>first_m := Some n\<rparr> else L) + 1\<rparr>) s2"
    by (auto simp: append_to_list_def bind_err_eq_Inr Let_def)
  have "mem_steps s0 s2 \<and> lists s2 = lists s1"
    using s2 st1 steps_set_next [OF st1] lists_set_next by (auto split: if_splits)
  with L s' show ?thesis
    using steps_put_list get_list_same_lists by metis
next
  case False
  with assms show ?thesis
    by (cases it) (auto simp: append_to_list_def split: option.splits)
qed

lemma join_lists_steps:
  assumes "mem_steps s0 s" and "join_lists a b s = Inr s'"
  shows "mem_steps s0 s'"
proof -
  from assms(2) obtain F S s1 where F: "get_list s a = Inr F" and S: "get_list s b = Inr S"
    and s1: "(if last_m F \<noteq> None then set_next (last_m F) (first_m S) s else Inr s) = Inr s1"
    and s': "s' = free_list b (put_list a ((if last_m F \<noteq> None then F else F\<lparr>first_m := first_m S\<rparr>)
        \<lparr>last_m := last_m S, total_members := total_members (if last_m F \<noteq> None then F else F\<lparr>first_m := first_m S\<rparr>) +
          total_members S\<rparr>) s1)"
    by (auto simp: join_lists_def bind_err_eq_Inr Let_def)
  have st1: "mem_steps s0 s1" and l1: "lists s1 = lists s"
    using s1 assms(1) steps_set_next lists_set_next by (auto split: if_splits)
  from F S l1 have F1: "get_list s1 a = Inr F" and S1: "get_list s1 b = Inr S"
    using get_list_same_lists by metis+
  from get_list_put_list_other [OF F1 S1] obtain L where
    "get_list (put_list a ((if last_m F \<noteq> None then F else F\<lparr>first_m := first_m S\<rparr>)
        \<lparr>last_m := last_m S, total_members := total_members (if last_m F \<noteq> None then F else F\<lparr>first_m := first_m S\<rparr>) +
          total_members S\<rparr>) s1) b = Inr L"
    by blast
  with s' show ?thesis
    using steps_free_list [OF steps_put_list [OF st1 F1]] by simp
qed

lemma get_next_item_steps:
  assumes "mem_steps s0 s" and "get_next_item l s = Inr (r, s')"
  shows "mem_steps s0 s'"
  using assms
  by (auto simp: get_next_item_def bind_err_eq_Inr split: option.splits if_splits
      intro: steps_put_list)

lemma reset_list_item_steps:
  assumes "mem_steps s0 s" and "reset_list_item l s = Inr s'"
  shows "mem_steps s0 s'"
  using assms
  by (auto simp: reset_list_item_def bind_err_eq_Inr split: option.splits intro: steps_put_list)

lemma delete_loop_steps:
  assumes "delete_loop d p s = Some r"
  shows "mem_steps s0 s \<longrightarrow> (\<forall>s'. r = Inr s' \<longrightarrow> mem_steps s0 s')"
proof (rule delete_loop.raw_induct [where P = "\<lambda>d p s r. mem_steps s0 s \<longrightarrow> (\<forall>s'. r = Inr s' \<longrightarrow> mem_steps s0 s')",
    OF _ assms], goal_cases)
  case (1 f d p s r)
  show ?case
    using 1(2)
    by (auto simp: bind_err_eq_Inr split: option.splits sum.splits dest!: 1(1) intro: steps_intros)
qed

lemma delete_loop_lists:
  assumes "delete_loop d p s = Some r"
  shows "\<forall>s'. r = Inr s' \<longrightarrow> lists s' = lists s"
proof (rule delete_loop.raw_induct [where P = "\<lambda>d p s r. \<forall>s'. r = Inr s' \<longrightarrow> lists s' = lists s",
    OF _ assms], goal_cases)
  case (1 f d p s r)
  show ?case
    using 1(2) by (auto split: option.splits sum.splits dest!: 1(1))
qed

lemma sort_pass_steps:
  assumes "sort_pass cmp p q c s = Some r"
  shows "mem_steps s0 s \<longrightarrow> (\<forall>x s'. r = Inr (x, s') \<longrightarrow> mem_steps s0 s')"
proof (rule sort_pass.raw_induct [where P = "\<lambda>cmp p q c s r. mem_steps s0 s \<longrightarrow> (\<forall>x s'. r = Inr (x, s') \<longrightarrow> mem_steps s0 s')",
    OF _ assms], goal_cases)
  case (1 f cmp p q c s r)
  show ?case
    using 1(2)
    by (auto simp: bind_err_eq_Inr Let_def bind_eq_Some_conv get_list_put_list get_list_set_next
        split: option.splits sum.splits if_splits prod.splits dest!: 1(1) intro: steps_intros)
qed

lemma sort_pass_steps' [steps_intros]:
  "mem_steps s0 s \<Longrightarrow> sort_pass cmp p q c s = Some (Inr (x, s')) \<Longrightarrow> mem_steps s0 s'"
  using sort_pass_steps by blast


lemma sort_rounds_steps:
  assumes "sort_rounds cmp l s = Some r"
  shows "mem_steps s0 s \<longrightarrow> (\<forall>s'. r = Inr s' \<longrightarrow> mem_steps s0 s')"
proof (rule sort_rounds.raw_induct [where P = "\<lambda>cmp l s r. mem_steps s0 s \<longrightarrow> (\<forall>s'. r = Inr s' \<longrightarrow> mem_steps s0 s')",
    OF _ assms], goal_cases)
  case (1 f cmp l s r)
  show ?case
  proof (intro impI allI)
    fix s'
    assume st: "mem_steps s0 s" and r: "r = Inr s'"
    from 1(2) r obtain pr nx where
      ob: "Option.bind (sort_pass cmp pr nx 0 s) (\<lambda>y. case y of Inl e \<Rightarrow> Some (Inl e)
                 | Inr (c, s'') \<Rightarrow> if c \<noteq> 0 then f cmp l s'' else Some (Inr s'')) = Some (Inr s')"
      by (auto simp: bind_err_eq_Inr split: sum.splits)
    then obtain y where
      sp: "sort_pass cmp pr nx 0 s = Some y"
      and rest: "(case y of Inl e \<Rightarrow> Some (Inl e)
                 | Inr (c, s'') \<Rightarrow> if c \<noteq> 0 then f cmp l s'' else Some (Inr s'')) = Some (Inr s')"
      unfolding bind_eq_Some_conv by blast
    from rest obtain c s'' where y: "y = Inr (c, s'')" by (auto split: sum.splits)
    have st'': "mem_steps s0 s''" using sort_pass_steps' [OF st] sp y by blast
    show "mem_steps s0 s'"
    proof (cases "c = 0")
      case True
      with rest y st'' show ?thesis by simp
    next
      case False
      with rest y have "f cmp l s'' = Some (Inr s')" by simp
      from 1(1) [OF this] st'' show ?thesis by blast
    qed
  qed
qed

lemma remove_body_steps:
  assumes "mem_steps s0 s" and "bind_err (get_member s (Some a)) (\<lambda>m.
                  if crit (item m) ps then
                    (let s1 = call_delete_item d (item m) s in
                     bind_err (if prev = None
                               then bind_err (get_list s1 l) (\<lambda>L.
                                      Inr (put_list l (L\<lparr>first_m := next_m m\<rparr>) s1))
                               else set_next prev (next_m m) s1) (\<lambda>s2.
                     bind_err (get_list s2 l) (\<lambda>L.
                       Inr (prev, c + 1,
                            put_list l (L\<lparr>total_members := total_members L - 1\<rparr>)
                              (free_member a s2)))))
                  else Inr (Some a, c, s)) = Inr (prev', c', s3)"
  shows "mem_steps s0 s3"
proof -
  from assms(2) obtain m where m: "members s a = Some m"
    and b: "(if crit (item m) ps then
                    (let s1 = call_delete_item d (item m) s in
                     bind_err (if prev = None
                               then bind_err (get_list s1 l) (\<lambda>L.
                                      Inr (put_list l (L\<lparr>first_m := next_m m\<rparr>) s1))
                               else set_next prev (next_m m) s1) (\<lambda>s2.
                     bind_err (get_list s2 l) (\<lambda>L.
                       Inr (prev, c + 1,
                            put_list l (L\<lparr>total_members := total_members L - 1\<rparr>)
                              (free_member a s2)))))
                  else Inr (Some a, c, s)) = Inr (prev', c', s3)"
    by (auto simp: bind_err_eq_Inr split: option.splits)
  show ?thesis
  proof (cases "crit (item m) ps")
    case False
    with b assms(1) show ?thesis by simp
  next
    case True
    let ?s1 = "call_delete_item d (item m) s"
    have st1: "mem_steps s0 ?s1" by (rule steps_call_delete_item [OF assms(1)])
    from b True obtain s2 L2 where
      s2: "(if prev = None then bind_err (get_list ?s1 l) (\<lambda>L. Inr (put_list l (L\<lparr>first_m := next_m m\<rparr>) ?s1))
            else set_next prev (next_m m) ?s1) = Inr s2"
      and L2: "get_list s2 l = Inr L2"
      and s3: "s3 = put_list l (L2\<lparr>total_members := total_members L2 - 1\<rparr>) (free_member a s2)"
      by (auto simp: bind_err_eq_Inr Let_def)
    have ma: "members ?s1 a \<noteq> None" using m by simp
    have st2: "mem_steps s0 s2 \<and> members s2 a \<noteq> None"
    proof (cases "prev = None")
      case True
      with s2 obtain L where "get_list ?s1 l = Inr L" "s2 = put_list l (L\<lparr>first_m := next_m m\<rparr>) ?s1"
        by (auto simp: bind_err_eq_Inr)
      then show ?thesis using steps_put_list [OF st1] ma by (auto simp: put_list_def split: option.splits)
    next
      case False
      with s2 show ?thesis using steps_set_next [OF st1] members_set_next_dom [OF _ ma] by simp
    qed
    have "get_list (free_member a s2) l = Inr L2" using L2 by simp
    with s3 st2 show ?thesis using steps_put_list [OF steps_free_member] by blast
  qed
qed

lemma remove_tail_steps:
  assumes "mem_steps s0 s3" and "bind_err (if prev' = None then bind_err (get_list s3 l) (\<lambda>L. Inr (first_m L))
                               else bind_err (get_member s3 prev') (\<lambda>m. Inr (next_m m))) (\<lambda>next'.
                       if next' = None
                       then bind_err (get_list s3 l) (\<lambda>L.
                              Inr (next', put_list l (L\<lparr>last_m := prev'\<rparr>) s3))
                       else Inr (next', s3)) = Inr (n', s4)"
  shows "mem_steps s0 s4"
  using assms
  by (auto simp: bind_err_eq_Inr split: if_splits intro: steps_put_list)

lemma remove_loop_steps:
  assumes "remove_loop crit ps d l prev q c s = Some r"
  shows "mem_steps s0 s \<longrightarrow> (\<forall>x s'. r = Inr (x, s') \<longrightarrow> mem_steps s0 s')"
proof (rule remove_loop.raw_induct [where P = "\<lambda>crit ps d l prev q c s r.
      mem_steps s0 s \<longrightarrow> (\<forall>x s'. r = Inr (x, s') \<longrightarrow> mem_steps s0 s')", OF _ assms], goal_cases)
  case (1 f crit ps d l prev q c s r)
  show ?case
  proof (intro impI allI)
    fix x s'
    assume st: "mem_steps s0 s" and r: "r = Inr (x, s')"
    show "mem_steps s0 s'"
    proof (cases q)
      case None
      with 1(2) r st show ?thesis by auto
    next
      case (Some a)
      from 1(2) Some r obtain prev' c' s3 n' s4 where
        b1: "bind_err (get_member s (Some a)) (\<lambda>m.
                  if crit (item m) ps then
                    (let s1 = call_delete_item d (item m) s in
                     bind_err (if prev = None
                               then bind_err (get_list s1 l) (\<lambda>L.
                                      Inr (put_list l (L\<lparr>first_m := next_m m\<rparr>) s1))
                               else set_next prev (next_m m) s1) (\<lambda>s2.
                     bind_err (get_list s2 l) (\<lambda>L.
                       Inr (prev, c + 1,
                            put_list l (L\<lparr>total_members := total_members L - 1\<rparr>)
                              (free_member a s2)))))
                  else Inr (Some a, c, s)) = Inr (prev', c', s3)"
        and b2: "bind_err (if prev' = None then bind_err (get_list s3 l) (\<lambda>L. Inr (first_m L))
                               else bind_err (get_member s3 prev') (\<lambda>m. Inr (next_m m))) (\<lambda>next'.
                       if next' = None
                       then bind_err (get_list s3 l) (\<lambda>L.
                              Inr (next', put_list l (L\<lparr>last_m := prev'\<rparr>) s3))
                       else Inr (next', s3)) = Inr (n', s4)"
        and rec: "f crit ps d l prev' n' c' s4 = Some r"
        by (auto split: sum.splits)
      have "mem_steps s0 s4"
        by (rule remove_tail_steps [OF remove_body_steps
              [where s = s and a = a and crit = crit and ps = ps and d = d and prev = prev and l = l and c = c,
               OF st b1] b2])
      with 1(1) [OF rec] r show ?thesis by blast
    qed
  qed
qed

lemma search_loop_steps:
  assumes "search_loop crit ps dup n q s = Some r"
  shows "mem_steps s0 s \<longrightarrow> (\<forall>s'. r = Inr s' \<longrightarrow> mem_steps s0 s')"
proof (rule search_loop.raw_induct [where P = "\<lambda>crit ps dup n q s r. mem_steps s0 s \<longrightarrow> (\<forall>s'. r = Inr s' \<longrightarrow> mem_steps s0 s')",
    OF _ assms], goal_cases)
  case (1 f crit ps dup n q s r)
  show ?case
    using 1(2)
    by (auto simp: bind_err_eq_Inr Let_def bind_eq_Some_conv get_list_put_list get_list_set_next
        split: option.splits sum.splits if_splits prod.splits dest!: 1(1) intro: steps_intros)
qed

lemma duplicate_loop_steps:
  assumes "duplicate_loop dup n q s = Some r"
  shows "mem_steps s0 s \<longrightarrow> (\<forall>s'. r = Inr s' \<longrightarrow> mem_steps s0 s')"
proof (rule duplicate_loop.raw_induct [where P = "\<lambda>dup n q s r. mem_steps s0 s \<longrightarrow> (\<forall>s'. r = Inr s' \<longrightarrow> mem_steps s0 s')",
    OF _ assms], goal_cases)
  case (1 f dup n q s r)
  show ?case
    using 1(2)
    by (auto simp: bind_err_eq_Inr Let_def bind_eq_Some_conv get_list_put_list get_list_set_next
        split: option.splits sum.splits if_splits prod.splits dest!: 1(1) intro: steps_intros)
qed

lemma loop_steps [steps_intros]:
  "mem_steps s0 s \<Longrightarrow> sort_rounds cmp l s = Some (Inr s') \<Longrightarrow> mem_steps s0 s'"
  "mem_steps s0 s \<Longrightarrow> remove_loop crit ps d l prev q c s = Some (Inr (x, s')) \<Longrightarrow> mem_steps s0 s'"
  "mem_steps s0 s \<Longrightarrow> search_loop crit ps dup n q s = Some (Inr s') \<Longrightarrow> mem_steps s0 s'"
  "mem_steps s0 s \<Longrightarrow> duplicate_loop dup' n q s = Some (Inr s') \<Longrightarrow> mem_steps s0 s'"
  "mem_steps s0 s \<Longrightarrow> delete_loop d q s = Some (Inr s') \<Longrightarrow> mem_steps s0 s'"
  using sort_rounds_steps [of cmp l s "Inr s'" s0]
    remove_loop_steps [of crit ps d l prev q c s "Inr (x, s')" s0]
    search_loop_steps [of crit ps dup n q s "Inr s'" s0]
    duplicate_loop_steps [of dup' n q s "Inr s'" s0]
    delete_loop_steps [of d q s "Inr s'" s0] by simp_all

lemma sort_list_steps:
  assumes "mem_steps s0 s" and "sort_list l cmp s = Some (Inr (p, s'))"
  shows "mem_steps s0 s'"
proof (cases "\<exists>c a L. cmp = Some c \<and> l = Some a \<and> get_list s l = Inr L \<and> first_m L \<noteq> None")
  case True
  then obtain c a L where c: "cmp = Some c" "l = Some a" "get_list s l = Inr L" "first_m L \<noteq> None"
    by blast
  with assms(2) have "sort_rounds c l s = Some (Inr s')"
    by (auto simp: sort_list_def bind_eq_Some_conv bind_err_eq_Inr)
  with assms(1) show ?thesis by (rule loop_steps(1))
next
  case False
  with assms show ?thesis
    by (auto simp: sort_list_def split: option.splits sum.splits if_splits)
qed

lemma remove_from_list_steps:
  assumes "mem_steps s0 s" and "remove_from_list l crit ps d s = Some (Inr (n, s'))"
  shows "mem_steps s0 s'"
proof (cases "\<exists>c a L y. crit = Some c \<and> l = Some a \<and> get_list s l = Inr L \<and> first_m L = Some y")
  case True
  then obtain c a L y where c: "crit = Some c" "l = Some a" "get_list s l = Inr L" "first_m L = Some y"
    by blast
  with assms(2) have "remove_loop c ps d l None (first_m L) 0 s = Some (Inr (n, s'))"
    by (simp add: remove_from_list_def)
  with assms(1) show ?thesis by (rule loop_steps(2))
next
  case False
  with assms show ?thesis
    by (auto simp: remove_from_list_def split: option.splits sum.splits if_splits)
qed

lemma delete_list_steps:
  assumes "mem_steps s0 s" and "delete_list l d s = Some (Inr s')"
  shows "mem_steps s0 s'"
proof (cases "\<exists>a L. l = Some a \<and> get_list s l = Inr L")
  case True
  then obtain a L where c: "l = Some a" "get_list s l = Inr L" by blast
  with assms(2) obtain s1 where lp: "delete_loop d (first_m L) s = Some (Inr s1)" and s': "s' = free_list l s1"
    by (auto simp: delete_list_def split: option.splits sum.splits)
  have "get_list s1 l = Inr L"
    using delete_loop_lists [OF lp] c(2) get_list_same_lists by metis
  with assms(1) lp s' show ?thesis using loop_steps(5) steps_free_list by blast
next
  case False
  with assms show ?thesis
    by (auto simp: delete_list_def split: option.splits sum.splits)
qed

text \<open>The common tail of \<open>search_in_list\<close> and \<open>duplicate_list\<close>, for any loop made of memory steps.\<close>

lemma copy_tail_steps:
  fixes loop :: "addr \<Rightarrow> ptr \<Rightarrow> 'a store \<Rightarrow> (err + 'a store) option"
  assumes st: "mem_steps s0 s"
    and lp: "\<And>n p s1 s2. mem_steps s0 s1 \<Longrightarrow> loop n p s1 = Some (Inr s2) \<Longrightarrow> mem_steps s0 s2"
    and r: "(case create_list s of
        (None, s1) \<Rightarrow> Some (Inr (None, s1))
      | (Some n, s1) \<Rightarrow>
     (case get_list s1 l of
        Inl e \<Rightarrow> Some (Inl e)
      | Inr L1 \<Rightarrow>
     (case loop n (first_m L1) s1 of
        None \<Rightarrow> None
      | Some (Inl e) \<Rightarrow> Some (Inl e)
      | Some (Inr s2) \<Rightarrow>
     (case list_size (Some n) s2 of
        Inl e \<Rightarrow> Some (Inl e)
      | Inr k \<Rightarrow>
     if k = 0 then Some (Inr (None, free_list (Some n) s2)) else Some (Inr (Some n, s2)))))) = Some (Inr (r, s'))"
  shows "mem_steps s0 s'"
proof (cases "create_list s")
  case (Pair p s1)
  have st1: "mem_steps s0 s1" by (rule steps_create_list [OF st Pair])
  show ?thesis
  proof (cases p)
    case None
    with r Pair st1 show ?thesis by simp
  next
    case (Some n)
    with r Pair show ?thesis
      by (auto split: sum.splits option.splits if_splits dest: lp [OF st1] get_list_list_size
          intro: steps_free_list)
  qed
qed

lemma search_in_list_steps:
  assumes "mem_steps s0 s" and "search_in_list l crit ps dup s = Some (Inr (r, s'))"
  shows "mem_steps s0 s'"
proof (cases "\<exists>c a L y d. crit = Some c \<and> l = Some a \<and> get_list s l = Inr L \<and> first_m L = Some y \<and>
    dup = Some d")
  case True
  then obtain c a L y d where c: "crit = Some c" "l = Some a" "get_list s l = Inr L" "first_m L = Some y"
    "dup = Some d"
    by blast
  then have eq: "search_in_list (Some a) crit ps dup s = (case create_list s of
        (None, s1) \<Rightarrow> Some (Inr (None, s1))
      | (Some n, s1) \<Rightarrow>
     (case get_list s1 (Some a) of
        Inl e \<Rightarrow> Some (Inl e)
      | Inr L1 \<Rightarrow>
     (case search_loop c ps d (Some n) (first_m L1) s1 of
        None \<Rightarrow> None
      | Some (Inl e) \<Rightarrow> Some (Inl e)
      | Some (Inr s2) \<Rightarrow>
     (case list_size (Some n) s2 of
        Inl e \<Rightarrow> Some (Inl e)
      | Inr k \<Rightarrow>
     if k = 0 then Some (Inr (None, free_list (Some n) s2)) else Some (Inr (Some n, s2))))))"
    by (simp add: search_in_list_def)
  from c(2) assms(2) have "search_in_list (Some a) crit ps dup s = Some (Inr (r, s'))" by simp
  then have t: "(case create_list s of
        (None, s1) \<Rightarrow> Some (Inr (None, s1))
      | (Some n, s1) \<Rightarrow>
     (case get_list s1 (Some a) of
        Inl e \<Rightarrow> Some (Inl e)
      | Inr L1 \<Rightarrow>
     (case search_loop c ps d (Some n) (first_m L1) s1 of
        None \<Rightarrow> None
      | Some (Inl e) \<Rightarrow> Some (Inl e)
      | Some (Inr s2) \<Rightarrow>
     (case list_size (Some n) s2 of
        Inl e \<Rightarrow> Some (Inl e)
      | Inr k \<Rightarrow>
     if k = 0 then Some (Inr (None, free_list (Some n) s2)) else Some (Inr (Some n, s2)))))) = Some (Inr (r, s'))" unfolding eq .
  show ?thesis
    by (rule copy_tail_steps [where loop = "\<lambda>n. search_loop c ps d (Some n)", OF assms(1) _ t])
      (erule loop_steps(3), assumption)
next
  case False
  with assms show ?thesis
    by (auto simp: search_in_list_def split: option.splits sum.splits if_splits)
qed

lemma duplicate_list_steps:
  assumes "mem_steps s0 s" and "duplicate_list l dup s = Some (Inr (r, s'))"
  shows "mem_steps s0 s'"
proof (cases "\<exists>a L y. l = Some a \<and> get_list s l = Inr L \<and> first_m L = Some y")
  case True
  then obtain a L y where c: "l = Some a" "get_list s l = Inr L" "first_m L = Some y"
    by blast
  then have eq: "duplicate_list (Some a) dup s = (case create_list s of
        (None, s1) \<Rightarrow> Some (Inr (None, s1))
      | (Some n, s1) \<Rightarrow>
     (case get_list s1 (Some a) of
        Inl e \<Rightarrow> Some (Inl e)
      | Inr L1 \<Rightarrow>
     (case duplicate_loop dup (Some n) (first_m L1) s1 of
        None \<Rightarrow> None
      | Some (Inl e) \<Rightarrow> Some (Inl e)
      | Some (Inr s2) \<Rightarrow>
     (case list_size (Some n) s2 of
        Inl e \<Rightarrow> Some (Inl e)
      | Inr k \<Rightarrow>
     if k = 0 then Some (Inr (None, free_list (Some n) s2)) else Some (Inr (Some n, s2))))))"
    by (simp add: duplicate_list_def)
  from c(1) assms(2) have "duplicate_list (Some a) dup s = Some (Inr (r, s'))" by simp
  then have t: "(case create_list s of
        (None, s1) \<Rightarrow> Some (Inr (None, s1))
      | (Some n, s1) \<Rightarrow>
     (case get_list s1 (Some a) of
        Inl e \<Rightarrow> Some (Inl e)
      | Inr L1 \<Rightarrow>
     (case duplicate_loop dup (Some n) (first_m L1) s1 of
        None \<Rightarrow> None
      | Some (Inl e) \<Rightarrow> Some (Inl e)
      | Some (Inr s2) \<Rightarrow>
     (case list_size (Some n) s2 of
        Inl e \<Rightarrow> Some (Inl e)
      | Inr k \<Rightarrow>
     if k = 0 then Some (Inr (None, free_list (Some n) s2)) else Some (Inr (Some n, s2)))))) = Some (Inr (r, s'))" unfolding eq .
  show ?thesis
    by (rule copy_tail_steps [where loop = "\<lambda>n. duplicate_loop dup (Some n)", OF assms(1) _ t])
      (erule loop_steps(4), assumption)
next
  case False
  with assms show ?thesis
    by (auto simp: duplicate_list_def split: option.splits sum.splits if_splits)
qed


section \<open>Consequences for the allocator's discipline\<close>

lemma sort_list_store_ok:
  "store_ok s \<Longrightarrow> sort_list l cmp s = Some (Inr (p, s')) \<Longrightarrow> store_ok s'"
  by (erule mem_steps_store_ok [OF sort_list_steps [OF rtranclp.rtrancl_refl], rotated])

lemma join_lists_store_ok:
  "store_ok s \<Longrightarrow> join_lists a b s = Inr s' \<Longrightarrow> store_ok s'"
  by (erule mem_steps_store_ok [OF join_lists_steps [OF rtranclp.rtrancl_refl], rotated])

end
