(* ===== verification/Api.thy ===== *)
theory Api
  imports Alloc
begin

text \<open>
  The public interface \<open>src/liblist.h\<close>: one constructor of \<open>list_call\<close> per
  declared function, with the C arguments (pointers, possibly-NULL items and
  callbacks), one constructor of \<open>call_result\<close> per C return type, and
  \<open>exec_call\<close>, which dispatches a call to the operation of the component
  theory that implements it. A client program is a sequence of calls,
  executed by \<open>run_calls\<close> until the first undefined behaviour. The lemmas
  show that every call, on any store and with any arguments, is a sequence
  of the memory steps of \<open>Alloc\<close> whenever it returns (so it keeps
  \<open>store_ok\<close> and the \<open>capacity\<close>), give the client-level building blocks
  (create and fill a list, iterate it to its end), and show that a client
  appending items and then iterating gets its items back.
\<close>

section \<open>The interface\<close>

text \<open>
  The declarations of lines 19--106. A criterion's \<open>void *search_params\<close> is
  the type parameter \<open>'p\<close>; \<open>delete_item\<close> is present or NULL.
\<close>

datatype ('a, 'p) list_call =
    Create_list
  | Append_to_list ptr "'a option"
  | List_size ptr
  | Join_lists ptr ptr
  | Delete_list ptr bool
  | Sort_list ptr "('a \<Rightarrow> 'a \<Rightarrow> bool) option"
  | Search_in_list ptr "('a \<Rightarrow> 'p \<Rightarrow> bool) option" 'p "('a \<Rightarrow> 'a option) option"
  | Remove_from_list ptr "('a \<Rightarrow> 'p \<Rightarrow> bool) option" 'p bool
  | Duplicate_list ptr "('a \<Rightarrow> 'a option) option"
  | Get_next_item ptr
  | Reset_list_item ptr

text \<open>The return types: \<open>List *\<close>, \<open>int\<close>, \<open>void *\<close> and \<open>void\<close>.\<close>

datatype 'a call_result = List_ptr ptr | Int_val int32 | Item_ptr "'a option" | No_value

definition exec_call :: "('a, 'p) list_call \<Rightarrow> 'a store \<Rightarrow> (err + 'a call_result \<times> 'a store) option" where
  "exec_call c s =
     (case c of
        Create_list \<Rightarrow> (case create_list s of (p, s') \<Rightarrow> Some (Inr (List_ptr p, s')))
      | Append_to_list l it \<Rightarrow>
          Some (bind_err (append_to_list l it s) (\<lambda>(r, s'). Inr (Int_val r, s')))
      | List_size l \<Rightarrow> Some (bind_err (list_size l s) (\<lambda>r. Inr (Int_val r, s)))
      | Join_lists a b \<Rightarrow> Some (bind_err (join_lists a b s) (\<lambda>s'. Inr (No_value, s')))
      | Delete_list l d \<Rightarrow>
          map_option (\<lambda>r. bind_err r (\<lambda>s'. Inr (No_value, s'))) (delete_list l d s)
      | Sort_list l cmp \<Rightarrow>
          map_option (\<lambda>r. bind_err r (\<lambda>(p, s'). Inr (List_ptr p, s'))) (sort_list l cmp s)
      | Search_in_list l crit ps dup \<Rightarrow>
          map_option (\<lambda>r. bind_err r (\<lambda>(p, s'). Inr (List_ptr p, s'))) (search_in_list l crit ps dup s)
      | Remove_from_list l crit ps d \<Rightarrow>
          map_option (\<lambda>r. bind_err r (\<lambda>(n, s'). Inr (Int_val n, s'))) (remove_from_list l crit ps d s)
      | Duplicate_list l dup \<Rightarrow>
          map_option (\<lambda>r. bind_err r (\<lambda>(p, s'). Inr (List_ptr p, s'))) (duplicate_list l dup s)
      | Get_next_item l \<Rightarrow> Some (bind_err (get_next_item l s) (\<lambda>(x, s'). Inr (Item_ptr x, s')))
      | Reset_list_item l \<Rightarrow> Some (bind_err (reset_list_item l s) (\<lambda>s'. Inr (No_value, s'))))"

text \<open>A client's sequence of calls, stopping at the first undefined behaviour.\<close>

fun run_calls :: "('a, 'p) list_call list \<Rightarrow> 'a store \<Rightarrow> (err + 'a call_result list \<times> 'a store) option" where
  "run_calls [] s = Some (Inr ([], s))"
| "run_calls (c # cs) s =
     (case exec_call c s of
        None \<Rightarrow> None
      | Some (Inl e) \<Rightarrow> Some (Inl e)
      | Some (Inr (r, s1)) \<Rightarrow>
          (case run_calls cs s1 of
             None \<Rightarrow> None
           | Some (Inl e) \<Rightarrow> Some (Inl e)
           | Some (Inr (rs, s2)) \<Rightarrow> Some (Inr (r # rs, s2))))"

section \<open>Properties\<close>

lemma exec_call_steps:
  assumes st: "mem_steps s0 s" and ex: "exec_call c s = Some (Inr (r, s'))"
  shows "mem_steps s0 s'"
proof (cases c)
  case Create_list
  with ex st show ?thesis by (auto simp: exec_call_def split: prod.splits intro: steps_create_list)
next
  case (Append_to_list l it)
  with ex st show ?thesis by (auto simp: exec_call_def bind_err_eq_Inr intro: append_to_list_steps)
next
  case (List_size l)
  with ex st show ?thesis by (auto simp: exec_call_def bind_err_eq_Inr)
next
  case (Join_lists a b)
  with ex st show ?thesis by (auto simp: exec_call_def bind_err_eq_Inr intro: join_lists_steps)
next
  case (Delete_list l d)
  with ex st show ?thesis by (auto simp: exec_call_def bind_err_eq_Inr intro: delete_list_steps)
next
  case (Sort_list l cmp)
  with ex st show ?thesis by (auto simp: exec_call_def bind_err_eq_Inr intro: sort_list_steps)
next
  case (Search_in_list l crit ps dup)
  with ex st show ?thesis by (auto simp: exec_call_def bind_err_eq_Inr intro: search_in_list_steps)
next
  case (Remove_from_list l crit ps d)
  with ex st show ?thesis by (auto simp: exec_call_def bind_err_eq_Inr intro: remove_from_list_steps)
next
  case (Duplicate_list l dup)
  with ex st show ?thesis by (auto simp: exec_call_def bind_err_eq_Inr intro: duplicate_list_steps)
next
  case (Get_next_item l)
  with ex st show ?thesis by (auto simp: exec_call_def bind_err_eq_Inr intro: get_next_item_steps)
next
  case (Reset_list_item l)
  with ex st show ?thesis by (auto simp: exec_call_def bind_err_eq_Inr intro: reset_list_item_steps)
qed

lemma run_calls_steps:
  "run_calls cs s = Some (Inr (rs, s')) \<Longrightarrow> mem_steps s s'"
proof (induction cs arbitrary: s rs)
  case Nil
  then show ?case by simp
next
  case (Cons c cs)
  from Cons.prems obtain r s1 rs' where
    "exec_call c s = Some (Inr (r, s1))" "run_calls cs s1 = Some (Inr (rs', s'))"
    by (auto split: option.splits sum.splits prod.splits)
  with Cons.IH exec_call_steps [OF rtranclp.rtrancl_refl] show ?case
    by (meson rtranclp_trans)
qed

lemma run_calls_append:
  "run_calls (cs @ ds) s =
     (case run_calls cs s of
        None \<Rightarrow> None
      | Some (Inl e) \<Rightarrow> Some (Inl e)
      | Some (Inr (rs, s1)) \<Rightarrow>
          (case run_calls ds s1 of
             None \<Rightarrow> None
           | Some (Inl e) \<Rightarrow> Some (Inl e)
           | Some (Inr (rs', s2)) \<Rightarrow> Some (Inr (rs @ rs', s2))))"
  by (induction cs arbitrary: s) (auto split: option.splits sum.splits prod.splits)

text \<open>A run of \<open>get_next_item\<close> calls through the interface is \<open>get_next_items\<close>.\<close>

lemma run_calls_get_next_item:
  "run_calls (replicate k (Get_next_item l)) s =
     (case get_next_items k l s of Inl e \<Rightarrow> Some (Inl e) | Inr (rs, s') \<Rightarrow> Some (Inr (map Item_ptr rs, s')))"
  by (induction k arbitrary: s) (auto simp: exec_call_def bind_err_def split: sum.splits prod.splits)

text \<open>Appending items one call at a time, with memory for every member.\<close>

lemma run_calls_appends:
  assumes "store_ok s" and "list_ok s l ys" and "length xs \<le> avail s"
  shows "\<exists>s' zs. run_calls (map (\<lambda>x. Append_to_list (Some l) (Some x) :: ('a, 'p) list_call) xs) s =
       Some (Inr (replicate (length xs) (Int_val 0), s')) \<and>
     store_ok s' \<and> list_ok s' l (ys @ zs) \<and>
     abs_list s' l (ys @ zs) = (abs_list s l ys)\<lparr>elems := elems (abs_list s l ys) @ xs\<rparr> \<and>
     destroyed s' = destroyed s"
  using assms
proof (induction xs arbitrary: s ys)
  case Nil
  then show ?case by (intro exI [of _ s] exI [of _ "[]"]) simp
next
  case (Cons x xs)
  from Cons.prems(3) have av: "0 < avail s" by simp
  from append_to_list_abs [OF Cons.prems(1,2) av, of x] obtain s1 where
    app: "append_to_list (Some l) (Some x) s = Inr (0, s1)" and st1: "store_ok s1"
    and ok1: "list_ok s1 l (ys @ [next_free s])"
    and ab1: "abs_list s1 l (ys @ [next_free s]) = seq_append x (abs_list s l ys)"
    and av1: "avail s1 = avail s - 1" and d1: "destroyed s1 = destroyed s"
    by blast
  from Cons.prems(3) av1 have "length xs \<le> avail s1" by simp
  from Cons.IH [OF st1 ok1 this] obtain s' zs where
    run: "run_calls (map (\<lambda>x. Append_to_list (Some l) (Some x) :: ('a, 'p) list_call) xs) s1 =
       Some (Inr (replicate (length xs) (Int_val 0), s'))"
    and rest: "store_ok s'" "list_ok s' l ((ys @ [next_free s]) @ zs)"
    and ab: "abs_list s' l ((ys @ [next_free s]) @ zs) =
       (abs_list s1 l (ys @ [next_free s]))\<lparr>elems := elems (abs_list s1 l (ys @ [next_free s])) @ xs\<rparr>"
    and d': "destroyed s' = destroyed s1"
    by blast
  have "abs_list s' l (ys @ next_free s # zs) = (abs_list s l ys)\<lparr>elems := elems (abs_list s l ys) @ x # xs\<rparr>"
    using ab ab1 by (simp add: seq_append_def)
  with app run rest d1 d' show ?case
    by (intro exI [of _ s'] exI [of _ "next_free s # zs"]) (simp add: exec_call_def)
qed

text \<open>Creating a list and filling it, with memory for the header and every member.\<close>

lemma run_calls_fill:
  assumes "store_ok s" and "length xs < avail s"
  shows "\<exists>s' zs. run_calls (Create_list # map (\<lambda>x. Append_to_list (Some (next_free s)) (Some x)) xs
              :: ('a, 'p) list_call list) s =
       Some (Inr (List_ptr (Some (next_free s)) # replicate (length xs) (Int_val 0), s')) \<and>
     store_ok s' \<and> list_ok s' (next_free s) zs \<and>
     abs_list s' (next_free s) zs = \<lparr>elems = xs, pos = None\<rparr> \<and> destroyed s' = destroyed s"
proof -
  let ?N = "next_free s"
  from assms(2) have av: "0 < avail s" by simp
  from create_list_ok [OF assms(1) av] obtain s1 where
    cr: "create_list s = (Some ?N, s1)" and st1: "store_ok s1" and ok1: "list_ok s1 ?N []"
    and ab1: "abs_list s1 ?N [] = seq_empty" and av1: "avail s1 = avail s - 1"
    and d1: "destroyed s1 = destroyed s"
    by blast
  from assms(2) av1 have "length xs \<le> avail s1" by simp
  from run_calls_appends [OF st1 ok1 this] obtain s2 zs where
    run2: "run_calls (map (\<lambda>x. Append_to_list (Some ?N) (Some x) :: ('a, 'p) list_call) xs) s1 =
       Some (Inr (replicate (length xs) (Int_val 0), s2))"
    and r2: "store_ok s2" "list_ok s2 ?N ([] @ zs)" "destroyed s2 = destroyed s1"
    and ab2: "abs_list s2 ?N ([] @ zs) = (abs_list s1 ?N [])\<lparr>elems := elems (abs_list s1 ?N []) @ xs\<rparr>"
    by blast
  have "exec_call (Create_list :: ('a, 'p) list_call) s = Some (Inr (List_ptr (Some ?N), s1))"
    using cr by (simp add: exec_call_def)
  with run2 r2 ab2 ab1 d1 show ?thesis
    by (intro exI [of _ s2] exI [of _ zs]) (simp add: seq_empty_def)
qed

text \<open>Iterating a reset list to its end through the interface.\<close>

lemma run_calls_iterate:
  assumes "list_ok s l zs" and "abs_list s l zs = \<lparr>elems = ys, pos = None\<rparr>"
  shows "\<exists>s'. run_calls (replicate (Suc (length ys)) (Get_next_item (Some l)) :: ('a, 'p) list_call list) s =
       Some (Inr (map (\<lambda>x. Item_ptr (Some x)) ys @ [Item_ptr None], s')) \<and> cursor_only s s' l"
proof -
  from get_next_items_run [OF assms(1), of "Suc (length ys)"] obtain rs s' where
    run: "get_next_items (Suc (length ys)) (Some l) s = Inr (rs, s')"
    and it: "(rs, abs_list s' l zs) = seq_iterate (Suc (length ys)) (abs_list s l zs)"
    by auto
  have "rs = map Some ys @ [None]"
    using it seq_iterate_all [of "abs_list s l zs"] assms(2) by simp
  with run get_next_items_frame [OF assms(1) run] show ?thesis
    unfolding run_calls_get_next_item by simp
qed

text \<open>Every call sequence that returns keeps \<open>store_ok\<close> (through \<open>Alloc\<close>).\<close>

lemma run_calls_store_ok:
  "store_ok s \<Longrightarrow> run_calls cs s = Some (Inr (rs, s')) \<Longrightarrow> store_ok s'"
  using mem_steps_store_ok run_calls_steps by blast

text \<open>
  C20. Round trip through the interface: a client that creates a list,
  appends the items \<open>xs\<close> one call at a time (with memory for all of them)
  and then calls get_next_item \<open>length xs + 1\<close> times gets the new list's
  pointer, the return code 0 for each append, then exactly the items \<open>xs\<close> in
  order, and finally NULL.
\<close>

theorem append_then_iterate:
  assumes "store_ok s" and "length xs < avail s"
  shows "\<exists>s'. run_calls (Create_list # map (\<lambda>x. Append_to_list (Some (next_free s)) (Some x)) xs @
              replicate (Suc (length xs)) (Get_next_item (Some (next_free s))) :: ('a, 'p) list_call list) s =
     Some (Inr (List_ptr (Some (next_free s)) # replicate (length xs) (Int_val 0) @
                map (\<lambda>x. Item_ptr (Some x)) xs @ [Item_ptr None], s'))"
proof -
  let ?N = "next_free s"
  from run_calls_fill [OF assms] obtain s1 zs where
    run1: "run_calls (Create_list # map (\<lambda>x. Append_to_list (Some ?N) (Some x)) xs :: ('a, 'p) list_call list) s =
       Some (Inr (List_ptr (Some ?N) # replicate (length xs) (Int_val 0), s1))"
    and ok1: "list_ok s1 ?N zs" and ab1: "abs_list s1 ?N zs = \<lparr>elems = xs, pos = None\<rparr>"
    by blast
  from run_calls_iterate [OF ok1 ab1] obtain s2 where
    run2: "run_calls (replicate (Suc (length xs)) (Get_next_item (Some ?N)) :: ('a, 'p) list_call list) s1 =
       Some (Inr (map (\<lambda>x. Item_ptr (Some x)) xs @ [Item_ptr None], s2))"
    by blast
  have "run_calls ((Create_list # map (\<lambda>x. Append_to_list (Some ?N) (Some x)) xs) @
        replicate (Suc (length xs)) (Get_next_item (Some ?N)) :: ('a, 'p) list_call list) s =
      Some (Inr ((List_ptr (Some ?N) # replicate (length xs) (Int_val 0)) @
        (map (\<lambda>x. Item_ptr (Some x)) xs @ [Item_ptr None]), s2))"
    by (simp only: run_calls_append run1 run2 option.case sum.case prod.case)
  then show ?thesis by (intro exI [of _ s2]) simp
qed

theorem append_then_iterate_witness:
  "\<exists>s'. run_calls (Create_list # map (\<lambda>x. Append_to_list (Some 1) (Some x)) [5, 3 :: nat] @
              replicate 3 (Get_next_item (Some 1)) :: (nat, nat) list_call list) (ex_empty_store\<lparr>avail := 5\<rparr>) =
     Some (Inr ([List_ptr (Some 1), Int_val 0, Int_val 0, Item_ptr (Some 5), Item_ptr (Some 3), Item_ptr None], s'))"
proof -
  have st: "store_ok (ex_empty_store\<lparr>avail := 5\<rparr>)" by (simp add: ex_empty_store_def store_ok_def)
  have av: "length [5, 3 :: nat] < avail (ex_empty_store\<lparr>avail := 5\<rparr>)" by simp
  from append_then_iterate [OF st av] show ?thesis
    by (simp add: ex_empty_store_def numeral_3_eq_3)
qed


text \<open>Every call sequence that returns conserves the \<open>capacity\<close>.\<close>

lemma run_calls_capacity:
  "store_ok s \<Longrightarrow> run_calls cs s = Some (Inr (rs, s')) \<Longrightarrow> capacity s' = capacity s"
  using mem_steps_capacity run_calls_steps by blast

end
