(* ===== verification/Driver.thy ===== *)
theory Driver
  imports Alloc
begin

text \<open>
  The demonstration program \<open>main\<close> of \<open>src/test/test_list.c\<close> (lines 49--100)
  as one function of the store: it builds a list of numbers, prints it, prints
  an ascending and a descending sorted copy, the sorted numbers at most and at
  least 50, the two joined, removes the numbers at most 50 from the original,
  prints what is left sorted, and deletes the lists. The \<open>printf\<close> output is
  returned: the removal count and, for each \<open>print_list\<close>, the printed size
  and items. The lemmas compose the component theorems along this sequence of
  calls: the output when the numbers fall on both sides of 50, and the NULL
  dereference when none is at most 50.
\<close>

section \<open>The driver\<close>

text \<open>
  Sequencing of calls that may not return (\<open>None\<close>) or may end in undefined
  behaviour (\<open>Inl\<close>).
\<close>

definition bind_run :: "(err + 'b) option \<Rightarrow> ('b \<Rightarrow> (err + 'c) option) \<Rightarrow> (err + 'c) option" where
  "bind_run m f = (case m of None \<Rightarrow> None | Some (Inl e) \<Rightarrow> Some (Inl e) | Some (Inr x) \<Rightarrow> f x)"

text \<open>
  \<open>duplicate_number\<close>, lines 28--37: a copy of the integer. The integers are
  values of the model, so the copy always succeeds.
\<close>

definition duplicate_number :: "int \<Rightarrow> int option" where
  "duplicate_number x = Some x"

text \<open>
  \<open>main\<close>, lines 49--100. \<open>nums\<close> are the numbers the filling loop (lines
  66--74) stored: \<open>rand() % 100\<close> for each iteration whose \<open>calloc\<close> of the
  number succeeded. \<open>add_to_list\<close>, which \<open>liblist.h\<close> does not declare, is
  taken to be \<open>append_to_list\<close>; \<open>free\<close> as destructor is the flag \<open>True\<close>;
  \<open>&reference\<close> is the criterion parameter 50.
\<close>

definition driver_main ::
  "int list \<Rightarrow> int store \<Rightarrow> (err + (int32 \<times> (int32 \<times> int list) list) \<times> int store) option"
where
  "driver_main nums s0 =
     (let reference = 50 in
      case create_list s0 of (random, s1) \<Rightarrow>
      bind_run (Some (append_all random (map Some nums) s1)) (\<lambda>(_, s2).
      bind_run (print_list random s2) (\<lambda>(p1, s3).
      bind_run (duplicate_list random (Some duplicate_number) s3) (\<lambda>(asc, s4).
      bind_run (sort_list asc (Some sort_asc) s4) (\<lambda>(_, s5).
      bind_run (print_list asc s5) (\<lambda>(p2, s6).
      bind_run (duplicate_list random (Some duplicate_number) s6) (\<lambda>(desc, s7).
      bind_run (sort_list desc (Some sort_desc) s7) (\<lambda>(_, s8).
      bind_run (print_list desc s8) (\<lambda>(p3, s9).
      bind_run (search_in_list random (Some sort_asc) reference (Some duplicate_number) s9) (\<lambda>(less, s10).
      bind_run (sort_list less (Some sort_asc) s10) (\<lambda>(_, s11).
      bind_run (print_list less s11) (\<lambda>(p4, s12).
      bind_run (search_in_list random (Some sort_desc) reference (Some duplicate_number) s12) (\<lambda>(more, s13).
      bind_run (sort_list more (Some sort_asc) s13) (\<lambda>(_, s14).
      bind_run (print_list more s14) (\<lambda>(p5, s15).
      bind_run (Some (join_lists less more s15)) (\<lambda>s16.
      bind_run (print_list less s16) (\<lambda>(p6, s17).
      bind_run (remove_from_list random (Some sort_asc) reference True s17) (\<lambda>(removed, s18).
      bind_run (sort_list random (Some sort_asc) s18) (\<lambda>(_, s19).
      bind_run (print_list random s19) (\<lambda>(p7, s20).
      bind_run (delete_list random True s20) (\<lambda>s21.
      bind_run (delete_list asc True s21) (\<lambda>s22.
      bind_run (delete_list desc True s22) (\<lambda>s23.
      bind_run (delete_list less True s23) (\<lambda>s24.
      Some (Inr ((removed, [p1, p2, p3, p4, p5, p6, p7]), s24))))))))))))))))))))))))))"

text \<open>
  The lists a run of the driver holds at a point: header, member chain and
  abstract contents of each.
\<close>

definition lists_are :: "'a store \<Rightarrow> (addr \<times> addr list \<times> 'a seq) list \<Rightarrow> bool" where
  "lists_are s ls = (\<forall>(k, ys, S) \<in> set ls. list_ok s k ys \<and> abs_list s k ys = S)"

text \<open>An empty store with room for fifteen objects.\<close>

definition ex_driver_store :: "int store" where
  "ex_driver_store = \<lparr>members = Map.empty, lists = Map.empty, next_free = 0, avail = 15, destroyed = []\<rparr>"

section \<open>Sequencing\<close>

lemma bind_run_Some_Inr [simp]: "bind_run (Some (Inr x)) f = f x"
  by (simp add: bind_run_def)

lemma bind_run_Some_Inl [simp]: "bind_run (Some (Inl e)) f = Some (Inl e)"
  by (simp add: bind_run_def)

section \<open>Where the lists lie\<close>

text \<open>
  Each list the driver creates occupies addresses from the allocator's
  frontier at its creation up to the frontier at the next creation; a call
  on one list changes objects in its own range only, so the other lists keep
  their shape and contents.
\<close>

lemma list_ok_below:
  assumes "store_ok s" and "list_ok s k ys"
  shows "k < next_free s \<and> (\<forall>a \<in> set ys. a < next_free s)"
  using assms list_ok_in_dom [OF assms(2)]
  by (auto simp: store_ok_def list_ok_def split: option.splits)

lemma list_ok_keep:
  assumes "list_ok s k ys" and "unchanged_outside s s' A B"
    and "\<forall>a \<in> insert k (set ys). lo \<le> a \<and> a < hi" and "\<forall>a \<in> A \<union> B. a < lo \<or> hi \<le> a"
  shows "list_ok s' k ys \<and> abs_list s' k ys = abs_list s k ys"
proof (rule list_ok_unchanged [OF assms(1,2)])
  have "a \<notin> A \<union> B" if "a \<in> insert k (set ys)" for a
  proof
    assume "a \<in> A \<union> B"
    with assms(4) have "a < lo \<or> hi \<le> a" by blast
    moreover from that assms(3) have "lo \<le> a \<and> a < hi" by blast
    ultimately show False by linarith
  qed
  then show "set ys \<inter> A = {}" and "k \<notin> B" by blast+
qed

lemma list_ok_keep_fresh:
  assumes "store_ok s" and "list_ok s k ys"
    and "unchanged_outside s s' {a. next_free s \<le> a} {a. next_free s \<le> a}"
  shows "list_ok s' k ys \<and> abs_list s' k ys = abs_list s k ys"
  using list_ok_below [OF assms(1,2)]
  by (intro list_ok_unchanged [OF assms(2,3)]) auto

lemma lists_are_Nil [simp]: "lists_are s []"
  by (simp add: lists_are_def)

lemma lists_are_Cons [simp]:
  "lists_are s ((k, ys, S) # ls) \<longleftrightarrow> list_ok s k ys \<and> abs_list s k ys = S \<and> lists_are s ls"
  by (simp add: lists_are_def)

lemma lists_are_append [simp]: "lists_are s (ls @ ms) \<longleftrightarrow> lists_are s ls \<and> lists_are s ms"
  unfolding lists_are_def by (simp only: set_append ball_Un)

lemma lists_are_keep:
  assumes "lists_are s ls" and "unchanged_outside s s' A B"
    and "\<forall>(k, ys, S) \<in> set ls. \<forall>x \<in> insert k (set ys). x \<notin> A \<union> B"
  shows "lists_are s' ls"
  unfolding lists_are_def
proof (intro ballI, clarify)
  fix k ys S assume m: "(k, ys, S) \<in> set ls"
  with assms(1) have "list_ok s k ys" "abs_list s k ys = S" by (auto simp: lists_are_def)
  moreover from m assms(3) have "set ys \<inter> A = {}" "k \<notin> B" by auto
  ultimately show "list_ok s' k ys \<and> abs_list s' k ys = S"
    using list_ok_unchanged [OF _ assms(2)] by auto
qed

lemma lists_are_below:
  assumes "store_ok s" and "lists_are s ls"
  shows "\<forall>(k, ys, S) \<in> set ls. \<forall>x \<in> insert k (set ys). x < next_free s"
  using assms list_ok_below [OF assms(1)] by (fastforce simp: lists_are_def)

lemma lists_are_fresh:
  assumes "store_ok s" and "lists_are s ls"
    and "unchanged_outside s s' {a. next_free s \<le> a} {a. next_free s \<le> a}"
  shows "lists_are s' ls"
  using lists_are_below [OF assms(1,2)] by (intro lists_are_keep [OF assms(2,3)]) fastforce

section \<open>Filling the list\<close>

lemma append_all_fresh:
  assumes "store_ok s" and "list_ok s l xs" and "length vs \<le> avail s"
  shows "\<exists>s' zs. append_all (Some l) (map Some vs) s = Inr (replicate (length vs) 0, s') \<and>
     store_ok s' \<and> list_ok s' l (xs @ zs) \<and>
     items_at (members s') (xs @ zs) = items_at (members s) xs @ vs \<and>
     (\<forall>a \<in> set zs. next_free s \<le> a) \<and> unchanged_outside s s' (set xs \<union> {a. next_free s \<le> a}) {l} \<and>
     avail s' = avail s - length vs \<and> destroyed s' = destroyed s \<and>
     map_option current_m (lists s' l) = map_option current_m (lists s l)"
  using assms
proof (induction vs arbitrary: s xs)
  case Nil
  then show ?case by (intro exI [of _ s] exI [of _ "[]"]) (simp add: unchanged_outside_def)
next
  case (Cons v vs)
  let ?n = "next_free s"
  from append_to_list_item [OF Cons.prems(1,2), of v] Cons.prems(3) obtain s1 where
    app: "append_to_list (Some l) (Some v) s = Inr (0, s1)" and st1: "store_ok s1"
    and ok1: "list_ok s1 l (xs @ [?n])" and new: "members s1 ?n = Some \<lparr>next_m = None, item = v\<rparr>"
    and un1: "unchanged_outside s s1 (insert ?n (set xs)) {l}"
    and its1: "items_at (members s1) xs = items_at (members s) xs"
    and r1: "next_free s1 = Suc ?n" "avail s1 = avail s - 1" "destroyed s1 = destroyed s"
    and c1: "map_option current_m (lists s1 l) = map_option current_m (lists s l)"
    by auto
  have av: "length vs \<le> avail s1" using Cons.prems(3) r1(2) by simp
  from Cons.IH [OF st1 ok1 av] obtain s' zs where
    run: "append_all (Some l) (map Some vs) s1 = Inr (replicate (length vs) 0, s')"
    and rest: "store_ok s'" "list_ok s' l ((xs @ [?n]) @ zs)"
      "items_at (members s') ((xs @ [?n]) @ zs) = items_at (members s1) (xs @ [?n]) @ vs"
      "\<forall>a \<in> set zs. next_free s1 \<le> a"
      "unchanged_outside s1 s' (set (xs @ [?n]) \<union> {a. next_free s1 \<le> a}) {l}"
      "avail s' = avail s1 - length vs" "destroyed s' = destroyed s1"
      "map_option current_m (lists s' l) = map_option current_m (lists s1 l)"
    by blast
  have "unchanged_outside s s' (set xs \<union> {a. ?n \<le> a}) {l}"
    by (rule unchanged_outside_mono [OF unchanged_outside_trans [OF un1 rest(5)]]) (auto simp: r1)
  moreover have "items_at (members s') (xs @ ?n # zs) = items_at (members s) xs @ v # vs"
    using rest(3) its1 new by simp
  ultimately show ?case
    using app run rest r1 c1
    by (intro exI [of _ s'] exI [of _ "?n # zs"]) auto
qed

section \<open>Sorting and printing a fresh copy\<close>

lemma store_ok_cursor_only:
  assumes "store_ok s" and "cursor_only s s' l" and "l \<in> dom (lists s)"
  shows "store_ok s'"
proof -
  have "a < next_free s'" if "a \<in> dom (lists s')" for a
  proof (cases "a = l")
    case True
    with assms show ?thesis by (auto simp: store_ok_def cursor_only_def)
  next
    case False
    with that assms(1,2) show ?thesis by (auto simp: store_ok_def cursor_only_def dom_def)
  qed
  with assms(1,2) show ?thesis by (auto simp: store_ok_def cursor_only_def)
qed

lemma map_filter_if_Some: "List.map_filter (\<lambda>x. if P x then Some x else None) xs = filter P xs"
  by (induction xs) (simp_all add: List.map_filter_simps)

lemma sort_print:
  assumes st: "store_ok s" and ok: "list_ok s n ys" and ab: "abs_list s n ys = \<lparr>elems = sel, pos = None\<rparr>"
    and ne: "ys \<noteq> []" and tc: "total_cmp cmp" and len: "length ys < 2 ^ 32"
  shows "\<exists>s1 s2 ws. sort_list (Some n) (Some cmp) s = Some (Inr (Some n, s1)) \<and>
     print_list (Some n) s1 = Some (Inr ((of_nat (length ys), ws), s2)) \<and>
     store_ok s2 \<and> list_ok s2 n ys \<and> abs_list s2 n ys = \<lparr>elems = ws, pos = None\<rparr> \<and>
     mset ws = mset sel \<and> successively cmp ws \<and> unchanged_outside s s2 (set ys) {n} \<and>
     next_free s2 = next_free s \<and> avail s2 = avail s \<and> destroyed s2 = destroyed s"
proof -
  from sort_list_run [OF ok ne tc len] obtain s1 where
    srt: "sort_list (Some n) (Some cmp) s = Some (Inr (Some n, s1))" and ok1: "list_ok s1 n ys"
    and m: "mset (elems (abs_list s1 n ys)) = mset (elems (abs_list s n ys))"
    and sc: "successively cmp (elems (abs_list s1 n ys))"
    and p1: "pos (abs_list s1 n ys) = pos (abs_list s n ys)"
    and un1: "unchanged_outside s s1 (set ys) {}"
    and f1: "next_free s1 = next_free s" "avail s1 = avail s" "destroyed s1 = destroyed s"
    by blast
  have st1: "store_ok s1" by (rule sort_list_store_ok [OF st srt])
  have p1': "pos (abs_list s1 n ys) = None" using p1 ab by simp
  from print_list_run [OF ok1 p1'] obtain s2 where
    pr: "print_list (Some n) s1 = Some (Inr ((of_nat (length ys), items_at (members s1) ys), s2))"
    and ok2: "list_ok s2 n ys" and c2: "cursor_only s1 s2 n" and ab2: "abs_list s2 n ys = abs_list s1 n ys"
    by blast
  have "n \<in> dom (lists s1)" using ok1 by (auto simp: list_ok_def split: option.splits)
  then have st2: "store_ok s2" by (rule store_ok_cursor_only [OF st1 c2])
  have "unchanged_outside s s2 (set ys) {n}"
    using unchanged_outside_trans [OF un1 cursor_only_unchanged [OF c2]] by simp
  moreover have "abs_list s2 n ys = \<lparr>elems = items_at (members s1) ys, pos = None\<rparr>"
    using ab2 p1' by (simp add: abs_list_def)
  ultimately show ?thesis
    using srt pr st2 ok2 m sc f1 c2 ab by (intro exI [of _ s1] exI [of _ s2]) (simp add: abs_list_def cursor_only_def)
qed

lemma length_items_at_eq: "length (items_at h xs) = length xs"
  by (simp add: items_at_def)

lemma fresh_sort_print:
  assumes st1: "store_ok s1" and ok1: "list_ok s1 N ys" and ab1: "abs_list s1 N ys = \<lparr>elems = sel, pos = None\<rparr>"
    and ge: "\<forall>a \<in> set ys. N \<le> a" and un1: "unchanged_outside s s1 {a. N \<le> a} {a. N \<le> a}"
    and ne: "sel \<noteq> []" and tc: "total_cmp cmp" and len: "length sel < 2 ^ 32"
  shows "\<exists>s2 s3 ws. sort_list (Some N) (Some cmp) s1 = Some (Inr (Some N, s2)) \<and>
     print_list (Some N) s2 = Some (Inr ((of_nat (length sel), ws), s3)) \<and>
     store_ok s3 \<and> list_ok s3 N ys \<and> abs_list s3 N ys = \<lparr>elems = ws, pos = None\<rparr> \<and>
     mset ws = mset sel \<and> successively cmp ws \<and> unchanged_outside s s3 {a. N \<le> a} {a. N \<le> a} \<and>
     avail s3 = avail s1 \<and> destroyed s3 = destroyed s1 \<and> length ys = length sel"
proof -
  have ly: "length ys = length sel"
    using arg_cong [OF ab1, of "\<lambda>S. length (elems S)"] by (simp add: abs_list_def length_items_at_eq)
  with ne len have "ys \<noteq> []" "length ys < 2 ^ 32" by auto
  from sort_print [OF st1 ok1 ab1 this(1) tc this(2)] obtain s2 s3 ws where
    r: "sort_list (Some N) (Some cmp) s1 = Some (Inr (Some N, s2))"
      "print_list (Some N) s2 = Some (Inr ((of_nat (length ys), ws), s3))"
      "store_ok s3" "list_ok s3 N ys" "abs_list s3 N ys = \<lparr>elems = ws, pos = None\<rparr>"
      "mset ws = mset sel" "successively cmp ws" "avail s3 = avail s1" "destroyed s3 = destroyed s1"
    and un2: "unchanged_outside s1 s3 (set ys) {N}"
    by blast
  have "unchanged_outside s s3 {a. N \<le> a} {a. N \<le> a}"
    by (rule unchanged_outside_mono [OF unchanged_outside_trans [OF un1 un2]]) (use ge in auto)
  with r ly show ?thesis by (intro exI [of _ s2] exI [of _ s3] exI [of _ ws]) simp
qed

lemma duplicate_sort_print:
  assumes st: "store_ok s" and ok: "list_ok s l xs" and ne: "xs \<noteq> []" and len: "length xs < 2 ^ 32"
    and av: "length xs < avail s" and tc: "total_cmp cmp"
  shows "\<exists>s1 s2 s3 ys ws. duplicate_list (Some l) (Some duplicate_number) s = Some (Inr (Some (next_free s), s1)) \<and>
     sort_list (Some (next_free s)) (Some cmp) s1 = Some (Inr (Some (next_free s), s2)) \<and>
     print_list (Some (next_free s)) s2 = Some (Inr ((of_nat (length xs), ws), s3)) \<and>
     store_ok s3 \<and> list_ok s3 (next_free s) ys \<and> abs_list s3 (next_free s) ys = \<lparr>elems = ws, pos = None\<rparr> \<and>
     mset ws = mset (items_at (members s) xs) \<and> successively cmp ws \<and> (\<forall>a \<in> set ys. next_free s \<le> a) \<and>
     unchanged_outside s s3 {a. next_free s \<le> a} {a. next_free s \<le> a} \<and>
     avail s3 + length xs + 1 = avail s \<and> destroyed s3 = destroyed s"
proof -
  let ?N = "next_free s" and ?sel = "items_at (members s) xs"
  have sel: "take (avail s - 1) (List.map_filter (\<lambda>x. case Some duplicate_number of Some g \<Rightarrow> g x | None \<Rightarrow> Some x)
      (items_at (members s) xs)) = ?sel"
    using av by (simp add: duplicate_number_def length_items_at_eq)
  from duplicate_list_run [OF st ok ne len, of "Some duplicate_number"] obtain r s1 where
    call: "duplicate_list (Some l) (Some duplicate_number) s = Some (Inr (r, s1))" and st1: "store_ok s1"
    and un1: "unchanged_outside s s1 {a. ?N \<le> a} {a. ?N \<le> a}" and d1: "destroyed s1 = destroyed s"
    and res: "case r of None \<Rightarrow> ?sel = [] \<and> avail s1 = avail s \<and>
          next_free s1 = ?N + (if avail s = 0 then 0 else 1)
      | Some n \<Rightarrow> n = ?N \<and> ?sel \<noteq> [] \<and> (\<exists>ys. list_ok s1 n ys \<and> abs_list s1 n ys = \<lparr>elems = ?sel, pos = None\<rparr> \<and>
          (\<forall>a \<in> set ys. ?N \<le> a) \<and> avail s1 + length ys + 1 = avail s \<and> next_free s1 = ?N + length ys + 1)"
    unfolding sel by blast
  have ne': "?sel \<noteq> []" using ne by (simp add: items_at_def)
  with res obtain ys where r: "r = Some ?N" and ok1: "list_ok s1 ?N ys"
    and ab1: "abs_list s1 ?N ys = \<lparr>elems = ?sel, pos = None\<rparr>" and ge: "\<forall>a \<in> set ys. ?N \<le> a"
    and av1: "avail s1 + length ys + 1 = avail s"
    by (cases r) auto
  have len': "length ?sel < 2 ^ 32" using len by (simp add: length_items_at_eq)
  from fresh_sort_print [OF st1 ok1 ab1 ge un1 ne' tc len'] call r av1 d1 ge show ?thesis
    by (fastforce simp: length_items_at_eq)
qed

lemma search_sort_print:
  assumes st: "store_ok s" and ok: "list_ok s l xs" and ne: "xs \<noteq> []" and len: "length xs < 2 ^ 32"
    and av: "length xs < avail s" and tc: "total_cmp cmp"
    and hit: "filter (\<lambda>x. c x ps) (items_at (members s) xs) \<noteq> []"
  shows "\<exists>s1 s2 s3 ys ws. search_in_list (Some l) (Some c) ps (Some duplicate_number) s = Some (Inr (Some (next_free s), s1)) \<and>
     sort_list (Some (next_free s)) (Some cmp) s1 = Some (Inr (Some (next_free s), s2)) \<and>
     print_list (Some (next_free s)) s2 =
       Some (Inr ((of_nat (length (filter (\<lambda>x. c x ps) (items_at (members s) xs))), ws), s3)) \<and>
     store_ok s3 \<and> list_ok s3 (next_free s) ys \<and> abs_list s3 (next_free s) ys = \<lparr>elems = ws, pos = None\<rparr> \<and>
     mset ws = mset (filter (\<lambda>x. c x ps) (items_at (members s) xs)) \<and> successively cmp ws \<and>
     (\<forall>a \<in> set ys. next_free s \<le> a) \<and> unchanged_outside s s3 {a. next_free s \<le> a} {a. next_free s \<le> a} \<and>
     avail s3 + length (filter (\<lambda>x. c x ps) (items_at (members s) xs)) + 1 = avail s \<and> destroyed s3 = destroyed s"
proof -
  let ?N = "next_free s" and ?sel = "filter (\<lambda>x. c x ps) (items_at (members s) xs)"
  have sel: "take (avail s - 1) (List.map_filter (\<lambda>x. if c x ps then duplicate_number x else None)
      (items_at (members s) xs)) = ?sel"
  proof -
    have "length ?sel < avail s"
      using av length_filter_le [of "\<lambda>x. c x ps" "items_at (members s) xs"] by (simp add: length_items_at_eq)
    then show ?thesis unfolding duplicate_number_def by (simp add: map_filter_if_Some)
  qed
  from search_in_list_run [OF st ok ne len, of c ps duplicate_number] obtain r s1 where
    call: "search_in_list (Some l) (Some c) ps (Some duplicate_number) s = Some (Inr (r, s1))" and st1: "store_ok s1"
    and un1: "unchanged_outside s s1 {a. ?N \<le> a} {a. ?N \<le> a}" and d1: "destroyed s1 = destroyed s"
    and res: "case r of None \<Rightarrow> ?sel = [] \<and> avail s1 = avail s \<and>
          next_free s1 = ?N + (if avail s = 0 then 0 else 1)
      | Some n \<Rightarrow> n = ?N \<and> ?sel \<noteq> [] \<and> (\<exists>ys. list_ok s1 n ys \<and> abs_list s1 n ys = \<lparr>elems = ?sel, pos = None\<rparr> \<and>
          (\<forall>a \<in> set ys. ?N \<le> a) \<and> avail s1 + length ys + 1 = avail s \<and> next_free s1 = ?N + length ys + 1)"
    unfolding sel by blast
  from res hit obtain ys where r: "r = Some ?N" and ok1: "list_ok s1 ?N ys"
    and ab1: "abs_list s1 ?N ys = \<lparr>elems = ?sel, pos = None\<rparr>" and ge: "\<forall>a \<in> set ys. ?N \<le> a"
    and av1: "avail s1 + length ys + 1 = avail s"
    by (cases r) auto
  have len': "length ?sel < 2 ^ 32"
    using len length_filter_le [of "\<lambda>x. c x ps" "items_at (members s) xs"] by (simp add: length_items_at_eq)
  from fresh_sort_print [OF st1 ok1 ab1 ge un1 hit tc len'] call r av1 d1 ge show ?thesis
    by fastforce
qed

section \<open>Building and printing the first list\<close>

lemma build_print:
  assumes st: "store_ok s" and av: "length nums < avail s"
  shows "\<exists>s1 s2 s3 zs. create_list s = (Some (next_free s), s1) \<and>
     append_all (Some (next_free s)) (map Some nums) s1 = Inr (replicate (length nums) 0, s2) \<and>
     print_list (Some (next_free s)) s2 = Some (Inr ((of_nat (length nums), nums), s3)) \<and>
     store_ok s3 \<and> list_ok s3 (next_free s) zs \<and>
     abs_list s3 (next_free s) zs = \<lparr>elems = nums, pos = None\<rparr> \<and>
     (\<forall>a \<in> set zs. next_free s \<le> a) \<and> unchanged_outside s s3 {a. next_free s \<le> a} {a. next_free s \<le> a} \<and>
     avail s3 + length nums + 1 = avail s \<and> destroyed s3 = destroyed s"
proof -
  let ?N = "next_free s"
  from create_list_ok [OF st] av obtain s1 where
    cr: "create_list s = (Some ?N, s1)" and st1: "store_ok s1" and ok1: "list_ok s1 ?N []"
    and ab1: "abs_list s1 ?N [] = seq_empty" and un1: "unchanged_outside s s1 {} {?N}"
    and f1: "next_free s1 = Suc ?N" "avail s1 = avail s - 1" "destroyed s1 = destroyed s"
    by auto
  have av1: "length nums \<le> avail s1" using av f1(2) by simp
  from append_all_fresh [OF st1 ok1 av1] obtain s2 zs where
    app: "append_all (Some ?N) (map Some nums) s1 = Inr (replicate (length nums) 0, s2)"
    and st2: "store_ok s2" and ok2: "list_ok s2 ?N zs" and its2: "items_at (members s2) zs = nums"
    and ge: "\<forall>a \<in> set zs. next_free s1 \<le> a"
    and un2: "unchanged_outside s1 s2 ({} \<union> {a. next_free s1 \<le> a}) {?N}"
    and f2: "avail s2 = avail s1 - length nums" "destroyed s2 = destroyed s1"
    and c2: "map_option current_m (lists s2 ?N) = map_option current_m (lists s1 ?N)"
    by auto
  have p2: "pos (abs_list s2 ?N zs) = None"
    using abs_list_pos_extend [OF ok1 c2, of zs] ab1 by (simp add: seq_empty_def)
  from print_list_run [OF ok2 p2] obtain s3 where
    pr: "print_list (Some ?N) s2 = Some (Inr ((of_nat (length zs), items_at (members s2) zs), s3))"
    and ok3: "list_ok s3 ?N zs" and p3: "pos (abs_list s3 ?N zs) = None" and c3: "cursor_only s2 s3 ?N"
    and ab3: "abs_list s3 ?N zs = abs_list s2 ?N zs"
    by blast
  have "?N \<in> dom (lists s2)" using ok2 by (auto simp: list_ok_def split: option.splits)
  then have st3: "store_ok s3" by (rule store_ok_cursor_only [OF st2 c3])
  have lz: "length zs = length nums" using its2 by (metis length_items_at_eq)
  have "unchanged_outside s s3 {a. ?N \<le> a} {a. ?N \<le> a}"
    by (rule unchanged_outside_mono [OF unchanged_outside_trans [OF unchanged_outside_trans [OF un1 un2]
        cursor_only_unchanged [OF c3]]]) (auto simp: f1)
  moreover have "abs_list s3 ?N zs = \<lparr>elems = nums, pos = None\<rparr>"
    using ab3 p2 its2 by (simp add: abs_list_def)
  moreover have "avail s3 + length nums + 1 = avail s" "destroyed s3 = destroyed s"
    using c3 f1 f2 av by (simp_all add: cursor_only_def)
  moreover have "\<forall>a \<in> set zs. ?N \<le> a" using ge f1 by auto
  moreover have "print_list (Some ?N) s2 = Some (Inr ((of_nat (length nums), nums), s3))"
    using pr lz its2 by simp
  ultimately show ?thesis
    using cr app st3 ok3 by (intro exI [of _ s1] exI [of _ s2] exI [of _ s3] exI [of _ zs]) simp
qed

section \<open>The copies of the first list\<close>

text \<open>
  Each copy of the driver's first list is made, sorted and printed while the
  lists made before stay as they were; the copy lies above all of them.
\<close>

lemma dup_stage:
  assumes st: "store_ok s" and la: "lists_are s ((r, zs, \<lparr>elems = nums, pos = None\<rparr>) # ls)"
    and ne: "nums \<noteq> []" and len: "length nums < 2 ^ 32" and av: "length nums < avail s"
    and tc: "total_cmp cmp"
  shows "\<exists>s1 s2 s3 ys ws. duplicate_list (Some r) (Some duplicate_number) s = Some (Inr (Some (next_free s), s1)) \<and>
     sort_list (Some (next_free s)) (Some cmp) s1 = Some (Inr (Some (next_free s), s2)) \<and>
     print_list (Some (next_free s)) s2 = Some (Inr ((of_nat (length nums), ws), s3)) \<and>
     store_ok s3 \<and> mset ws = mset nums \<and> successively cmp ws \<and>
     lists_are s3 ((r, zs, \<lparr>elems = nums, pos = None\<rparr>) # ls @ [(next_free s, ys, \<lparr>elems = ws, pos = None\<rparr>)]) \<and>
     (\<forall>x \<in> insert (next_free s) (set ys). next_free s \<le> x) \<and>
     avail s3 + length nums + 1 = avail s \<and> destroyed s3 = destroyed s"
proof -
  from la have ok: "list_ok s r zs" and its: "items_at (members s) zs = nums"
    by (auto simp: abs_list_def)
  have lz: "length zs = length nums" using its by (metis length_items_at_eq)
  with ne len av have "zs \<noteq> []" "length zs < 2 ^ 32" "length zs < avail s" by auto
  from duplicate_sort_print [OF st ok this tc] obtain s1 s2 s3 ys ws where
    r: "duplicate_list (Some r) (Some duplicate_number) s = Some (Inr (Some (next_free s), s1))"
      "sort_list (Some (next_free s)) (Some cmp) s1 = Some (Inr (Some (next_free s), s2))"
      "print_list (Some (next_free s)) s2 = Some (Inr ((of_nat (length zs), ws), s3))"
      "store_ok s3" "list_ok s3 (next_free s) ys" "abs_list s3 (next_free s) ys = \<lparr>elems = ws, pos = None\<rparr>"
      "mset ws = mset (items_at (members s) zs)" "successively cmp ws" "\<forall>a \<in> set ys. next_free s \<le> a"
      "avail s3 + length zs + 1 = avail s" "destroyed s3 = destroyed s"
    and un: "unchanged_outside s s3 {a. next_free s \<le> a} {a. next_free s \<le> a}"
    by blast
  have "lists_are s3 ((r, zs, \<lparr>elems = nums, pos = None\<rparr>) # ls)" by (rule lists_are_fresh [OF st la un])
  with r its lz show ?thesis
    by (intro exI [of _ s1] exI [of _ s2] exI [of _ s3] exI [of _ ys] exI [of _ ws]) simp
qed

lemma search_stage:
  assumes st: "store_ok s" and la: "lists_are s ((r, zs, \<lparr>elems = nums, pos = None\<rparr>) # ls)"
    and ne: "nums \<noteq> []" and len: "length nums < 2 ^ 32" and av: "length nums < avail s"
    and tc: "total_cmp cmp" and hit: "filter (\<lambda>x. c x ps) nums \<noteq> []"
  shows "\<exists>s1 s2 s3 ys ws. search_in_list (Some r) (Some c) ps (Some duplicate_number) s = Some (Inr (Some (next_free s), s1)) \<and>
     sort_list (Some (next_free s)) (Some cmp) s1 = Some (Inr (Some (next_free s), s2)) \<and>
     print_list (Some (next_free s)) s2 = Some (Inr ((of_nat (length (filter (\<lambda>x. c x ps) nums)), ws), s3)) \<and>
     store_ok s3 \<and> mset ws = mset (filter (\<lambda>x. c x ps) nums) \<and> successively cmp ws \<and>
     lists_are s3 ((r, zs, \<lparr>elems = nums, pos = None\<rparr>) # ls @ [(next_free s, ys, \<lparr>elems = ws, pos = None\<rparr>)]) \<and>
     (\<forall>x \<in> insert (next_free s) (set ys). next_free s \<le> x) \<and>
     avail s3 + length (filter (\<lambda>x. c x ps) nums) + 1 = avail s \<and> destroyed s3 = destroyed s"
proof -
  from la have ok: "list_ok s r zs" and its: "items_at (members s) zs = nums"
    by (auto simp: abs_list_def)
  have lz: "length zs = length nums" using its by (metis length_items_at_eq)
  with ne len av its hit have "zs \<noteq> []" "length zs < 2 ^ 32" "length zs < avail s"
    "filter (\<lambda>x. c x ps) (items_at (members s) zs) \<noteq> []" by auto
  from search_sort_print [where c = c and ps = ps, OF st ok this(1-3) tc this(4)] obtain s1 s2 s3 ys ws where
    r: "search_in_list (Some r) (Some c) ps (Some duplicate_number) s = Some (Inr (Some (next_free s), s1))"
      "sort_list (Some (next_free s)) (Some cmp) s1 = Some (Inr (Some (next_free s), s2))"
      "print_list (Some (next_free s)) s2 =
         Some (Inr ((of_nat (length (filter (\<lambda>x. c x ps) (items_at (members s) zs))), ws), s3))"
      "store_ok s3" "list_ok s3 (next_free s) ys" "abs_list s3 (next_free s) ys = \<lparr>elems = ws, pos = None\<rparr>"
      "mset ws = mset (filter (\<lambda>x. c x ps) (items_at (members s) zs))" "successively cmp ws"
      "\<forall>a \<in> set ys. next_free s \<le> a"
      "avail s3 + length (filter (\<lambda>x. c x ps) (items_at (members s) zs)) + 1 = avail s"
      "destroyed s3 = destroyed s"
    and un: "unchanged_outside s s3 {a. next_free s \<le> a} {a. next_free s \<le> a}"
    by blast
  have "lists_are s3 ((r, zs, \<lparr>elems = nums, pos = None\<rparr>) # ls)" by (rule lists_are_fresh [OF st la un])
  with r its show ?thesis
    by (intro exI [of _ s1] exI [of _ s2] exI [of _ s3] exI [of _ ys] exI [of _ ws]) simp
qed

section \<open>Joining, removing and deleting\<close>

lemma abs_list_pos_None:
  assumes "list_ok s l xs" and "pos (abs_list s l xs) = None"
  shows "map_option current_m (lists s l) = Some None"
  using assms by (auto simp: list_ok_def hdr_ok_def abs_list_def split: option.splits)

lemma join_stage:
  assumes st: "store_ok s"
    and la: "lists_are s (ls @ [(le, yl, \<lparr>elems = wl, pos = None\<rparr>), (mo, ym, \<lparr>elems = wm, pos = None\<rparr>)])"
    and below: "\<forall>(k, ys, S) \<in> set ls. \<forall>x \<in> insert k (set ys). x < le"
    and rl: "\<forall>x \<in> insert le (set yl). le \<le> x \<and> x < mo" and rm: "\<forall>x \<in> insert mo (set ym). mo \<le> x"
    and ne: "wm \<noteq> []"
  shows "\<exists>s1 s2. join_lists (Some le) (Some mo) s = Inr s1 \<and>
     print_list (Some le) s1 = Some (Inr ((of_nat (length wl + length wm), wl @ wm), s2)) \<and>
     store_ok s2 \<and> lists_are s2 (ls @ [(le, yl @ ym, \<lparr>elems = wl @ wm, pos = None\<rparr>)]) \<and>
     avail s2 = Suc (avail s) \<and> destroyed s2 = destroyed s"
proof -
  from la have ls: "lists_are s ls" and okl: "list_ok s le yl" and okm: "list_ok s mo ym"
    and abl: "abs_list s le yl = \<lparr>elems = wl, pos = None\<rparr>" and abm: "abs_list s mo ym = \<lparr>elems = wm, pos = None\<rparr>"
    by auto
  have lm: "le \<noteq> mo" using rl by auto
  have disj: "set yl \<inter> set ym = {}" using rl rm by fastforce
  have "ym \<noteq> []" using abm ne by (auto simp: abs_list_def)
  from join_lists_ok [OF st okl okm lm disj] this obtain s1 where
    j: "join_lists (Some le) (Some mo) s = Inr s1" and ok1: "list_ok s1 le (yl @ ym)"
    and its: "items_at (members s1) (yl @ ym) = items_at (members s) (yl @ ym)"
    and cur: "map_option current_m (lists s1 le) = map_option current_m (lists s le)"
    and un1: "unchanged_outside s s1 (set yl) {le, mo}" and d1: "destroyed s1 = destroyed s"
    and av1: "avail s1 = Suc (avail s)"
    by blast
  have st1: "store_ok s1" by (rule join_lists_store_ok [OF st j])
  have p1: "pos (abs_list s1 le (yl @ ym)) = None"
    using abs_list_pos_extend [OF okl cur, of ym] abl by simp
  have e1: "items_at (members s1) (yl @ ym) = wl @ wm"
    using its abl abm by (simp add: abs_list_def)
  from print_list_run [OF ok1 p1] obtain s2 where
    pr: "print_list (Some le) s1 = Some (Inr ((of_nat (length (yl @ ym)), items_at (members s1) (yl @ ym)), s2))"
    and ok2: "list_ok s2 le (yl @ ym)" and c2: "cursor_only s1 s2 le"
    and ab2: "abs_list s2 le (yl @ ym) = abs_list s1 le (yl @ ym)"
    by blast
  have "le \<in> dom (lists s1)" using ok1 by (auto simp: list_ok_def split: option.splits)
  then have st2: "store_ok s2" by (rule store_ok_cursor_only [OF st1 c2])
  have un: "unchanged_outside s s2 (set yl) {le, mo}"
    using unchanged_outside_trans [OF un1 cursor_only_unchanged [OF c2]] by simp
  have "lists_are s2 ls"
    by (rule lists_are_keep [OF ls un]) (use below rl in fastforce)
  moreover have "abs_list s2 le (yl @ ym) = \<lparr>elems = wl @ wm, pos = None\<rparr>"
    using ab2 p1 e1 by (simp add: abs_list_def)
  moreover have "length (yl @ ym) = length wl + length wm"
    using e1 by (metis length_append length_items_at_eq)
  ultimately show ?thesis
    using j pr e1 st2 ok2 c2 d1 av1 by (intro exI [of _ s1] exI [of _ s2]) (simp add: cursor_only_def)
qed

lemma remove_stage:
  assumes st: "store_ok s" and la: "lists_are s ((r, zs, \<lparr>elems = nums, pos = None\<rparr>) # ls)"
    and below: "\<forall>x \<in> insert r (set zs). x < lo" and above: "\<forall>(k, ys, S) \<in> set ls. \<forall>x \<in> insert k (set ys). lo \<le> x"
    and big: "\<exists>x \<in> set nums. 50 < x" and len: "length nums < 2 ^ 32"
  shows "\<exists>s1 s2 s3 ks. remove_from_list (Some r) (Some sort_asc) 50 True s =
       Some (Inr (of_nat (length (filter (\<lambda>x. x \<le> 50) nums)), s1)) \<and>
     sort_list (Some r) (Some sort_asc) s1 = Some (Inr (Some r, s2)) \<and>
     print_list (Some r) s2 =
       Some (Inr ((of_nat (length (filter (\<lambda>x. 50 < x) nums)), sort (filter (\<lambda>x. 50 < x) nums)), s3)) \<and>
     store_ok s3 \<and> lists_are s3 ((r, ks, \<lparr>elems = sort (filter (\<lambda>x. 50 < x) nums), pos = None\<rparr>) # ls) \<and>
     (\<forall>x \<in> insert r (set ks). x < lo) \<and> destroyed s3 = destroyed s @ filter (\<lambda>x. x \<le> 50) nums \<and>
     avail s3 = avail s + length (filter (\<lambda>x. x \<le> 50) nums)"
proof -
  let ?G = "filter (\<lambda>x. 50 < x) nums"
  from la have ls: "lists_are s ls" and ok: "list_ok s r zs"
    and ab: "abs_list s r zs = \<lparr>elems = nums, pos = None\<rparr>" by auto
  from ab have its: "items_at (members s) zs = nums" by (simp add: abs_list_def)
  have ne: "zs \<noteq> []" using its big by auto
  have crit: "(\<lambda>x. sort_asc x 50) = (\<lambda>x. x \<le> 50)" "(\<lambda>x. \<not> sort_asc x 50) = (\<lambda>x. 50 < x)"
    by (auto simp: sort_asc_def fun_eq_iff)
  define ks where "ks = filter (\<lambda>a. \<not> sort_asc (item (the (members s a))) 50) zs"
  from remove_from_list_run [OF st ok ne, of sort_asc 50 True] obtain s1 where
    rm: "remove_from_list (Some r) (Some sort_asc) 50 True s =
       Some (Inr (of_nat (length (filter (\<lambda>x. x \<le> 50) nums)), s1))"
    and st1: "store_ok s1" and inv: "rm_inv s1 r (if ks = [] then None else Some (last ks)) ks []"
    and its1: "items_at (members s1) ks = ?G"
    and d1: "destroyed s1 = destroyed s @ filter (\<lambda>x. x \<le> 50) nums"
    and un1: "unchanged_outside s s1 (set zs) {r}"
    and cur: "map_option current_m (lists s1 r) = map_option current_m (lists s r)"
    and av1: "avail s1 = avail s + length (filter (\<lambda>x. x \<le> 50) nums)"
    unfolding ks_def its crit if_True by blast
  have ok1: "list_ok s1 r ks"
    using rm_inv_list_ok [OF inv] cur abs_list_pos_None [OF ok] ab by simp
  have ab1: "abs_list s1 r ks = \<lparr>elems = ?G, pos = None\<rparr>"
    using its1 cur abs_list_pos_None [OF ok] ab by (auto simp: abs_list_def)
  have lk: "length ks = length ?G" using its1 by (metis length_items_at_eq)
  have sub: "set ks \<subseteq> set zs" by (simp add: ks_def)
  have "?G \<noteq> []" using big by (auto simp: filter_empty_conv)
  then have ne1: "ks \<noteq> []" using lk by auto
  have tc: "total_cmp sort_asc" by (auto simp: total_cmp_def sort_asc_def)
  have len1: "length ks < 2 ^ 32" using lk len length_filter_le [of "\<lambda>x. 50 < x" nums] by linarith
  from sort_print [OF st1 ok1 ab1 ne1 tc len1] obtain s2 s3 ws where
    r: "sort_list (Some r) (Some sort_asc) s1 = Some (Inr (Some r, s2))"
      "print_list (Some r) s2 = Some (Inr ((of_nat (length ks), ws), s3))"
      "store_ok s3" "list_ok s3 r ks" "abs_list s3 r ks = \<lparr>elems = ws, pos = None\<rparr>"
      "mset ws = mset ?G" "successively sort_asc ws" "destroyed s3 = destroyed s1" "avail s3 = avail s1"
    and un2: "unchanged_outside s1 s3 (set ks) {r}"
    by blast
  have ws: "ws = sort ?G" by (rule sort_asc_sorted_eq [OF r(7,6)])
  have "unchanged_outside s s3 (set zs) {r}"
    using unchanged_outside_trans [OF un1 un2] sub by (auto simp: unchanged_outside_def)
  then have "lists_are s3 ls"
    by (rule lists_are_keep [OF ls]) (use below above in fastforce)
  with rm r ws lk d1 av1 below sub show ?thesis
    by (intro exI [of _ s1] exI [of _ s2] exI [of _ s3] exI [of _ ks]) auto
qed

lemma delete_stage:
  assumes st: "store_ok s" and la: "lists_are s ((k, ys, S) # ls)"
    and below: "\<forall>x \<in> insert k (set ys). x < lo" and above: "\<forall>(k', ys', S') \<in> set ls. \<forall>x \<in> insert k' (set ys'). lo \<le> x"
  shows "\<exists>s'. delete_list (Some k) True s = Some (Inr s') \<and> store_ok s' \<and> lists_are s' ls \<and>
     destroyed s' = destroyed s @ elems S \<and> avail s' = avail s + length (elems S) + 1"
proof -
  from la have ok: "list_ok s k ys" and ab: "abs_list s k ys = S" and ls: "lists_are s ls" by auto
  from delete_list_run [OF st ok, of True] obtain s' where
    r: "delete_list (Some k) True s = Some (Inr s')" "store_ok s'"
      "destroyed s' = destroyed s @ items_at (members s) ys"
    and un: "unchanged_outside s s' (set ys) {k}" and av: "avail s' = avail s + length ys + 1"
    by auto
  have "lists_are s' ls"
    by (rule lists_are_keep [OF ls un]) (use below above in fastforce)
  with r ab av show ?thesis by (auto simp: abs_list_def length_items_at_eq)
qed

section \<open>The run of the driver\<close>

lemma length_filter_le_less:
  "length (filter (\<lambda>x. x \<le> c) xs) + length (filter (\<lambda>x. c < x) xs) = length (xs :: 'b :: linorder list)"
  using sum_length_filter_compl [of "\<lambda>x. x \<le> c" xs] by (simp add: not_le)

lemma driver_sorted_copies:
  assumes st: "store_ok s" and av: "3 * (length nums + 1) \<le> avail s" and len: "length nums \<le> 20"
    and ne: "nums \<noteq> []"
  obtains r s1 s2 s3 a s4 s5 s6 d s7 s8 s9 zs ya yd where
    "create_list s = (Some r, s1)"
    "append_all (Some r) (map Some nums) s1 = Inr (replicate (length nums) 0, s2)"
    "print_list (Some r) s2 = Some (Inr ((of_nat (length nums), nums), s3))"
    "duplicate_list (Some r) (Some duplicate_number) s3 = Some (Inr (Some a, s4))"
    "sort_list (Some a) (Some sort_asc) s4 = Some (Inr (Some a, s5))"
    "print_list (Some a) s5 = Some (Inr ((of_nat (length nums), sort nums), s6))"
    "duplicate_list (Some r) (Some duplicate_number) s6 = Some (Inr (Some d, s7))"
    "sort_list (Some d) (Some sort_desc) s7 = Some (Inr (Some d, s8))"
    "print_list (Some d) s8 = Some (Inr ((of_nat (length nums), rev (sort nums)), s9))"
    "store_ok s9" "destroyed s9 = destroyed s" "avail s9 + 3 * (length nums + 1) = avail s"
    "lists_are s9 [(r, zs, \<lparr>elems = nums, pos = None\<rparr>), (a, ya, \<lparr>elems = sort nums, pos = None\<rparr>),
       (d, yd, \<lparr>elems = rev (sort nums), pos = None\<rparr>)]"
    "\<forall>x \<in> insert r (set zs). x < a" "\<forall>x \<in> insert a (set ya). a \<le> x \<and> x < d"
    "\<forall>x \<in> insert d (set yd). d \<le> x \<and> x < next_free s9"
proof -
  have len': "length nums < 2 ^ 32" using len by simp
  have tca: "total_cmp sort_asc" and tcd: "total_cmp sort_desc"
    by (auto simp: total_cmp_def sort_asc_def sort_desc_def)
  have av0: "length nums < avail s" using av by simp
  from build_print [OF st av0] obtain s1 s2 s3 zs where
    b: "create_list s = (Some (next_free s), s1)"
      "append_all (Some (next_free s)) (map Some nums) s1 = Inr (replicate (length nums) 0, s2)"
      "print_list (Some (next_free s)) s2 = Some (Inr ((of_nat (length nums), nums), s3))"
      "store_ok s3" "list_ok s3 (next_free s) zs" "abs_list s3 (next_free s) zs = \<lparr>elems = nums, pos = None\<rparr>"
      "\<forall>a \<in> set zs. next_free s \<le> a" "avail s3 + length nums + 1 = avail s" "destroyed s3 = destroyed s"
    by blast
  let ?r = "next_free s"
  have la3: "lists_are s3 ((?r, zs, \<lparr>elems = nums, pos = None\<rparr>) # [])" using b by simp
  have av3: "length nums < avail s3" using b(8) av by simp
  from dup_stage [OF b(4) la3 ne len' av3 tca] obtain s4 s5 s6 ya wa where
    a: "duplicate_list (Some ?r) (Some duplicate_number) s3 = Some (Inr (Some (next_free s3), s4))"
      "sort_list (Some (next_free s3)) (Some sort_asc) s4 = Some (Inr (Some (next_free s3), s5))"
      "print_list (Some (next_free s3)) s5 = Some (Inr ((of_nat (length nums), wa), s6))"
      "store_ok s6" "mset wa = mset nums" "successively sort_asc wa"
      "lists_are s6 ((?r, zs, \<lparr>elems = nums, pos = None\<rparr>) # [] @ [(next_free s3, ya, \<lparr>elems = wa, pos = None\<rparr>)])"
      "\<forall>x \<in> insert (next_free s3) (set ya). next_free s3 \<le> x"
      "avail s6 + length nums + 1 = avail s3" "destroyed s6 = destroyed s3"
    by blast
  let ?a = "next_free s3"
  have la6: "lists_are s6 ((?r, zs, \<lparr>elems = nums, pos = None\<rparr>) # [(?a, ya, \<lparr>elems = wa, pos = None\<rparr>)])"
    using a(7) by simp
  have av6: "length nums < avail s6" using a(9) b(8) av by simp
  from dup_stage [OF a(4) la6 ne len' av6 tcd] obtain s7 s8 s9 yd wd where
    d: "duplicate_list (Some ?r) (Some duplicate_number) s6 = Some (Inr (Some (next_free s6), s7))"
      "sort_list (Some (next_free s6)) (Some sort_desc) s7 = Some (Inr (Some (next_free s6), s8))"
      "print_list (Some (next_free s6)) s8 = Some (Inr ((of_nat (length nums), wd), s9))"
      "store_ok s9" "mset wd = mset nums" "successively sort_desc wd"
      "lists_are s9 ((?r, zs, \<lparr>elems = nums, pos = None\<rparr>) # [(?a, ya, \<lparr>elems = wa, pos = None\<rparr>)] @
         [(next_free s6, yd, \<lparr>elems = wd, pos = None\<rparr>)])"
      "\<forall>x \<in> insert (next_free s6) (set yd). next_free s6 \<le> x"
      "avail s9 + length nums + 1 = avail s6" "destroyed s9 = destroyed s6"
    by blast
  have sorted: "wa = sort nums" "wd = rev (sort nums)"
    using sort_asc_sorted_eq [OF a(6,5)] sort_desc_sorted_eq [OF d(6,5)] by simp_all
  have r3: "\<forall>x \<in> insert ?r (set zs). x < ?a" using lists_are_below [OF b(4) la3] by simp
  have r6: "\<forall>x \<in> insert ?a (set ya). x < next_free s6" using lists_are_below [OF a(4,7)] by simp
  have r9: "\<forall>x \<in> insert (next_free s6) (set yd). x < next_free s9" using lists_are_below [OF d(4,7)] by simp
  show thesis
    apply (rule that [of ?r s1 s2 s3 ?a s4 s5 s6 "next_free s6" s7 s8 s9 zs ya yd])
    using b(1-3,8,9) a(1-3,8-10) d(1-4,7-10) r3 r6 r9 unfolding sorted
    by simp_all
qed

lemma driver_copies:
  assumes st: "store_ok s" and av: "5 * (length nums + 1) \<le> avail s" and len: "length nums \<le> 20"
    and lo: "\<exists>x \<in> set nums. x \<le> 50" and hi: "\<exists>x \<in> set nums. 50 \<le> x"
  obtains s1 s2 s3 s4 s5 s6 s7 s8 s9 s10 s11 s12 s13 s14 s15 r a d le mo zs ya yd yl ym where
    "create_list s = (Some r, s1)"
    "append_all (Some r) (map Some nums) s1 = Inr (replicate (length nums) 0, s2)"
    "print_list (Some r) s2 = Some (Inr ((of_nat (length nums), nums), s3))"
    "duplicate_list (Some r) (Some duplicate_number) s3 = Some (Inr (Some a, s4))"
    "sort_list (Some a) (Some sort_asc) s4 = Some (Inr (Some a, s5))"
    "print_list (Some a) s5 = Some (Inr ((of_nat (length nums), sort nums), s6))"
    "duplicate_list (Some r) (Some duplicate_number) s6 = Some (Inr (Some d, s7))"
    "sort_list (Some d) (Some sort_desc) s7 = Some (Inr (Some d, s8))"
    "print_list (Some d) s8 = Some (Inr ((of_nat (length nums), rev (sort nums)), s9))"
    "search_in_list (Some r) (Some sort_asc) 50 (Some duplicate_number) s9 = Some (Inr (Some le, s10))"
    "sort_list (Some le) (Some sort_asc) s10 = Some (Inr (Some le, s11))"
    "print_list (Some le) s11 = Some (Inr ((of_nat (length (filter (\<lambda>x. x \<le> 50) nums)),
       sort (filter (\<lambda>x. x \<le> 50) nums)), s12))"
    "search_in_list (Some r) (Some sort_desc) 50 (Some duplicate_number) s12 = Some (Inr (Some mo, s13))"
    "sort_list (Some mo) (Some sort_asc) s13 = Some (Inr (Some mo, s14))"
    "print_list (Some mo) s14 = Some (Inr ((of_nat (length (filter (\<lambda>x. 50 \<le> x) nums)),
       sort (filter (\<lambda>x. 50 \<le> x) nums)), s15))"
    "store_ok s15" "destroyed s15 = destroyed s"
    "avail s15 + 3 * (length nums + 1) + length (filter (\<lambda>x. x \<le> 50) nums) +
       length (filter (\<lambda>x. 50 \<le> x) nums) + 2 = avail s"
    "lists_are s15 [(r, zs, \<lparr>elems = nums, pos = None\<rparr>), (a, ya, \<lparr>elems = sort nums, pos = None\<rparr>),
       (d, yd, \<lparr>elems = rev (sort nums), pos = None\<rparr>),
       (le, yl, \<lparr>elems = sort (filter (\<lambda>x. x \<le> 50) nums), pos = None\<rparr>),
       (mo, ym, \<lparr>elems = sort (filter (\<lambda>x. 50 \<le> x) nums), pos = None\<rparr>)]"
    "\<forall>x \<in> insert r (set zs). x < a" "\<forall>x \<in> insert a (set ya). a \<le> x \<and> x < d"
    "\<forall>x \<in> insert d (set yd). d \<le> x \<and> x < le" "\<forall>x \<in> insert le (set yl). le \<le> x \<and> x < mo"
    "\<forall>x \<in> insert mo (set ym). mo \<le> x"
proof -
  let ?L = "filter (\<lambda>x. x \<le> 50) nums" and ?M = "filter (\<lambda>x. 50 \<le> x) nums"
  have ne: "nums \<noteq> []" and len': "length nums < 2 ^ 32" using lo len by auto
  have lL: "length ?L \<le> length nums" by simp
  have tca: "total_cmp sort_asc" by (auto simp: total_cmp_def sort_asc_def)
  have cL: "filter (\<lambda>x. sort_asc x 50) nums = ?L" and cM: "filter (\<lambda>x. sort_desc x 50) nums = ?M"
    by (simp_all add: sort_asc_def sort_desc_def)
  have hL: "filter (\<lambda>x. sort_asc x 50) nums \<noteq> []" and hM: "filter (\<lambda>x. sort_desc x 50) nums \<noteq> []"
    using lo hi by (auto simp: cL cM filter_empty_conv)
  have av': "3 * (length nums + 1) \<le> avail s" using av by simp
  obtain r s1 s2 s3 a s4 s5 s6 d s7 s8 s9 zs ya yd where
    c: "create_list s = (Some r, s1)"
      "append_all (Some r) (map Some nums) s1 = Inr (replicate (length nums) 0, s2)"
      "print_list (Some r) s2 = Some (Inr ((of_nat (length nums), nums), s3))"
      "duplicate_list (Some r) (Some duplicate_number) s3 = Some (Inr (Some a, s4))"
      "sort_list (Some a) (Some sort_asc) s4 = Some (Inr (Some a, s5))"
      "print_list (Some a) s5 = Some (Inr ((of_nat (length nums), sort nums), s6))"
      "duplicate_list (Some r) (Some duplicate_number) s6 = Some (Inr (Some d, s7))"
      "sort_list (Some d) (Some sort_desc) s7 = Some (Inr (Some d, s8))"
      "print_list (Some d) s8 = Some (Inr ((of_nat (length nums), rev (sort nums)), s9))"
      "store_ok s9" "destroyed s9 = destroyed s" "avail s9 + 3 * (length nums + 1) = avail s"
      "lists_are s9 [(r, zs, \<lparr>elems = nums, pos = None\<rparr>), (a, ya, \<lparr>elems = sort nums, pos = None\<rparr>),
         (d, yd, \<lparr>elems = rev (sort nums), pos = None\<rparr>)]"
      "\<forall>x \<in> insert r (set zs). x < a" "\<forall>x \<in> insert a (set ya). a \<le> x \<and> x < d"
      "\<forall>x \<in> insert d (set yd). d \<le> x \<and> x < next_free s9"
    by (rule driver_sorted_copies [OF st av' len ne])
  let ?ls = "[(a, ya, \<lparr>elems = sort nums, pos = None\<rparr>), (d, yd, \<lparr>elems = rev (sort nums), pos = None\<rparr>)]"
  have la9: "lists_are s9 ((r, zs, \<lparr>elems = nums, pos = None\<rparr>) # ?ls)" using c(13) by simp
  have av9: "length nums < avail s9" using c(12) av by simp
  from search_stage [where c = sort_asc and ps = 50, OF c(10) la9 ne len' av9 tca hL] obtain s10 s11 s12 yl wl where
    l: "search_in_list (Some r) (Some sort_asc) 50 (Some duplicate_number) s9 = Some (Inr (Some (next_free s9), s10))"
      "sort_list (Some (next_free s9)) (Some sort_asc) s10 = Some (Inr (Some (next_free s9), s11))"
      "print_list (Some (next_free s9)) s11 = Some (Inr ((of_nat (length ?L), wl), s12))"
      "store_ok s12" "mset wl = mset ?L" "successively sort_asc wl"
      "lists_are s12 ((r, zs, \<lparr>elems = nums, pos = None\<rparr>) # ?ls @ [(next_free s9, yl, \<lparr>elems = wl, pos = None\<rparr>)])"
      "\<forall>x \<in> insert (next_free s9) (set yl). next_free s9 \<le> x"
      "avail s12 + length ?L + 1 = avail s9" "destroyed s12 = destroyed s9"
    unfolding cL by blast
  let ?le = "next_free s9"
  have av12: "length nums < avail s12" using l(9) c(12) av lL by presburger
  from search_stage [where c = sort_desc and ps = 50, OF l(4,7) ne len' av12 tca hM] obtain s13 s14 s15 ym wm where
    m: "search_in_list (Some r) (Some sort_desc) 50 (Some duplicate_number) s12 = Some (Inr (Some (next_free s12), s13))"
      "sort_list (Some (next_free s12)) (Some sort_asc) s13 = Some (Inr (Some (next_free s12), s14))"
      "print_list (Some (next_free s12)) s14 = Some (Inr ((of_nat (length ?M), wm), s15))"
      "store_ok s15" "mset wm = mset ?M" "successively sort_asc wm"
      "lists_are s15 ((r, zs, \<lparr>elems = nums, pos = None\<rparr>) # (?ls @ [(?le, yl, \<lparr>elems = wl, pos = None\<rparr>)]) @
         [(next_free s12, ym, \<lparr>elems = wm, pos = None\<rparr>)])"
      "\<forall>x \<in> insert (next_free s12) (set ym). next_free s12 \<le> x"
      "destroyed s15 = destroyed s12" "avail s15 + length ?M + 1 = avail s12"
    unfolding cM by blast
  have sorted: "wl = sort ?L" "wm = sort ?M"
    using sort_asc_sorted_eq [OF l(6,5)] sort_asc_sorted_eq [OF m(6,5)] by simp_all
  have r12: "\<forall>x \<in> insert ?le (set yl). x < next_free s12" using lists_are_below [OF l(4,7)] by simp
  show thesis
    apply (rule that [of r s1 s2 s3 a s4 s5 s6 d s7 s8 s9 ?le s10 s11 s12 "next_free s12" s13 s14 s15 zs ya yd yl ym])
    using c(1-9,11,12,14-16) l(1-3,8-10) m(1-4,7-10) r12 unfolding sorted
    by simp_all
qed

lemma driver_finish:
  assumes st: "store_ok s"
    and la: "lists_are s [(r, zs, \<lparr>elems = nums, pos = None\<rparr>), (a, ya, Sa), (d, yd, Sd),
       (le, yl, \<lparr>elems = wl, pos = None\<rparr>), (mo, ym, \<lparr>elems = wm, pos = None\<rparr>)]"
    and rr: "\<forall>x \<in> insert r (set zs). x < a" and ra: "\<forall>x \<in> insert a (set ya). a \<le> x \<and> x < d"
    and rd: "\<forall>x \<in> insert d (set yd). d \<le> x \<and> x < le" and rl: "\<forall>x \<in> insert le (set yl). le \<le> x \<and> x < mo"
    and rm: "\<forall>x \<in> insert mo (set ym). mo \<le> x"
    and big: "\<exists>x \<in> set nums. 50 < x" and len: "length nums < 2 ^ 32" and ne: "wm \<noteq> []"
  obtains s16 s17 s18 s19 s20 s21 s22 s23 s24 where
    "join_lists (Some le) (Some mo) s = Inr s16"
    "print_list (Some le) s16 = Some (Inr ((of_nat (length wl + length wm), wl @ wm), s17))"
    "remove_from_list (Some r) (Some sort_asc) 50 True s17 =
       Some (Inr (of_nat (length (filter (\<lambda>x. x \<le> 50) nums)), s18))"
    "sort_list (Some r) (Some sort_asc) s18 = Some (Inr (Some r, s19))"
    "print_list (Some r) s19 =
       Some (Inr ((of_nat (length (filter (\<lambda>x. 50 < x) nums)), sort (filter (\<lambda>x. 50 < x) nums)), s20))"
    "delete_list (Some r) True s20 = Some (Inr s21)" "delete_list (Some a) True s21 = Some (Inr s22)"
    "delete_list (Some d) True s22 = Some (Inr s23)" "delete_list (Some le) True s23 = Some (Inr s24)"
    "store_ok s24" "destroyed s24 = destroyed s @ filter (\<lambda>x. x \<le> 50) nums @
       sort (filter (\<lambda>x. 50 < x) nums) @ elems Sa @ elems Sd @ wl @ wm"
    "avail s24 = avail s + length nums + length (elems Sa) + length (elems Sd) + length wl + length wm + 5"
proof -
  have ord: "a < d" "d < le" "le < mo" using ra rd rl by auto
  have la': "lists_are s ([(r, zs, \<lparr>elems = nums, pos = None\<rparr>), (a, ya, Sa), (d, yd, Sd)] @
      [(le, yl, \<lparr>elems = wl, pos = None\<rparr>), (mo, ym, \<lparr>elems = wm, pos = None\<rparr>)])"
    using la by simp
  have below: "\<forall>(k, ys, S) \<in> set [(r, zs, \<lparr>elems = nums, pos = None\<rparr>), (a, ya, Sa), (d, yd, Sd)].
      \<forall>x \<in> insert k (set ys). x < le"
    using rr ra rd ord by fastforce
  from join_stage [OF st la' below rl rm ne] obtain s16 s17 where
    j: "join_lists (Some le) (Some mo) s = Inr s16"
      "print_list (Some le) s16 = Some (Inr ((of_nat (length wl + length wm), wl @ wm), s17))"
      "store_ok s17" "destroyed s17 = destroyed s" "avail s17 = Suc (avail s)"
    and la17: "lists_are s17 ([(r, zs, \<lparr>elems = nums, pos = None\<rparr>), (a, ya, Sa), (d, yd, Sd)] @
      [(le, yl @ ym, \<lparr>elems = wl @ wm, pos = None\<rparr>)])"
    by blast
  let ?rest = "[(a, ya, Sa), (d, yd, Sd), (le, yl @ ym, \<lparr>elems = wl @ wm, pos = None\<rparr>)]"
  have la17': "lists_are s17 ((r, zs, \<lparr>elems = nums, pos = None\<rparr>) # ?rest)" using la17 by simp
  have above: "\<forall>(k, ys, S) \<in> set ?rest. \<forall>x \<in> insert k (set ys). a \<le> x"
    using ra rd rl rm ord by fastforce
  from remove_stage [OF j(3) la17' rr above big len] obtain s18 s19 s20 ks where
    rmv: "remove_from_list (Some r) (Some sort_asc) 50 True s17 =
       Some (Inr (of_nat (length (filter (\<lambda>x. x \<le> 50) nums)), s18))"
      "sort_list (Some r) (Some sort_asc) s18 = Some (Inr (Some r, s19))"
      "print_list (Some r) s19 =
       Some (Inr ((of_nat (length (filter (\<lambda>x. 50 < x) nums)), sort (filter (\<lambda>x. 50 < x) nums)), s20))"
      "store_ok s20" "lists_are s20 ((r, ks, \<lparr>elems = sort (filter (\<lambda>x. 50 < x) nums), pos = None\<rparr>) # ?rest)"
      "\<forall>x \<in> insert r (set ks). x < a" "destroyed s20 = destroyed s17 @ filter (\<lambda>x. x \<le> 50) nums"
      "avail s20 = avail s17 + length (filter (\<lambda>x. x \<le> 50) nums)"
    by blast
  from delete_stage [OF rmv(4,5,6) above] obtain s21 where
    d1: "delete_list (Some r) True s20 = Some (Inr s21)" "store_ok s21" "lists_are s21 ?rest"
      "destroyed s21 = destroyed s20 @ sort (filter (\<lambda>x. 50 < x) nums)"
      "avail s21 = avail s20 + length (filter (\<lambda>x. 50 < x) nums) + 1"
    by auto
  have la21: "lists_are s21 ((a, ya, Sa) # [(d, yd, Sd), (le, yl @ ym, \<lparr>elems = wl @ wm, pos = None\<rparr>)])"
    using d1(3) by simp
  have "\<forall>(k, ys, S) \<in> set [(d, yd, Sd), (le, yl @ ym, \<lparr>elems = wl @ wm, pos = None\<rparr>)].
      \<forall>x \<in> insert k (set ys). d \<le> x"
    using rd rl rm ord by fastforce
  from delete_stage [OF d1(2) la21 _ this] ra obtain s22 where
    d2: "delete_list (Some a) True s21 = Some (Inr s22)" "store_ok s22"
      "lists_are s22 [(d, yd, Sd), (le, yl @ ym, \<lparr>elems = wl @ wm, pos = None\<rparr>)]"
      "destroyed s22 = destroyed s21 @ elems Sa" "avail s22 = avail s21 + length (elems Sa) + 1"
    by auto
  have la22: "lists_are s22 ((d, yd, Sd) # [(le, yl @ ym, \<lparr>elems = wl @ wm, pos = None\<rparr>)])"
    using d2(3) by simp
  have "\<forall>(k, ys, S) \<in> set [(le, yl @ ym, \<lparr>elems = wl @ wm, pos = None\<rparr>)]. \<forall>x \<in> insert k (set ys). le \<le> x"
    using rl rm ord by fastforce
  from delete_stage [OF d2(2) la22 _ this] rd obtain s23 where
    d3: "delete_list (Some d) True s22 = Some (Inr s23)" "store_ok s23"
      "lists_are s23 [(le, yl @ ym, \<lparr>elems = wl @ wm, pos = None\<rparr>)]"
      "destroyed s23 = destroyed s22 @ elems Sd" "avail s23 = avail s22 + length (elems Sd) + 1"
    by auto
  from delete_stage [OF d3(2,3) _, of "next_free s23"] lists_are_below [OF d3(2,3)] obtain s24 where
    d4: "delete_list (Some le) True s23 = Some (Inr s24)" "store_ok s24"
      "destroyed s24 = destroyed s23 @ wl @ wm" "avail s24 = avail s23 + length (wl @ wm) + 1"
    by auto
  have n: "length (filter (\<lambda>x. x \<le> 50) nums) + length (filter (\<lambda>x. 50 < x) nums) = length nums"
    by (rule length_filter_le_less)
  show thesis
    apply (rule that [of s16 s17 s18 s19 s20 s21 s22 s23 s24])
    using j rmv(1-3,7,8) d1(1,4,5) d2(1,4,5) d3(1,4,5) d4 n by simp_all
qed

text \<open>
  The whole run on numbers on both sides of 50: the printed lists, the
  destructor calls, and the free cells, which are those of the start.
\<close>

lemma driver_run:
  assumes st: "store_ok s" and av: "5 * (length nums + 1) \<le> avail s" and len: "length nums \<le> 20"
    and lo: "\<exists>x \<in> set nums. x \<le> 50" and hi: "\<exists>x \<in> set nums. 50 < x"
  shows "\<exists>s'. driver_main nums s = Some (Inr ((of_nat (length (filter (\<lambda>x. x \<le> 50) nums)),
      [(of_nat (length nums), nums), (of_nat (length nums), sort nums), (of_nat (length nums), rev (sort nums)),
       (of_nat (length (filter (\<lambda>x. x \<le> 50) nums)), sort (filter (\<lambda>x. x \<le> 50) nums)),
       (of_nat (length (filter (\<lambda>x. 50 \<le> x) nums)), sort (filter (\<lambda>x. 50 \<le> x) nums)),
       (of_nat (length (filter (\<lambda>x. x \<le> 50) nums) + length (filter (\<lambda>x. 50 \<le> x) nums)),
        sort (filter (\<lambda>x. x \<le> 50) nums) @ sort (filter (\<lambda>x. 50 \<le> x) nums)),
       (of_nat (length (filter (\<lambda>x. 50 < x) nums)), sort (filter (\<lambda>x. 50 < x) nums))]), s')) \<and>
     store_ok s' \<and> destroyed s' = destroyed s @ filter (\<lambda>x. x \<le> 50) nums @ sort (filter (\<lambda>x. 50 < x) nums) @
       sort nums @ rev (sort nums) @ sort (filter (\<lambda>x. x \<le> 50) nums) @ sort (filter (\<lambda>x. 50 \<le> x) nums) \<and>
     avail s' = avail s"
proof -
  have hi': "\<exists>x \<in> set nums. 50 \<le> x" using hi less_imp_le by blast
  obtain s1 s2 s3 s4 s5 s6 s7 s8 s9 s10 s11 s12 s13 s14 s15
      r a d le mo zs ya yd yl ym where
    c: "create_list s = (Some r, s1)"
      "append_all (Some r) (map Some nums) s1 = Inr (replicate (length nums) 0, s2)"
      "print_list (Some r) s2 = Some (Inr ((of_nat (length nums), nums), s3))"
      "duplicate_list (Some r) (Some duplicate_number) s3 = Some (Inr (Some a, s4))"
      "sort_list (Some a) (Some sort_asc) s4 = Some (Inr (Some a, s5))"
      "print_list (Some a) s5 = Some (Inr ((of_nat (length nums), sort nums), s6))"
      "duplicate_list (Some r) (Some duplicate_number) s6 = Some (Inr (Some d, s7))"
      "sort_list (Some d) (Some sort_desc) s7 = Some (Inr (Some d, s8))"
      "print_list (Some d) s8 = Some (Inr ((of_nat (length nums), rev (sort nums)), s9))"
      "search_in_list (Some r) (Some sort_asc) 50 (Some duplicate_number) s9 = Some (Inr (Some le, s10))"
      "sort_list (Some le) (Some sort_asc) s10 = Some (Inr (Some le, s11))"
      "print_list (Some le) s11 = Some (Inr ((of_nat (length (filter (\<lambda>x. x \<le> 50) nums)),
         sort (filter (\<lambda>x. x \<le> 50) nums)), s12))"
      "search_in_list (Some r) (Some sort_desc) 50 (Some duplicate_number) s12 = Some (Inr (Some mo, s13))"
      "sort_list (Some mo) (Some sort_asc) s13 = Some (Inr (Some mo, s14))"
      "print_list (Some mo) s14 = Some (Inr ((of_nat (length (filter (\<lambda>x. 50 \<le> x) nums)),
         sort (filter (\<lambda>x. 50 \<le> x) nums)), s15))"
      "store_ok s15" "destroyed s15 = destroyed s"
      "avail s15 + 3 * (length nums + 1) + length (filter (\<lambda>x. x \<le> 50) nums) +
         length (filter (\<lambda>x. 50 \<le> x) nums) + 2 = avail s"
    and la: "lists_are s15 [(r, zs, \<lparr>elems = nums, pos = None\<rparr>), (a, ya, \<lparr>elems = sort nums, pos = None\<rparr>),
       (d, yd, \<lparr>elems = rev (sort nums), pos = None\<rparr>),
       (le, yl, \<lparr>elems = sort (filter (\<lambda>x. x \<le> 50) nums), pos = None\<rparr>),
       (mo, ym, \<lparr>elems = sort (filter (\<lambda>x. 50 \<le> x) nums), pos = None\<rparr>)]"
    and reg: "\<forall>x \<in> insert r (set zs). x < a" "\<forall>x \<in> insert a (set ya). a \<le> x \<and> x < d"
      "\<forall>x \<in> insert d (set yd). d \<le> x \<and> x < le" "\<forall>x \<in> insert le (set yl). le \<le> x \<and> x < mo"
      "\<forall>x \<in> insert mo (set ym). mo \<le> x"
    by (rule driver_copies [OF st av len lo hi'])
  have len': "length nums < 2 ^ 32" using len by simp
  have "filter (\<lambda>x. 50 \<le> x) nums \<noteq> []" using hi' by (auto simp: filter_empty_conv)
  then have ne: "sort (filter (\<lambda>x. 50 \<le> x) nums) \<noteq> []" by (metis length_0_conv length_sort)
  obtain s16 s17 s18 s19 s20 s21 s22 s23 s24 where
    f: "join_lists (Some le) (Some mo) s15 = Inr s16"
      "print_list (Some le) s16 = Some (Inr ((of_nat (length (sort (filter (\<lambda>x. x \<le> 50) nums)) +
         length (sort (filter (\<lambda>x. 50 \<le> x) nums))),
         sort (filter (\<lambda>x. x \<le> 50) nums) @ sort (filter (\<lambda>x. 50 \<le> x) nums)), s17))"
      "remove_from_list (Some r) (Some sort_asc) 50 True s17 =
         Some (Inr (of_nat (length (filter (\<lambda>x. x \<le> 50) nums)), s18))"
      "sort_list (Some r) (Some sort_asc) s18 = Some (Inr (Some r, s19))"
      "print_list (Some r) s19 =
         Some (Inr ((of_nat (length (filter (\<lambda>x. 50 < x) nums)), sort (filter (\<lambda>x. 50 < x) nums)), s20))"
      "delete_list (Some r) True s20 = Some (Inr s21)" "delete_list (Some a) True s21 = Some (Inr s22)"
      "delete_list (Some d) True s22 = Some (Inr s23)" "delete_list (Some le) True s23 = Some (Inr s24)"
      "store_ok s24" "destroyed s24 = destroyed s15 @ filter (\<lambda>x. x \<le> 50) nums @
         sort (filter (\<lambda>x. 50 < x) nums) @ sort nums @ rev (sort nums) @
         sort (filter (\<lambda>x. x \<le> 50) nums) @ sort (filter (\<lambda>x. 50 \<le> x) nums)"
      "avail s24 = avail s15 + length nums + length (sort nums) + length (rev (sort nums)) +
         length (sort (filter (\<lambda>x. x \<le> 50) nums)) + length (sort (filter (\<lambda>x. 50 \<le> x) nums)) + 5"
    by (rule driver_finish [OF c(16) la reg hi len' ne], rule that) simp_all
  have "driver_main nums s = Some (Inr ((of_nat (length (filter (\<lambda>x. x \<le> 50) nums)),
      [(of_nat (length nums), nums), (of_nat (length nums), sort nums), (of_nat (length nums), rev (sort nums)),
       (of_nat (length (filter (\<lambda>x. x \<le> 50) nums)), sort (filter (\<lambda>x. x \<le> 50) nums)),
       (of_nat (length (filter (\<lambda>x. 50 \<le> x) nums)), sort (filter (\<lambda>x. 50 \<le> x) nums)),
       (of_nat (length (filter (\<lambda>x. x \<le> 50) nums) + length (filter (\<lambda>x. 50 \<le> x) nums)),
        sort (filter (\<lambda>x. x \<le> 50) nums) @ sort (filter (\<lambda>x. 50 \<le> x) nums)),
       (of_nat (length (filter (\<lambda>x. 50 < x) nums)), sort (filter (\<lambda>x. 50 < x) nums))]), s24))"
    unfolding driver_main_def Let_def
    by (simp only: c(1-15) f(1-9) bind_run_Some_Inr prod.case length_sort)
  moreover have "avail s24 = avail s" using c(18) f(12) by simp
  ultimately show ?thesis using f(10,11) c(17) by auto
qed


section \<open>Properties\<close>

text \<open>
  C22. A run of the driver whose numbers lie on both sides of 50, with memory
  for the five lists: it prints the numbers, their ascending and descending
  sort, the sorted numbers at most 50 and at least 50, the two joined, and the
  sorted numbers above 50 after the removal, reports the removal count, and
  hands every item of every list to free exactly once.
\<close>

theorem driver_main_output:
  assumes st: "store_ok s" and av: "5 * (length nums + 1) \<le> avail s" and len: "length nums \<le> 20"
    and lo: "\<exists>x \<in> set nums. x \<le> 50" and hi: "\<exists>x \<in> set nums. 50 < x"
  shows "\<exists>s'. driver_main nums s = Some (Inr ((of_nat (length (filter (\<lambda>x. x \<le> 50) nums)),
      [(of_nat (length nums), nums), (of_nat (length nums), sort nums), (of_nat (length nums), rev (sort nums)),
       (of_nat (length (filter (\<lambda>x. x \<le> 50) nums)), sort (filter (\<lambda>x. x \<le> 50) nums)),
       (of_nat (length (filter (\<lambda>x. 50 \<le> x) nums)), sort (filter (\<lambda>x. 50 \<le> x) nums)),
       (of_nat (length (filter (\<lambda>x. x \<le> 50) nums) + length (filter (\<lambda>x. 50 \<le> x) nums)),
        sort (filter (\<lambda>x. x \<le> 50) nums) @ sort (filter (\<lambda>x. 50 \<le> x) nums)),
       (of_nat (length (filter (\<lambda>x. 50 < x) nums)), sort (filter (\<lambda>x. 50 < x) nums))]), s')) \<and>
     store_ok s' \<and> destroyed s' = destroyed s @ filter (\<lambda>x. x \<le> 50) nums @ sort (filter (\<lambda>x. 50 < x) nums) @
       sort nums @ rev (sort nums) @ sort (filter (\<lambda>x. x \<le> 50) nums) @ sort (filter (\<lambda>x. 50 \<le> x) nums)"
  using driver_run [OF st av len lo hi] by blast

theorem driver_main_output_witness:
  "\<exists>s'. driver_main [70, 20] ex_driver_store = Some (Inr ((1, [(2, [70, 20]), (2, [20, 70]), (2, [70, 20]),
       (1, [20]), (1, [70]), (2, [20, 70]), (1, [70])]), s')) \<and>
     store_ok s' \<and> destroyed s' = [20, 70, 20, 70, 70, 20, 20, 70]"
proof -
  have st: "store_ok ex_driver_store" by (simp add: ex_driver_store_def store_ok_def)
  from driver_main_output [OF st, of "[70, 20]"] show ?thesis by (simp add: ex_driver_store_def)
qed

text \<open>
  C23. When no number is at most 50 (for example, every \<open>rand() % 100\<close> drew
  above 50), search_in_list returns NULL for the list \<open>less\<close>, and the
  driver's next \<open>print_list(less, ...)\<close> reads \<open>list->total_members\<close>
  through the NULL pointer: the run ends in undefined behaviour.
\<close>

theorem driver_main_no_small_numbers:
  assumes st: "store_ok s" and av: "3 * (length nums + 1) \<le> avail s" and len: "length nums \<le> 20"
    and ne: "nums \<noteq> []" and big: "\<forall>x \<in> set nums. 50 < x"
  shows "driver_main nums s = Some (Inl Null_dereference)"
proof -
  obtain r s1 s2 s3 a s4 s5 s6 d s7 s8 s9 zs ya yd where
    c: "create_list s = (Some r, s1)"
      "append_all (Some r) (map Some nums) s1 = Inr (replicate (length nums) 0, s2)"
      "print_list (Some r) s2 = Some (Inr ((of_nat (length nums), nums), s3))"
      "duplicate_list (Some r) (Some duplicate_number) s3 = Some (Inr (Some a, s4))"
      "sort_list (Some a) (Some sort_asc) s4 = Some (Inr (Some a, s5))"
      "print_list (Some a) s5 = Some (Inr ((of_nat (length nums), sort nums), s6))"
      "duplicate_list (Some r) (Some duplicate_number) s6 = Some (Inr (Some d, s7))"
      "sort_list (Some d) (Some sort_desc) s7 = Some (Inr (Some d, s8))"
      "print_list (Some d) s8 = Some (Inr ((of_nat (length nums), rev (sort nums)), s9))"
      "store_ok s9" "destroyed s9 = destroyed s" "avail s9 + 3 * (length nums + 1) = avail s"
      "lists_are s9 [(r, zs, \<lparr>elems = nums, pos = None\<rparr>), (a, ya, \<lparr>elems = sort nums, pos = None\<rparr>),
         (d, yd, \<lparr>elems = rev (sort nums), pos = None\<rparr>)]"
      "\<forall>x \<in> insert r (set zs). x < a" "\<forall>x \<in> insert a (set ya). a \<le> x \<and> x < d"
      "\<forall>x \<in> insert d (set yd). d \<le> x \<and> x < next_free s9"
    by (rule driver_sorted_copies [OF st av len ne])
  from c(13) have ok: "list_ok s9 r zs" and its: "items_at (members s9) zs = nums"
    by (auto simp: abs_list_def)
  have lz: "length zs = length nums" using its by (metis length_items_at_eq)
  with ne len have zs: "zs \<noteq> []" "length zs < 2 ^ 32" by auto
  have none: "List.map_filter (\<lambda>x. if sort_asc x 50 then duplicate_number x else None) nums = []"
    unfolding duplicate_number_def using big by (auto simp: map_filter_if_Some filter_empty_conv sort_asc_def)
  from search_in_list_run [OF c(10) ok zs, of sort_asc 50 duplicate_number] obtain p s10 where
    sr: "search_in_list (Some r) (Some sort_asc) 50 (Some duplicate_number) s9 = Some (Inr (p, s10))"
    and res: "case p of None \<Rightarrow> True | Some n \<Rightarrow> take (avail s9 - 1)
      (List.map_filter (\<lambda>x. if sort_asc x 50 then duplicate_number x else None) nums) \<noteq> []"
    unfolding its by (auto split: option.splits)
  from res none have p: "p = None" by (cases p) simp_all
  have srt: "sort_list None (Some sort_asc) s10 = Some (Inr (None, s10))" by (simp add: sort_list_def)
  have pr: "print_list None s10 = Some (Inl Null_dereference)"
    by (simp add: print_list_def list_size_def get_list_def)
  show ?thesis
    unfolding driver_main_def Let_def
    by (simp only: c(1-9) sr p srt pr bind_run_Some_Inr bind_run_Some_Inl prod.case)
qed


theorem driver_main_no_small_numbers_witness:
  "driver_main [70] ex_driver_store = Some (Inl Null_dereference)"
proof -
  have st: "store_ok ex_driver_store" by (simp add: ex_driver_store_def store_ok_def)
  from driver_main_no_small_numbers [OF st, of "[70]"] show ?thesis by (simp add: ex_driver_store_def)
qed

text \<open>
  C28. A run of the driver whose numbers lie on both sides of 50, with memory
  for the five lists, returns every object it allocates: the five list
  headers and every member (of the removed numbers, of the joined list, and of
  the lists deleted at the end) are freed, so the store ends with as many free
  cells as it started with.
\<close>

theorem driver_main_frees_all:
  assumes "store_ok s" and "5 * (length nums + 1) \<le> avail s" and "length nums \<le> 20"
    and "\<exists>x \<in> set nums. x \<le> 50" and "\<exists>x \<in> set nums. 50 < x"
  shows "\<exists>r s'. driver_main nums s = Some (Inr (r, s')) \<and> store_ok s' \<and> avail s' = avail s"
  using driver_run [OF assms] by blast

theorem driver_main_frees_all_witness:
  "\<exists>r s'. driver_main [70, 20] ex_driver_store = Some (Inr (r, s')) \<and> store_ok s' \<and> avail s' = 15"
proof -
  have st: "store_ok ex_driver_store" by (simp add: ex_driver_store_def store_ok_def)
  from driver_main_frees_all [OF st, of "[70, 20]"] show ?thesis by (simp add: ex_driver_store_def)
qed

end
