(* ===== verification/Scenarios.thy ===== *)
theory Scenarios
  imports Api Driver
begin

text \<open>
  The scenarios of section 8 of the specification, run as client programs
  through the interface and proved for every input: each is a sequence of
  \<open>list_call\<close>s executed by \<open>run_calls\<close> on an empty store with room for
  \<open>n\<close> objects, and its results follow from the component lemmas (create and
  fill, sort, remove, iterate), composed through \<open>run_calls_append\<close>. The
  criterion "\<open>< 50\<close>" of the removal scenario is the caller's callback
  \<open>below\<close>, with the threshold as its parameter; the spec's concrete runs are
  the witnesses.
\<close>

section \<open>Client programs\<close>

text \<open>An empty store with room for \<open>n\<close> objects.\<close>

definition scenario_store :: "nat \<Rightarrow> int store" where
  "scenario_store n = \<lparr>members = Map.empty, lists = Map.empty, next_free = 0, avail = n, destroyed = []\<rparr>"

text \<open>A criterion callback: the item is below the parameter.\<close>

definition below :: "int \<Rightarrow> int \<Rightarrow> bool" where
  "below x p = (x < p)"

text \<open>Create a list (at address 0 of the empty store) and append the items.\<close>

definition fill_calls :: "int list \<Rightarrow> (int, int) list_call list" where
  "fill_calls xs = Create_list # map (\<lambda>x. Append_to_list (Some 0) (Some x)) xs"

text \<open>The results of a run, without the final store.\<close>

definition run_results :: "(int, int) list_call list \<Rightarrow> int store \<Rightarrow> (err + int call_result list) option" where
  "run_results cs s = map_option (map_sum id fst) (run_calls cs s)"

section \<open>Running the scenarios\<close>

lemma scenario_fill:
  assumes "length xs < n"
  shows "\<exists>s1 zs. run_calls (fill_calls xs) (scenario_store n) =
       Some (Inr (List_ptr (Some 0) # replicate (length xs) (Int_val 0), s1)) \<and>
     store_ok s1 \<and> list_ok s1 0 zs \<and> abs_list s1 0 zs = \<lparr>elems = xs, pos = None\<rparr> \<and>
     destroyed s1 = [] \<and> length zs = length xs"
proof -
  have st: "store_ok (scenario_store n)" by (simp add: scenario_store_def store_ok_def)
  from run_calls_fill [OF st, of xs] assms obtain s1 zs where
    r: "run_calls (fill_calls xs) (scenario_store n) =
       Some (Inr (List_ptr (Some 0) # replicate (length xs) (Int_val 0), s1))"
    "store_ok s1" "list_ok s1 0 zs" "abs_list s1 0 zs = \<lparr>elems = xs, pos = None\<rparr>" "destroyed s1 = []"
    by (auto simp: fill_calls_def scenario_store_def)
  moreover from r(4) have "length zs = length xs"
    by (metis length_items_at abs_list_def seq.select_convs(1))
  ultimately show ?thesis by blast
qed

lemma scenario_sort_run:
  assumes "xs \<noteq> []" and "length xs < n" and "length xs < 2 ^ 32" and "total_cmp cmp"
  shows "\<exists>ws. mset ws = mset xs \<and> successively cmp ws \<and>
     run_results (fill_calls xs @ [Sort_list (Some 0) (Some cmp)] @
       replicate (Suc (length xs)) (Get_next_item (Some 0))) (scenario_store n) =
     Some (Inr (List_ptr (Some 0) # replicate (length xs) (Int_val 0) @
       List_ptr (Some 0) # map (\<lambda>x. Item_ptr (Some x)) ws @ [Item_ptr None]))"
proof -
  from scenario_fill [OF assms(2)] obtain s1 zs where
    run1: "run_calls (fill_calls xs) (scenario_store n) =
       Some (Inr (List_ptr (Some 0) # replicate (length xs) (Int_val 0), s1))"
    and ok1: "list_ok s1 0 zs" and ab1: "abs_list s1 0 zs = \<lparr>elems = xs, pos = None\<rparr>"
    and len: "length zs = length xs"
    by blast
  from len assms(1) have ne: "zs \<noteq> []" by auto
  from sort_list_run [OF ok1 ne assms(4)] len assms(3) obtain s2 where
    sr: "sort_list (Some 0) (Some cmp) s1 = Some (Inr (Some 0, s2))" and ok2: "list_ok s2 0 zs"
    and m: "mset (elems (abs_list s2 0 zs)) = mset (elems (abs_list s1 0 zs))"
    and sc: "successively cmp (elems (abs_list s2 0 zs))"
    and p: "pos (abs_list s2 0 zs) = pos (abs_list s1 0 zs)"
    by auto
  let ?ws = "elems (abs_list s2 0 zs)"
  have ab2: "abs_list s2 0 zs = \<lparr>elems = ?ws, pos = None\<rparr>"
    using p ab1 by (cases "abs_list s2 0 zs") simp
  have lw: "length ?ws = length xs" using m ab1 by (metis seq.select_convs(1) size_mset)
  from run_calls_iterate [OF ok2 ab2] obtain s3 where
    run3: "run_calls (replicate (Suc (length ?ws)) (Get_next_item (Some 0)) :: (int, int) list_call list) s2 =
       Some (Inr (map (\<lambda>x. Item_ptr (Some x)) ?ws @ [Item_ptr None], s3))"
    by blast
  have "run_calls ([Sort_list (Some 0) (Some cmp)] @ replicate (Suc (length xs)) (Get_next_item (Some 0)) ::
      (int, int) list_call list) s1 = Some (Inr (List_ptr (Some 0) # map (\<lambda>x. Item_ptr (Some x)) ?ws @ [Item_ptr None], s3))"
    using sr run3 unfolding lw [symmetric] by (simp add: exec_call_def)
  with run1 have "run_results (fill_calls xs @ [Sort_list (Some 0) (Some cmp)] @
       replicate (Suc (length xs)) (Get_next_item (Some 0))) (scenario_store n) =
     Some (Inr ((List_ptr (Some 0) # replicate (length xs) (Int_val 0)) @
       List_ptr (Some 0) # map (\<lambda>x. Item_ptr (Some x)) ?ws @ [Item_ptr None]))"
    by (simp only: run_results_def run_calls_append option.case sum.case prod.case) simp
  with m sc ab1 show ?thesis by (intro exI [of _ ?ws]) simp
qed

section \<open>Properties\<close>

text \<open>
  C25. Spec scenario, for every input: a client that creates a list, appends
  the items \<open>xs\<close>, sorts with the driver's ascending comparator and iterates
  gets the list pointer, a 0 per append, the list pointer from the sort, the
  items in ascending order and then no item.
\<close>

theorem scenario_sort_ascending:
  assumes "xs \<noteq> []" and "length xs < n" and "length xs < 2 ^ 32"
  shows "run_results (fill_calls xs @ [Sort_list (Some 0) (Some sort_asc)] @
       replicate (Suc (length xs)) (Get_next_item (Some 0))) (scenario_store n) =
     Some (Inr (List_ptr (Some 0) # replicate (length xs) (Int_val 0) @
       List_ptr (Some 0) # map (\<lambda>x. Item_ptr (Some x)) (sort xs) @ [Item_ptr None]))"
proof -
  have t: "total_cmp sort_asc" by (auto simp: total_cmp_def sort_asc_def)
  from scenario_sort_run [OF assms t] obtain ws where
    "mset ws = mset xs" "successively sort_asc ws" and r: "run_results (fill_calls xs @ [Sort_list (Some 0) (Some sort_asc)] @
       replicate (Suc (length xs)) (Get_next_item (Some 0))) (scenario_store n) =
     Some (Inr (List_ptr (Some 0) # replicate (length xs) (Int_val 0) @
       List_ptr (Some 0) # map (\<lambda>x. Item_ptr (Some x)) ws @ [Item_ptr None]))"
    by blast
  with sort_asc_sorted_eq show ?thesis by metis
qed

theorem scenario_sort_ascending_witness:
  "run_results (fill_calls [5, 3, 8, 1] @ [Sort_list (Some 0) (Some sort_asc)] @
       replicate 5 (Get_next_item (Some 0))) (scenario_store 10) =
   Some (Inr ([List_ptr (Some 0), Int_val 0, Int_val 0, Int_val 0, Int_val 0, List_ptr (Some 0),
     Item_ptr (Some 1), Item_ptr (Some 3), Item_ptr (Some 5), Item_ptr (Some 8), Item_ptr None]))"
proof -
  have r: "replicate 5 x = [x, x, x, x, x]" for x :: "(int, int) list_call"
    by (simp add: numeral_eq_Suc)
  show ?thesis
    using scenario_sort_ascending [of "[5, 3, 8, 1]" 10] by (simp add: r)
qed

text \<open>
  C26. Spec scenario, for every input: the same client sorting with the
  driver's descending comparator gets the items in descending order.
\<close>

theorem scenario_sort_descending:
  assumes "xs \<noteq> []" and "length xs < n" and "length xs < 2 ^ 32"
  shows "run_results (fill_calls xs @ [Sort_list (Some 0) (Some sort_desc)] @
       replicate (Suc (length xs)) (Get_next_item (Some 0))) (scenario_store n) =
     Some (Inr (List_ptr (Some 0) # replicate (length xs) (Int_val 0) @
       List_ptr (Some 0) # map (\<lambda>x. Item_ptr (Some x)) (rev (sort xs)) @ [Item_ptr None]))"
proof -
  have t: "total_cmp sort_desc" by (auto simp: total_cmp_def sort_desc_def)
  from scenario_sort_run [OF assms t] obtain ws where
    "mset ws = mset xs" "successively sort_desc ws" and r: "run_results (fill_calls xs @ [Sort_list (Some 0) (Some sort_desc)] @
       replicate (Suc (length xs)) (Get_next_item (Some 0))) (scenario_store n) =
     Some (Inr (List_ptr (Some 0) # replicate (length xs) (Int_val 0) @
       List_ptr (Some 0) # map (\<lambda>x. Item_ptr (Some x)) ws @ [Item_ptr None]))"
    by blast
  with sort_desc_sorted_eq show ?thesis by metis
qed

theorem scenario_sort_descending_witness:
  "run_results (fill_calls [5, 3, 8, 1] @ [Sort_list (Some 0) (Some sort_desc)] @
       replicate 5 (Get_next_item (Some 0))) (scenario_store 10) =
   Some (Inr ([List_ptr (Some 0), Int_val 0, Int_val 0, Int_val 0, Int_val 0, List_ptr (Some 0),
     Item_ptr (Some 8), Item_ptr (Some 5), Item_ptr (Some 3), Item_ptr (Some 1), Item_ptr None]))"
proof -
  have r: "replicate 5 x = [x, x, x, x, x]" for x :: "(int, int) list_call"
    by (simp add: numeral_eq_Suc)
  show ?thesis
    using scenario_sort_descending [of "[5, 3, 8, 1]" 10] by (simp add: r)
qed

text \<open>
  C27. Spec scenario, for every input and threshold: a client that creates
  a list, appends the items \<open>xs\<close>, removes the items below \<open>p\<close> with a
  destructor and iterates gets the number of removed items, then the items
  not below \<open>p\<close> in their order and no item; the destructor received exactly
  the items below \<open>p\<close>, in order.
\<close>

theorem scenario_remove_below:
  assumes "xs \<noteq> []" and "length xs < n"
  shows "map_option (map_sum id (\<lambda>(rs, s). (rs, destroyed s)))
     (run_calls (fill_calls xs @ [Remove_from_list (Some 0) (Some below) p True] @
       replicate (Suc (length (filter (\<lambda>x. \<not> x < p) xs))) (Get_next_item (Some 0))) (scenario_store n)) =
   Some (Inr (List_ptr (Some 0) # replicate (length xs) (Int_val 0) @
     Int_val (of_nat (length (filter (\<lambda>x. x < p) xs))) #
     map (\<lambda>x. Item_ptr (Some x)) (filter (\<lambda>x. \<not> x < p) xs) @ [Item_ptr None],
     filter (\<lambda>x. x < p) xs))"
proof -
  from scenario_fill [OF assms(2)] obtain s1 zs where
    run1: "run_calls (fill_calls xs) (scenario_store n) =
       Some (Inr (List_ptr (Some 0) # replicate (length xs) (Int_val 0), s1))"
    and st1: "store_ok s1" and ok1: "list_ok s1 0 zs"
    and ab1: "abs_list s1 0 zs = \<lparr>elems = xs, pos = None\<rparr>"
    and d1: "destroyed s1 = []" and len: "length zs = length xs"
    by blast
  from len assms(1) have ne: "zs \<noteq> []" by auto
  from ab1 have p1: "pos (abs_list s1 0 zs) = None" by simp
  from remove_from_list_abs [OF st1 ok1 ne p1, of below p True] obtain s2 ys where
    rm: "remove_from_list (Some 0) (Some below) p True s1 =
       Some (Inr (of_nat (length (filter (\<lambda>x. below x p) (elems (abs_list s1 0 zs)))), s2))"
    and ok2: "list_ok s2 0 ys" and ab2: "abs_list s2 0 ys = seq_remove (\<lambda>x. below x p) (abs_list s1 0 zs)"
    and d2: "destroyed s2 = destroyed s1 @ (if True then filter (\<lambda>x. below x p) (elems (abs_list s1 0 zs)) else [])"
    by blast
  have ab2': "abs_list s2 0 ys = \<lparr>elems = filter (\<lambda>x. \<not> x < p) xs, pos = None\<rparr>"
    using ab2 ab1 by (simp add: seq_remove_def below_def)
  from run_calls_iterate [OF ok2 ab2'] obtain s3 where
    run3: "run_calls (replicate (Suc (length (filter (\<lambda>x. \<not> x < p) xs))) (Get_next_item (Some 0)) ::
        (int, int) list_call list) s2 =
      Some (Inr (map (\<lambda>x. Item_ptr (Some x)) (filter (\<lambda>x. \<not> x < p) xs) @ [Item_ptr None], s3))"
    and co: "cursor_only s2 s3 0"
    by blast
  have d3: "destroyed s3 = filter (\<lambda>x. x < p) xs"
    using co d2 d1 ab1 by (simp add: cursor_only_def below_def)
  have "run_calls ([Remove_from_list (Some 0) (Some below) p True] @
        replicate (Suc (length (filter (\<lambda>x. \<not> x < p) xs))) (Get_next_item (Some 0))) s1 =
      Some (Inr (Int_val (of_nat (length (filter (\<lambda>x. x < p) xs))) #
        map (\<lambda>x. Item_ptr (Some x)) (filter (\<lambda>x. \<not> x < p) xs) @ [Item_ptr None], s3))"
    using rm run3 ab1 by (simp add: exec_call_def below_def)
  with run1 d3 show ?thesis
    by (simp only: run_calls_append option.case sum.case prod.case) simp
qed


theorem scenario_remove_below_witness:
  "map_option (map_sum id (\<lambda>(rs, s). (rs, destroyed s)))
     (run_calls (fill_calls [10, 60, 20, 70] @ [Remove_from_list (Some 0) (Some below) 50 True] @
       replicate 3 (Get_next_item (Some 0))) (scenario_store 10)) =
   Some (Inr ([List_ptr (Some 0), Int_val 0, Int_val 0, Int_val 0, Int_val 0, Int_val 2,
     Item_ptr (Some 60), Item_ptr (Some 70), Item_ptr None], [10, 20]))"
proof -
  have r: "replicate 3 x = [x, x, x]" for x :: "(int, int) list_call"
    by (simp add: numeral_eq_Suc)
  show ?thesis
    using scenario_remove_below [of "[10, 60, 20, 70]" 10 50] by (simp add: r)
qed

end
