(* ===== verification/Interface.thy ===== *)
theory Interface
  imports Api Driver
begin

text \<open>
  The whole interface \<open>src/liblist.h\<close> against its abstract contract. The
  abstract state \<open>astate\<close> holds the lists a client can name (a map from list
  pointers to the sequences of \<open>Seq_Spec\<close>), the allocator's frontier and free
  cells, which decide the pointers the next allocations return, and the trace
  of destructor calls. \<open>spec_exec\<close> gives, for each call of the interface, the
  result and new abstract state the contract promises, following the code's
  defined branches (NULL arguments, empty lists, exhausted memory), and \<open>None\<close>
  where the code has undefined behaviour or where the contract makes no
  promise (a dangling list pointer, \<open>join_lists\<close> of a list with itself or of
  an empty second list after a non-empty first, \<open>remove_from_list\<close> while a
  cursor is set, a count that would reach \<open>2^32\<close>, a sort that runs forever).
  \<open>heap_inv\<close> relates a store to a layout \<open>H\<close>, the member addresses of each
  live list, pairwise disjoint, and \<open>abs_state\<close> reads the abstract state off
  the store through \<open>abs_list\<close>. The refinement theorem states that every call
  sequence the contract accepts runs on the store, returns the results the
  contract computes and ends in the abstract state it computes.
\<close>

section \<open>The abstract interface\<close>

record 'a astate =
  alists :: "addr \<rightharpoonup> 'a seq"
  anext :: addr
  aavail :: nat
  adestroyed :: "'a list"

definition spec_create :: "'a astate \<Rightarrow> 'a call_result \<times> 'a astate" where
  "spec_create A =
     (if aavail A = 0 then (List_ptr None, A)
      else (List_ptr (Some (anext A)),
            A\<lparr>alists := (alists A)(anext A \<mapsto> seq_empty), anext := Suc (anext A), aavail := aavail A - 1\<rparr>))"

definition spec_append :: "ptr \<Rightarrow> 'a option \<Rightarrow> 'a astate \<Rightarrow> ('a call_result \<times> 'a astate) option" where
  "spec_append l it A =
     (case it of
        None \<Rightarrow> Some (Int_val 1, A)
      | Some x \<Rightarrow>
          if aavail A = 0 then Some (Int_val 2, A)
          else (case l of
                  None \<Rightarrow> None
                | Some k \<Rightarrow> map_option (\<lambda>S. (Int_val 0,
                    A\<lparr>alists := (alists A)(k \<mapsto> seq_append x S), anext := Suc (anext A),
                      aavail := aavail A - 1\<rparr>)) (alists A k)))"

definition spec_size :: "ptr \<Rightarrow> 'a astate \<Rightarrow> ('a call_result \<times> 'a astate) option" where
  "spec_size l A =
     (case l of
        None \<Rightarrow> None
      | Some k \<Rightarrow> map_option (\<lambda>S. (Int_val (of_nat (length (elems S))), A)) (alists A k))"

definition spec_next :: "ptr \<Rightarrow> 'a astate \<Rightarrow> ('a call_result \<times> 'a astate) option" where
  "spec_next l A =
     (case l of
        None \<Rightarrow> Some (Item_ptr None, A)
      | Some k \<Rightarrow> map_option (\<lambda>S. (Item_ptr (fst (seq_next S)),
                    A\<lparr>alists := (alists A)(k \<mapsto> snd (seq_next S))\<rparr>)) (alists A k))"

definition spec_reset :: "ptr \<Rightarrow> 'a astate \<Rightarrow> ('a call_result \<times> 'a astate) option" where
  "spec_reset l A =
     (case l of
        None \<Rightarrow> Some (No_value, A)
      | Some k \<Rightarrow> map_option (\<lambda>S. (No_value, A\<lparr>alists := (alists A)(k \<mapsto> seq_reset S)\<rparr>)) (alists A k))"

definition spec_delete :: "ptr \<Rightarrow> bool \<Rightarrow> 'a astate \<Rightarrow> ('a call_result \<times> 'a astate) option" where
  "spec_delete l d A =
     (case l of
        None \<Rightarrow> Some (No_value, A)
      | Some k \<Rightarrow> map_option (\<lambda>S. (No_value,
          A\<lparr>alists := (alists A)(k := None), aavail := aavail A + length (elems S) + 1,
            adestroyed := adestroyed A @ (if d then elems S else [])\<rparr>)) (alists A k))"

definition spec_join :: "ptr \<Rightarrow> ptr \<Rightarrow> 'a astate \<Rightarrow> ('a call_result \<times> 'a astate) option" where
  "spec_join a b A =
     (case (a, b) of
        (Some ka, Some kb) \<Rightarrow>
          (case (alists A ka, alists A kb) of
             (Some Sa, Some Sb) \<Rightarrow>
               if ka \<noteq> kb \<and> (elems Sb \<noteq> [] \<or> elems Sa = [])
               then Some (No_value, A\<lparr>alists := ((alists A)(ka \<mapsto> seq_join Sa Sb))(kb := None),
                                      aavail := Suc (aavail A)\<rparr>)
               else None
           | _ \<Rightarrow> None)
      | _ \<Rightarrow> None)"

definition spec_sort :: "ptr \<Rightarrow> ('a \<Rightarrow> 'a \<Rightarrow> bool) option \<Rightarrow> 'a astate \<Rightarrow> ('a call_result \<times> 'a astate) option" where
  "spec_sort l cmp A =
     (case (l, cmp) of
        (Some k, Some f) \<Rightarrow>
          (case alists A k of
             None \<Rightarrow> None
           | Some S \<Rightarrow>
               if elems S = [] then Some (List_ptr None, A)
               else if 2 ^ 32 \<le> length (elems S) then None
               else map_option (\<lambda>ys. (List_ptr (Some k), A\<lparr>alists := (alists A)(k \<mapsto> S\<lparr>elems := ys\<rparr>)\<rparr>))
                      (bubble_sort f (elems S)))
      | _ \<Rightarrow> Some (List_ptr None, A))"

definition spec_remove ::
  "ptr \<Rightarrow> ('a \<Rightarrow> 'p \<Rightarrow> bool) option \<Rightarrow> 'p \<Rightarrow> bool \<Rightarrow> 'a astate \<Rightarrow> ('a call_result \<times> 'a astate) option"
where
  "spec_remove l crit ps d A =
     (case (l, crit) of
        (Some k, Some c) \<Rightarrow>
          (case alists A k of
             None \<Rightarrow> None
           | Some S \<Rightarrow>
               if elems S = [] then Some (Int_val (-1), A)
               else if pos S \<noteq> None then None
               else Some (Int_val (of_nat (length (filter (\<lambda>x. c x ps) (elems S)))),
                      A\<lparr>alists := (alists A)(k \<mapsto> seq_remove (\<lambda>x. c x ps) S),
                        aavail := aavail A + length (filter (\<lambda>x. c x ps) (elems S)),
                        adestroyed := adestroyed A @ (if d then filter (\<lambda>x. c x ps) (elems S) else [])\<rparr>))
      | _ \<Rightarrow> Some (Int_val (-1), A))"

text \<open>
  A copy into a new list, as \<open>search_in_list\<close> and \<open>duplicate_list\<close> make it:
  the header takes the next cell, each copy one more while cells last, and a
  copy without items is freed again.
\<close>

definition copy_spec :: "('a \<Rightarrow> 'a option) \<Rightarrow> 'a seq \<Rightarrow> 'a astate \<Rightarrow> 'a call_result \<times> 'a astate" where
  "copy_spec f S A =
     (let sel = take (aavail A - 1) (List.map_filter f (elems S)) in
      if sel = [] then (List_ptr None, A\<lparr>anext := anext A + (if aavail A = 0 then 0 else 1)\<rparr>)
      else (List_ptr (Some (anext A)),
            A\<lparr>alists := (alists A)(anext A \<mapsto> \<lparr>elems = sel, pos = None\<rparr>),
              anext := anext A + length sel + 1, aavail := aavail A - length sel - 1\<rparr>))"

definition spec_search ::
  "ptr \<Rightarrow> ('a \<Rightarrow> 'p \<Rightarrow> bool) option \<Rightarrow> 'p \<Rightarrow> ('a \<Rightarrow> 'a option) option \<Rightarrow> 'a astate \<Rightarrow>
   ('a call_result \<times> 'a astate) option"
where
  "spec_search l crit ps dup A =
     (case (l, crit) of
        (Some k, Some c) \<Rightarrow>
          (case alists A k of
             None \<Rightarrow> None
           | Some S \<Rightarrow>
               if elems S = [] then Some (List_ptr None, A)
               else (case dup of
                       None \<Rightarrow> Some (List_ptr None, A)
                     | Some d \<Rightarrow>
                         if 2 ^ 32 \<le> length (elems S) then None
                         else Some (copy_spec (\<lambda>x. if c x ps then d x else None) S A)))
      | _ \<Rightarrow> Some (List_ptr None, A))"

definition spec_duplicate ::
  "ptr \<Rightarrow> ('a \<Rightarrow> 'a option) option \<Rightarrow> 'a astate \<Rightarrow> ('a call_result \<times> 'a astate) option"
where
  "spec_duplicate l dup A =
     (case l of
        None \<Rightarrow> Some (List_ptr None, A)
      | Some k \<Rightarrow>
          (case alists A k of
             None \<Rightarrow> None
           | Some S \<Rightarrow>
               if elems S = [] then Some (List_ptr None, A)
               else if 2 ^ 32 \<le> length (elems S) then None
               else Some (copy_spec (\<lambda>x. case dup of Some g \<Rightarrow> g x | None \<Rightarrow> Some x) S A)))"

text \<open>The contract of one call, and of a client's sequence of calls.\<close>

definition spec_exec :: "('a, 'p) list_call \<Rightarrow> 'a astate \<Rightarrow> ('a call_result \<times> 'a astate) option" where
  "spec_exec c A =
     (case c of
        Create_list \<Rightarrow> Some (spec_create A)
      | Append_to_list l it \<Rightarrow> spec_append l it A
      | List_size l \<Rightarrow> spec_size l A
      | Join_lists a b \<Rightarrow> spec_join a b A
      | Delete_list l d \<Rightarrow> spec_delete l d A
      | Sort_list l cmp \<Rightarrow> spec_sort l cmp A
      | Search_in_list l crit ps dup \<Rightarrow> spec_search l crit ps dup A
      | Remove_from_list l crit ps d \<Rightarrow> spec_remove l crit ps d A
      | Duplicate_list l dup \<Rightarrow> spec_duplicate l dup A
      | Get_next_item l \<Rightarrow> spec_next l A
      | Reset_list_item l \<Rightarrow> spec_reset l A)"

fun spec_run :: "('a, 'p) list_call list \<Rightarrow> 'a astate \<Rightarrow> ('a call_result list \<times> 'a astate) option" where
  "spec_run [] A = Some ([], A)"
| "spec_run (c # cs) A =
     (case spec_exec c A of
        None \<Rightarrow> None
      | Some (r, A1) \<Rightarrow> map_option (\<lambda>(rs, A2). (r # rs, A2)) (spec_run cs A1))"

text \<open>An empty store with room for ten objects, for the example client.\<close>

definition ex_client_store :: "int store" where
  "ex_client_store = \<lparr>members = Map.empty, lists = Map.empty, next_free = 0, avail = 10, destroyed = []\<rparr>"

section \<open>Store and abstract state\<close>

definition heap_inv :: "'a store \<Rightarrow> (addr \<rightharpoonup> addr list) \<Rightarrow> bool" where
  "heap_inv s H =
     (store_ok s \<and> (\<forall>k ys. H k = Some ys \<longrightarrow> list_ok s k ys) \<and>
      (\<forall>k k' ys ys'. H k = Some ys \<longrightarrow> H k' = Some ys' \<longrightarrow> k \<noteq> k' \<longrightarrow> set ys \<inter> set ys' = {}))"

definition abs_state :: "'a store \<Rightarrow> (addr \<rightharpoonup> addr list) \<Rightarrow> 'a astate" where
  "abs_state s H =
     \<lparr>alists = \<lambda>k. map_option (abs_list s k) (H k), anext = next_free s, aavail = avail s,
      adestroyed = destroyed s\<rparr>"

section \<open>Frame lemmas\<close>

lemma abs_state_simps [simp]:
  "alists (abs_state s H) k = map_option (abs_list s k) (H k)"
  "anext (abs_state s H) = next_free s" "aavail (abs_state s H) = avail s"
  "adestroyed (abs_state s H) = destroyed s"
  by (simp_all add: abs_state_def)

lemma abs_state_eqI:
  "alists (abs_state s H) = alists A \<Longrightarrow> next_free s = anext A \<Longrightarrow> avail s = aavail A \<Longrightarrow>
   destroyed s = adestroyed A \<Longrightarrow> abs_state s H = A"
  by (cases A) (simp add: abs_state_def)

lemma heap_inv_store_ok: "heap_inv s H \<Longrightarrow> store_ok s"
  by (simp add: heap_inv_def)

lemma heap_inv_list_ok: "heap_inv s H \<Longrightarrow> H k = Some ys \<Longrightarrow> list_ok s k ys"
  by (simp add: heap_inv_def)

lemma heap_inv_below:
  assumes "heap_inv s H" and "H k = Some ys"
  shows "k < next_free s \<and> (\<forall>a \<in> set ys. a < next_free s)"
  using list_ok_below [OF heap_inv_store_ok heap_inv_list_ok] assms by blast

lemma heap_inv_fresh: "heap_inv s H \<Longrightarrow> H (next_free s) = None"
  using heap_inv_below [of s H "next_free s"] by (cases "H (next_free s)") auto

lemma heap_inv_disj:
  "heap_inv s H \<Longrightarrow> H k = Some ys \<Longrightarrow> H k' = Some ys' \<Longrightarrow> k \<noteq> k' \<Longrightarrow> set ys \<inter> set ys' = {}"
  by (simp add: heap_inv_def)

text \<open>
  The lists other than those a call works on keep their members and their
  abstract value when the call changes only their members and the fresh
  addresses.
\<close>

lemma heap_keep:
  assumes inv: "heap_inv s H" and un: "unchanged_outside s s' (U \<union> {a. next_free s \<le> a}) (K \<union> {a. next_free s \<le> a})"
    and out: "\<forall>k ys. H k = Some ys \<longrightarrow> k \<notin> K \<longrightarrow> set ys \<inter> U = {}"
  shows "\<forall>k ys. H k = Some ys \<longrightarrow> k \<notin> K \<longrightarrow> list_ok s' k ys \<and> abs_list s' k ys = abs_list s k ys"
proof (intro allI impI)
  fix k ys
  assume h: "H k = Some ys" and k: "k \<notin> K"
  from heap_inv_below [OF inv h] have "set ys \<inter> {a. next_free s \<le> a} = {}" "k \<notin> {a. next_free s \<le> a}"
    by auto
  with out h k show "list_ok s' k ys \<and> abs_list s' k ys = abs_list s k ys"
    by (intro list_ok_unchanged [OF heap_inv_list_ok [OF inv h] un]) auto
qed

lemma heap_upd:
  assumes inv: "heap_inv s H" and st': "store_ok s'"
    and keep: "\<forall>k ys. H k = Some ys \<longrightarrow> k \<notin> {l} \<longrightarrow> list_ok s' k ys \<and> abs_list s' k ys = abs_list s k ys"
    and ok: "list_ok s' l ys'" and dj: "\<forall>k ys. H k = Some ys \<longrightarrow> k \<noteq> l \<longrightarrow> set ys \<inter> set ys' = {}"
  shows "heap_inv s' (H(l \<mapsto> ys'))"
    and "alists (abs_state s' (H(l \<mapsto> ys'))) = (alists (abs_state s H))(l \<mapsto> abs_list s' l ys')"
proof -
  show "heap_inv s' (H(l \<mapsto> ys'))"
    unfolding heap_inv_def
  proof (intro conjI allI impI)
    fix k ys assume "(H(l \<mapsto> ys')) k = Some ys"
    with keep ok show "list_ok s' k ys" by (cases "k = l") auto
  next
    fix k k' ys ys''
    assume "(H(l \<mapsto> ys')) k = Some ys" "(H(l \<mapsto> ys')) k' = Some ys''" "k \<noteq> k'"
    with dj heap_inv_disj [OF inv] show "set ys \<inter> set ys'' = {}"
      by (cases "k = l"; cases "k' = l") (auto simp: Int_commute)
  qed (rule st')
  show "alists (abs_state s' (H(l \<mapsto> ys'))) = (alists (abs_state s H))(l \<mapsto> abs_list s' l ys')"
  proof
    fix k
    show "alists (abs_state s' (H(l \<mapsto> ys'))) k = ((alists (abs_state s H))(l \<mapsto> abs_list s' l ys')) k"
      using keep by (cases "H k") auto
  qed
qed

lemma heap_del:
  assumes inv: "heap_inv s H" and st': "store_ok s'"
    and keep: "\<forall>k ys. H k = Some ys \<longrightarrow> k \<notin> {l} \<longrightarrow> list_ok s' k ys \<and> abs_list s' k ys = abs_list s k ys"
  shows "heap_inv s' (H(l := None))"
    and "alists (abs_state s' (H(l := None))) = (alists (abs_state s H))(l := None)"
proof -
  show "heap_inv s' (H(l := None))"
    using inv st' keep unfolding heap_inv_def by (auto split: if_splits)
  show "alists (abs_state s' (H(l := None))) = (alists (abs_state s H))(l := None)"
  proof
    fix k
    show "alists (abs_state s' (H(l := None))) k = ((alists (abs_state s H))(l := None)) k"
      using keep by (cases "H k") auto
  qed
qed

lemma alists_Some:
  "alists (abs_state s H) k = Some S \<longleftrightarrow> (\<exists>ys. H k = Some ys \<and> abs_list s k ys = S)"
  by auto

section \<open>Each call refines its contract\<close>

lemma sim_create:
  assumes inv: "heap_inv s H" and sp: "spec_create (abs_state s H) = (r, A')"
  shows "\<exists>s' H'. exec_call Create_list s = Some (Inr (r, s')) \<and> heap_inv s' H' \<and> abs_state s' H' = A'"
proof (cases "avail s = 0")
  case True
  with sp have "r = List_ptr None" "A' = abs_state s H" by (simp_all add: spec_create_def)
  with True inv show ?thesis by (auto simp: exec_call_def create_list_no_memory)
next
  case False
  let ?n = "next_free s"
  from create_list_ok [OF heap_inv_store_ok [OF inv]] False obtain s' where
    c: "create_list s = (Some ?n, s')" "store_ok s'" "list_ok s' ?n []" "abs_list s' ?n [] = seq_empty"
      "unchanged_outside s s' {} {?n}" "next_free s' = Suc ?n" "avail s' = avail s - 1"
      "destroyed s' = destroyed s"
    by auto
  have un: "unchanged_outside s s' ({} \<union> {a. ?n \<le> a}) ({?n} \<union> {a. ?n \<le> a})"
    by (rule unchanged_outside_mono [OF c(5)]) auto
  have keep: "\<forall>k ys. H k = Some ys \<longrightarrow> k \<notin> {?n} \<longrightarrow> list_ok s' k ys \<and> abs_list s' k ys = abs_list s k ys"
    by (rule heap_keep [OF inv un]) simp
  note h = heap_upd [OF inv c(2) keep c(3)]
  from sp False have "r = List_ptr (Some ?n)"
    and "A' = (abs_state s H)\<lparr>alists := (alists (abs_state s H))(?n \<mapsto> seq_empty), anext := Suc ?n,
      aavail := avail s - 1\<rparr>"
    by (simp_all add: spec_create_def)
  with h c show ?thesis
    by (intro exI [of _ s'] exI [of _ "H(?n \<mapsto> [])"]) (simp add: exec_call_def abs_state_def)
qed


text \<open>A call that moves only the cursor of list \<open>k\<close>.\<close>

lemma heap_cursor:
  assumes inv: "heap_inv s H" and hk: "H k = Some ys" and c: "cursor_only s s' k" and ok: "list_ok s' k ys"
  shows "heap_inv s' H"
    and "alists (abs_state s' H) = (alists (abs_state s H))(k \<mapsto> abs_list s' k ys)"
    and "next_free s' = next_free s" "avail s' = avail s" "destroyed s' = destroyed s"
proof -
  have "k \<in> dom (lists s)"
    using heap_inv_list_ok [OF inv hk] by (auto simp: list_ok_def split: option.splits)
  then have st': "store_ok s'" by (rule store_ok_cursor_only [OF heap_inv_store_ok [OF inv] c])
  have un: "unchanged_outside s s' ({} \<union> {a. next_free s \<le> a}) ({k} \<union> {a. next_free s \<le> a})"
    by (rule unchanged_outside_mono [OF cursor_only_unchanged [OF c]]) auto
  have keep: "\<forall>k' ys'. H k' = Some ys' \<longrightarrow> k' \<notin> {k} \<longrightarrow> list_ok s' k' ys' \<and> abs_list s' k' ys' = abs_list s k' ys'"
    by (rule heap_keep [OF inv un]) simp
  have dj: "\<forall>k' ys'. H k' = Some ys' \<longrightarrow> k' \<noteq> k \<longrightarrow> set ys' \<inter> set ys = {}"
    using heap_inv_disj [OF inv _ hk] by blast
  from heap_upd [OF inv st' keep ok dj] hk show "heap_inv s' H"
    and "alists (abs_state s' H) = (alists (abs_state s H))(k \<mapsto> abs_list s' k ys)"
    by (simp_all add: fun_upd_idem)
  show "next_free s' = next_free s" "avail s' = avail s" "destroyed s' = destroyed s"
    using c by (simp_all add: cursor_only_def)
qed

lemma sim_append:
  assumes inv: "heap_inv s H" and sp: "spec_append l it (abs_state s H) = Some (r, A')"
  shows "\<exists>s' H'. exec_call (Append_to_list l it) s = Some (Inr (r, s')) \<and> heap_inv s' H' \<and> abs_state s' H' = A'"
proof (cases "it = None \<or> avail s = 0")
  case True
  then have "r = Int_val (if it = None then 1 else 2) \<and> A' = abs_state s H"
    using sp by (auto simp: spec_append_def)
  moreover have "append_to_list l it s = Inr (if it = None then 1 else 2, s)"
    using True by (cases it) (auto simp: append_to_list_def calloc_member_def)
  ultimately show ?thesis using inv by (auto simp: exec_call_def)
next
  case False
  then obtain x where x: "it = Some x" and av: "0 < avail s" by auto
  from sp x av obtain k ys where l: "l = Some k" and hk: "H k = Some ys" and r: "r = Int_val 0"
    and A': "A' = (abs_state s H)\<lparr>alists := (alists (abs_state s H))(k \<mapsto> seq_append x (abs_list s k ys)),
       anext := Suc (next_free s), aavail := avail s - 1\<rparr>"
    by (auto simp: spec_append_def split: option.splits)
  let ?n = "next_free s"
  from append_to_list_abs [OF heap_inv_store_ok [OF inv] heap_inv_list_ok [OF inv hk] av, of x] obtain s' where
    a: "append_to_list (Some k) (Some x) s = Inr (0, s')" "store_ok s'" "list_ok s' k (ys @ [?n])"
      "abs_list s' k (ys @ [?n]) = seq_append x (abs_list s k ys)"
      "unchanged_outside s s' (insert ?n (set ys)) {k}" "next_free s' = Suc ?n" "avail s' = avail s - 1"
      "destroyed s' = destroyed s"
    by blast
  have un: "unchanged_outside s s' (set ys \<union> {a. ?n \<le> a}) ({k} \<union> {a. ?n \<le> a})"
    by (rule unchanged_outside_mono [OF a(5)]) auto
  have keep: "\<forall>k' ys'. H k' = Some ys' \<longrightarrow> k' \<notin> {k} \<longrightarrow> list_ok s' k' ys' \<and> abs_list s' k' ys' = abs_list s k' ys'"
    by (rule heap_keep [OF inv un]) (use heap_inv_disj [OF inv _ hk] in blast)
  have dj: "\<forall>k' ys'. H k' = Some ys' \<longrightarrow> k' \<noteq> k \<longrightarrow> set ys' \<inter> set (ys @ [?n]) = {}"
    using heap_inv_disj [OF inv _ hk] heap_inv_below [OF inv] by fastforce
  note h = heap_upd [OF inv a(2) keep a(3) dj]
  show ?thesis
    using h a l x r A' by (intro exI [of _ s'] exI [of _ "H(k \<mapsto> ys @ [?n])"]) (simp add: exec_call_def abs_state_def)
qed

lemma sim_size:
  assumes inv: "heap_inv s H" and sp: "spec_size l (abs_state s H) = Some (r, A')"
  shows "\<exists>s' H'. exec_call (List_size l) s = Some (Inr (r, s')) \<and> heap_inv s' H' \<and> abs_state s' H' = A'"
proof -
  from sp obtain k ys where l: "l = Some k" and hk: "H k = Some ys"
    and r: "r = Int_val (of_nat (length (elems (abs_list s k ys))))" and A': "A' = abs_state s H"
    by (auto simp: spec_size_def split: option.splits)
  have "list_size (Some k) s = Inr (of_nat (length ys))"
    by (rule list_size_ok [OF heap_inv_list_ok [OF inv hk]])
  with l r A' inv show ?thesis by (auto simp: exec_call_def abs_list_def length_items_at_eq)
qed

lemma sim_next:
  assumes inv: "heap_inv s H" and sp: "spec_next l (abs_state s H) = Some (r, A')"
  shows "\<exists>s' H'. exec_call (Get_next_item l) s = Some (Inr (r, s')) \<and> heap_inv s' H' \<and> abs_state s' H' = A'"
proof (cases l)
  case None
  with sp inv show ?thesis by (auto simp: spec_next_def exec_call_def get_next_item_def)
next
  case (Some k)
  from sp Some obtain ys where hk: "H k = Some ys"
    and r: "r = Item_ptr (fst (seq_next (abs_list s k ys)))"
    and A': "A' = (abs_state s H)\<lparr>alists := (alists (abs_state s H))(k \<mapsto> snd (seq_next (abs_list s k ys)))\<rparr>"
    by (auto simp: spec_next_def)
  from get_next_item_refines [OF heap_inv_list_ok [OF inv hk]] obtain x s' where
    g: "get_next_item (Some k) s = Inr (x, s')" "list_ok s' k ys"
      "(x, abs_list s' k ys) = seq_next (abs_list s k ys)"
    by blast
  note h = heap_cursor [OF inv hk get_next_item_frame [OF heap_inv_list_ok [OF inv hk] g(1)] g(2)]
  from g(3) have "x = fst (seq_next (abs_list s k ys))" "abs_list s' k ys = snd (seq_next (abs_list s k ys))"
    by (metis fst_conv, metis snd_conv)
  with h g Some r A' show ?thesis
    by (intro exI [of _ s'] exI [of _ H]) (simp add: exec_call_def abs_state_def)
qed

lemma reset_cursor_only:
  assumes "list_ok s k ys" and "reset_list_item (Some k) s = Inr s'"
  shows "cursor_only s s' k"
  using assms by (auto simp: reset_list_item_def put_list_def cursor_only_def list_ok_def split: option.splits)

lemma sim_reset:
  assumes inv: "heap_inv s H" and sp: "spec_reset l (abs_state s H) = Some (r, A')"
  shows "\<exists>s' H'. exec_call (Reset_list_item l) s = Some (Inr (r, s')) \<and> heap_inv s' H' \<and> abs_state s' H' = A'"
proof (cases l)
  case None
  with sp inv show ?thesis by (auto simp: spec_reset_def exec_call_def reset_list_item_def)
next
  case (Some k)
  from sp Some obtain ys where hk: "H k = Some ys" and r: "r = No_value"
    and A': "A' = (abs_state s H)\<lparr>alists := (alists (abs_state s H))(k \<mapsto> seq_reset (abs_list s k ys))\<rparr>"
    by (auto simp: spec_reset_def)
  from reset_list_item_ok [OF heap_inv_list_ok [OF inv hk]] obtain s' where
    g: "reset_list_item (Some k) s = Inr s'" "list_ok s' k ys" "abs_list s' k ys = seq_reset (abs_list s k ys)"
    by blast
  note h = heap_cursor [OF inv hk reset_cursor_only [OF heap_inv_list_ok [OF inv hk] g(1)] g(2)]
  with g Some r A' show ?thesis
    by (intro exI [of _ s'] exI [of _ H]) (simp add: exec_call_def abs_state_def)
qed

lemma sim_delete:
  assumes inv: "heap_inv s H" and sp: "spec_delete l d (abs_state s H) = Some (r, A')"
  shows "\<exists>s' H'. exec_call (Delete_list l d) s = Some (Inr (r, s')) \<and> heap_inv s' H' \<and> abs_state s' H' = A'"
proof (cases l)
  case None
  with sp inv show ?thesis by (auto simp: spec_delete_def exec_call_def delete_list_def)
next
  case (Some k)
  from sp Some obtain ys where hk: "H k = Some ys" and r: "r = No_value"
    and A': "A' = (abs_state s H)\<lparr>alists := (alists (abs_state s H))(k := None),
       aavail := avail s + length (elems (abs_list s k ys)) + 1,
       adestroyed := destroyed s @ (if d then elems (abs_list s k ys) else [])\<rparr>"
    by (auto simp: spec_delete_def)
  from delete_list_run [OF heap_inv_store_ok [OF inv] heap_inv_list_ok [OF inv hk], of d] obtain s' where
    dl: "delete_list (Some k) d s = Some (Inr s')" "store_ok s'"
      "destroyed s' = destroyed s @ (if d then items_at (members s) ys else [])"
      "unchanged_outside s s' (set ys) {k}" "avail s' = avail s + length ys + 1" "next_free s' = next_free s"
    by blast
  have un: "unchanged_outside s s' (set ys \<union> {a. next_free s \<le> a}) ({k} \<union> {a. next_free s \<le> a})"
    by (rule unchanged_outside_mono [OF dl(4)]) auto
  have keep: "\<forall>k' ys'. H k' = Some ys' \<longrightarrow> k' \<notin> {k} \<longrightarrow> list_ok s' k' ys' \<and> abs_list s' k' ys' = abs_list s k' ys'"
    by (rule heap_keep [OF inv un]) (use heap_inv_disj [OF inv _ hk] in blast)
  note h = heap_del [OF inv dl(2) keep]
  show ?thesis
    using h dl Some r A' by (intro exI [of _ s'] exI [of _ "H(k := None)"])
      (simp add: exec_call_def abs_state_def abs_list_def length_items_at_eq)
qed


lemma heap_drop:
  assumes inv: "heap_inv s H"
  shows "heap_inv s (H(k := None))" and "alists (abs_state s (H(k := None))) = (alists (abs_state s H))(k := None)"
proof -
  have "\<forall>k' ys. H k' = Some ys \<longrightarrow> k' \<notin> {k} \<longrightarrow> list_ok s k' ys \<and> abs_list s k' ys = abs_list s k' ys"
    using heap_inv_list_ok [OF inv] by blast
  from heap_del [OF inv heap_inv_store_ok [OF inv] this]
  show "heap_inv s (H(k := None))" and "alists (abs_state s (H(k := None))) = (alists (abs_state s H))(k := None)"
    by simp_all
qed

lemma sim_join:
  assumes inv: "heap_inv s H" and sp: "spec_join a b (abs_state s H) = Some (r, A')"
  shows "\<exists>s' H'. exec_call (Join_lists a b) s = Some (Inr (r, s')) \<and> heap_inv s' H' \<and> abs_state s' H' = A'"
proof -
  from sp obtain ka kb ya yb where ab: "a = Some ka" "b = Some kb" and ha: "H ka = Some ya" and hb: "H kb = Some yb"
    and ne: "ka \<noteq> kb" and shape: "elems (abs_list s kb yb) \<noteq> [] \<or> elems (abs_list s ka ya) = []"
    and r: "r = No_value"
    and A': "A' = (abs_state s H)\<lparr>alists := ((alists (abs_state s H))(ka \<mapsto> seq_join (abs_list s ka ya) (abs_list s kb yb)))(kb := None),
       aavail := Suc (avail s)\<rparr>"
    by (auto simp: spec_join_def split: option.splits prod.splits if_splits)
  have shape': "yb \<noteq> [] \<or> ya = []" using shape by (auto simp: abs_list_def items_at_def)
  have disj: "set ya \<inter> set yb = {}" by (rule heap_inv_disj [OF inv ha hb ne])
  from join_lists_abs [OF heap_inv_store_ok [OF inv] heap_inv_list_ok [OF inv ha] heap_inv_list_ok [OF inv hb] ne disj shape']
  obtain s' where
    j: "join_lists (Some ka) (Some kb) s = Inr s'" "store_ok s'" "list_ok s' ka (ya @ yb)"
      "abs_list s' ka (ya @ yb) = seq_join (abs_list s ka ya) (abs_list s kb yb)"
      "unchanged_outside s s' (set ya) {ka, kb}" "next_free s' = next_free s" "avail s' = Suc (avail s)"
      "destroyed s' = destroyed s"
    by blast
  let ?H1 = "H(kb := None)"
  note h1 = heap_drop [OF inv, of kb]
  have un: "unchanged_outside s s' (set ya \<union> {a. next_free s \<le> a}) ({ka, kb} \<union> {a. next_free s \<le> a})"
    by (rule unchanged_outside_mono [OF j(5)]) auto
  have keep0: "\<forall>k ys. H k = Some ys \<longrightarrow> k \<notin> {ka, kb} \<longrightarrow> list_ok s' k ys \<and> abs_list s' k ys = abs_list s k ys"
    by (rule heap_keep [OF inv un]) (use heap_inv_disj [OF inv _ ha] in blast)
  have keep: "\<forall>k ys. ?H1 k = Some ys \<longrightarrow> k \<notin> {ka} \<longrightarrow> list_ok s' k ys \<and> abs_list s' k ys = abs_list s k ys"
    using keep0 by auto
  have dj: "\<forall>k ys. ?H1 k = Some ys \<longrightarrow> k \<noteq> ka \<longrightarrow> set ys \<inter> set (ya @ yb) = {}"
  proof (intro allI impI)
    fix k ys
    assume h1: "?H1 k = Some ys" and k: "k \<noteq> ka"
    then have hk: "H k = Some ys" and kb: "k \<noteq> kb" by (auto split: if_splits)
    show "set ys \<inter> set (ya @ yb) = {}"
      using heap_inv_disj [OF inv hk ha k] heap_inv_disj [OF inv hk hb kb] by auto
  qed
  note h = heap_upd [OF h1(1) j(2) keep j(3) dj]
  have al: "alists (abs_state s' (?H1(ka \<mapsto> ya @ yb))) = alists A'"
  proof
    fix k
    show "alists (abs_state s' (?H1(ka \<mapsto> ya @ yb))) k = alists A' k"
      by (cases "k = ka"; cases "k = kb"; cases "H k") (use keep0 j(4) A' ne in auto)
  qed
  have "abs_state s' (?H1(ka \<mapsto> ya @ yb)) = A'"
    by (rule abs_state_eqI) (use al j A' in simp_all)
  with h(1) j(1) ab r show ?thesis
    by (intro exI [of _ s'] exI [of _ "?H1(ka \<mapsto> ya @ yb)"]) (simp add: exec_call_def fun_upd_def)
qed

lemma sim_sort:
  assumes inv: "heap_inv s H" and sp: "spec_sort l cmp (abs_state s H) = Some (r, A')"
  shows "\<exists>s' H'. exec_call (Sort_list l cmp) s = Some (Inr (r, s')) \<and> heap_inv s' H' \<and> abs_state s' H' = A'"
proof (cases "\<exists>k f. l = Some k \<and> cmp = Some f")
  case False
  then have "r = List_ptr None \<and> A' = abs_state s H"
    using sp by (cases l; cases cmp) (auto simp: spec_sort_def)
  moreover have "sort_list l cmp s = Some (Inr (None, s))"
    using False by (cases l; cases cmp) (auto simp: sort_list_def)
  ultimately show ?thesis using inv by (auto simp: exec_call_def)
next
  case True
  then obtain k f where l: "l = Some k" and c: "cmp = Some f" by blast
  from sp l c obtain ys where hk: "H k = Some ys" by (auto simp: spec_sort_def split: option.splits)
  have ok: "list_ok s k ys" by (rule heap_inv_list_ok [OF inv hk])
  have el: "elems (abs_list s k ys) = items_at (members s) ys" by (simp add: abs_list_def)
  show ?thesis
  proof (cases "ys = []")
    case True
    with sp l c hk have "r = List_ptr None" "A' = abs_state s H" by (auto simp: spec_sort_def abs_list_def)
    moreover from ok True have "sort_list (Some k) (Some f) s = Some (Inr (None, s))"
      by (auto simp: sort_list_def list_ok_def hdr_ok_Nil split: option.splits)
    ultimately show ?thesis using inv l c by (auto simp: exec_call_def)
  next
    case False
    have ne: "elems (abs_list s k ys) \<noteq> []" using False by (simp add: el items_at_def)
    from sp l c hk ne have len: "length ys < 2 ^ 32"
      by (auto simp: spec_sort_def el length_items_at_eq split: if_splits)
    from sp l c hk ne len obtain zs where b: "bubble_sort f (elems (abs_list s k ys)) = Some zs"
      and r: "r = List_ptr (Some k)"
      and A': "A' = (abs_state s H)\<lparr>alists := (alists (abs_state s H))(k \<mapsto> (abs_list s k ys)\<lparr>elems := zs\<rparr>)\<rparr>"
      by (auto simp: spec_sort_def el length_items_at_eq split: if_splits)
    from sort_list_bubble [OF ok False len, of f] b obtain s' where
      so: "sort_list (Some k) (Some f) s = Some (Inr (Some k, s'))" "list_ok s' k ys"
        "abs_list s' k ys = (abs_list s k ys)\<lparr>elems := zs\<rparr>" "unchanged_outside s s' (set ys) {}"
        "next_free s' = next_free s" "avail s' = avail s" "destroyed s' = destroyed s"
      by auto
    have st': "store_ok s'" by (rule sort_list_store_ok [OF heap_inv_store_ok [OF inv] so(1)])
    have un: "unchanged_outside s s' (set ys \<union> {a. next_free s \<le> a}) ({k} \<union> {a. next_free s \<le> a})"
      by (rule unchanged_outside_mono [OF so(4)]) auto
    have keep: "\<forall>k' ys'. H k' = Some ys' \<longrightarrow> k' \<notin> {k} \<longrightarrow> list_ok s' k' ys' \<and> abs_list s' k' ys' = abs_list s k' ys'"
      by (rule heap_keep [OF inv un]) (use heap_inv_disj [OF inv _ hk] in blast)
    have dj: "\<forall>k' ys'. H k' = Some ys' \<longrightarrow> k' \<noteq> k \<longrightarrow> set ys' \<inter> set ys = {}"
      using heap_inv_disj [OF inv _ hk] by blast
    from heap_upd [OF inv st' keep so(2) dj] hk have h: "heap_inv s' H"
      "alists (abs_state s' H) = (alists (abs_state s H))(k \<mapsto> abs_list s' k ys)"
      by (simp_all add: fun_upd_idem)
    show ?thesis
      using h so l c r A' by (intro exI [of _ s'] exI [of _ H]) (simp add: exec_call_def abs_state_def)
  qed
qed

lemma sim_remove:
  assumes inv: "heap_inv s H" and sp: "spec_remove l crit ps d (abs_state s H) = Some (r, A')"
  shows "\<exists>s' H'. exec_call (Remove_from_list l crit ps d) s = Some (Inr (r, s')) \<and> heap_inv s' H' \<and> abs_state s' H' = A'"
proof (cases "\<exists>k c. l = Some k \<and> crit = Some c")
  case False
  then have "r = Int_val (-1) \<and> A' = abs_state s H"
    using sp by (cases l; cases crit) (auto simp: spec_remove_def)
  moreover have "remove_from_list l crit ps d s = Some (Inr (-1, s))"
    using False by (cases l; cases crit) (auto simp: remove_from_list_def)
  ultimately show ?thesis using inv by (auto simp: exec_call_def)
next
  case True
  then obtain k c where l: "l = Some k" and c: "crit = Some c" by blast
  from sp l c obtain ys where hk: "H k = Some ys" by (auto simp: spec_remove_def split: option.splits)
  have ok: "list_ok s k ys" by (rule heap_inv_list_ok [OF inv hk])
  have el: "elems (abs_list s k ys) = items_at (members s) ys" by (simp add: abs_list_def)
  show ?thesis
  proof (cases "ys = []")
    case True
    with sp l c hk have "r = Int_val (-1)" "A' = abs_state s H" by (auto simp: spec_remove_def abs_list_def)
    moreover from ok True have "remove_from_list (Some k) (Some c) ps d s = Some (Inr (-1, s))"
      by (auto simp: remove_from_list_def list_ok_def hdr_ok_Nil split: option.splits)
    ultimately show ?thesis using inv l c by (auto simp: exec_call_def)
  next
    case False
    have ne: "elems (abs_list s k ys) \<noteq> []" using False by (simp add: el items_at_def)
    let ?P = "\<lambda>x. c x ps"
    from sp l c hk ne have p0: "pos (abs_list s k ys) = None"
      and r: "r = Int_val (of_nat (length (filter ?P (elems (abs_list s k ys)))))"
      and A': "A' = (abs_state s H)\<lparr>alists := (alists (abs_state s H))(k \<mapsto> seq_remove ?P (abs_list s k ys)),
         aavail := avail s + length (filter ?P (elems (abs_list s k ys))),
         adestroyed := destroyed s @ (if d then filter ?P (elems (abs_list s k ys)) else [])\<rparr>"
      by (auto simp: spec_remove_def split: if_splits)
    let ?ks = "filter (\<lambda>a. \<not> c (item (the (members s a))) ps) ys"
    from remove_from_list_run [OF heap_inv_store_ok [OF inv] ok False, of c ps d] obtain s' where
      rm: "remove_from_list (Some k) (Some c) ps d s =
         Some (Inr (of_nat (length (filter ?P (items_at (members s) ys))), s'))"
      and st': "store_ok s'"
      and ri: "rm_inv s' k (if ?ks = [] then None else Some (last ?ks)) ?ks []"
      and its: "items_at (members s') ?ks = filter (\<lambda>x. \<not> c x ps) (items_at (members s) ys)"
      and de: "destroyed s' = destroyed s @ (if d then filter ?P (items_at (members s) ys) else [])"
      and un0: "unchanged_outside s s' (set ys) {k}"
      and cur: "map_option current_m (lists s' k) = map_option current_m (lists s k)"
      and av: "avail s' = avail s + length (filter ?P (items_at (members s) ys))"
      and nf: "next_free s' = next_free s"
      by blast
    have cur0: "map_option current_m (lists s' k) = Some None"
      using cur abs_list_pos_None [OF ok p0] by simp
    have ok': "list_ok s' k ?ks" by (rule rm_inv_list_ok [OF ri cur0])
    have ab': "abs_list s' k ?ks = seq_remove ?P (abs_list s k ys)"
      using its cur0 p0 by (auto simp: abs_list_def seq_remove_def split: option.splits)
    have un: "unchanged_outside s s' (set ys \<union> {a. next_free s \<le> a}) ({k} \<union> {a. next_free s \<le> a})"
      by (rule unchanged_outside_mono [OF un0]) auto
    have keep: "\<forall>k' ys'. H k' = Some ys' \<longrightarrow> k' \<notin> {k} \<longrightarrow> list_ok s' k' ys' \<and> abs_list s' k' ys' = abs_list s k' ys'"
      by (rule heap_keep [OF inv un]) (use heap_inv_disj [OF inv _ hk] in blast)
    have dj: "\<forall>k' ys'. H k' = Some ys' \<longrightarrow> k' \<noteq> k \<longrightarrow> set ys' \<inter> set ?ks = {}"
      using heap_inv_disj [OF inv _ hk] by fastforce
    note h = heap_upd [OF inv st' keep ok' dj]
    show ?thesis
      using h rm l c r A' ab' de av nf el
      by (intro exI [of _ s'] exI [of _ "H(k \<mapsto> ?ks)"]) (simp add: exec_call_def abs_state_def)
  qed
qed


text \<open>\<open>search_in_list\<close> and \<open>duplicate_list\<close> after their entry checks.\<close>

lemma sim_copy:
  fixes f :: "'a \<Rightarrow> 'a option"
  assumes inv: "heap_inv s H" and hk: "H k = Some ys"
    and run: "\<exists>r s'. call = Some (Inr (r, s')) \<and> store_ok s' \<and> list_ok s' k ys \<and> abs_list s' k ys = abs_list s k ys \<and>
       unchanged_outside s s' {a. next_free s \<le> a} {a. next_free s \<le> a} \<and> destroyed s' = destroyed s \<and>
       (case r of
          None \<Rightarrow> take (avail s - 1) (List.map_filter f (items_at (members s) ys)) = [] \<and> avail s' = avail s \<and>
            next_free s' = next_free s + (if avail s = 0 then 0 else 1)
        | Some n \<Rightarrow> n = next_free s \<and> take (avail s - 1) (List.map_filter f (items_at (members s) ys)) \<noteq> [] \<and>
            (\<exists>zs. list_ok s' n zs \<and>
               abs_list s' n zs = \<lparr>elems = take (avail s - 1) (List.map_filter f (items_at (members s) ys)), pos = None\<rparr> \<and>
               (\<forall>a \<in> set zs. next_free s \<le> a) \<and> avail s' + length zs + 1 = avail s \<and>
               next_free s' = next_free s + length zs + 1))"
  shows "\<exists>r s' H'. call = Some (Inr (r, s')) \<and> heap_inv s' H' \<and>
     (List_ptr r, abs_state s' H') = copy_spec f (abs_list s k ys) (abs_state s H)"
proof -
  let ?N = "next_free s" and ?sel = "take (avail s - 1) (List.map_filter f (items_at (members s) ys))"
  from run obtain r s' where c: "call = Some (Inr (r, s'))" and st': "store_ok s'"
    and un0: "unchanged_outside s s' {a. ?N \<le> a} {a. ?N \<le> a}" and de: "destroyed s' = destroyed s"
    and res: "case r of
          None \<Rightarrow> ?sel = [] \<and> avail s' = avail s \<and> next_free s' = ?N + (if avail s = 0 then 0 else 1)
        | Some n \<Rightarrow> n = ?N \<and> ?sel \<noteq> [] \<and>
            (\<exists>zs. list_ok s' n zs \<and> abs_list s' n zs = \<lparr>elems = ?sel, pos = None\<rparr> \<and>
               (\<forall>a \<in> set zs. ?N \<le> a) \<and> avail s' + length zs + 1 = avail s \<and> next_free s' = ?N + length zs + 1)"
    by blast
  have un: "unchanged_outside s s' ({} \<union> {a. ?N \<le> a}) ({} \<union> {a. ?N \<le> a})" using un0 by simp
  have keep: "\<forall>k' ys'. H k' = Some ys' \<longrightarrow> k' \<notin> {} \<longrightarrow> list_ok s' k' ys' \<and> abs_list s' k' ys' = abs_list s k' ys'"
    by (rule heap_keep [OF inv un]) simp
  have el: "elems (abs_list s k ys) = items_at (members s) ys" by (simp add: abs_list_def)
  show ?thesis
  proof (cases r)
    case None
    with res have sel: "?sel = []" and av: "avail s' = avail s"
      and nf: "next_free s' = ?N + (if avail s = 0 then 0 else 1)" by auto
    have hs: "heap_inv s' H"
      using inv st' keep unfolding heap_inv_def by blast
    have al: "alists (abs_state s' H) = alists (abs_state s H)"
    proof
      fix k'
      show "alists (abs_state s' H) k' = alists (abs_state s H) k'"
        using keep by (cases "H k'") auto
    qed
    have "abs_state s' H = (abs_state s H)\<lparr>anext := ?N + (if avail s = 0 then 0 else 1)\<rparr>"
      by (rule abs_state_eqI) (use al nf av de in simp_all)
    with c hs sel None show ?thesis
      by (intro exI [of _ r] exI [of _ s'] exI [of _ H]) (simp add: copy_spec_def Let_def el)
  next
    case (Some n)
    with res obtain zs where n: "n = ?N" and sel: "?sel \<noteq> []" and ok: "list_ok s' ?N zs"
      and ab: "abs_list s' ?N zs = \<lparr>elems = ?sel, pos = None\<rparr>" and ge: "\<forall>a \<in> set zs. ?N \<le> a"
      and av: "avail s' + length zs + 1 = avail s" and nf: "next_free s' = ?N + length zs + 1"
      by auto
    have lz: "length zs = length ?sel"
      using arg_cong [OF ab, of "\<lambda>S. length (elems S)"] by (simp add: abs_list_def length_items_at_eq)
    have keep': "\<forall>k' ys'. H k' = Some ys' \<longrightarrow> k' \<notin> {?N} \<longrightarrow> list_ok s' k' ys' \<and> abs_list s' k' ys' = abs_list s k' ys'"
      using keep by blast
    have dj: "\<forall>k' ys'. H k' = Some ys' \<longrightarrow> k' \<noteq> ?N \<longrightarrow> set ys' \<inter> set zs = {}"
    proof (intro allI impI)
      fix k' ys' assume "H k' = Some ys'"
      from heap_inv_below [OF inv this] ge show "set ys' \<inter> set zs = {}" by fastforce
    qed
    note h = heap_upd [OF inv st' keep' ok dj]
    have "abs_state s' (H(?N \<mapsto> zs)) = (abs_state s H)\<lparr>alists := (alists (abs_state s H))(?N \<mapsto> \<lparr>elems = ?sel, pos = None\<rparr>),
        anext := ?N + length ?sel + 1, aavail := avail s - length ?sel - 1\<rparr>"
      by (rule abs_state_eqI) (use h(2) ab nf av lz de in simp_all)
    with c h(1) sel Some n show ?thesis
      by (intro exI [of _ r] exI [of _ s'] exI [of _ "H(?N \<mapsto> zs)"]) (simp add: copy_spec_def Let_def el)
  qed
qed

lemma list_ok_first_Some:
  "list_ok s k ys \<Longrightarrow> ys \<noteq> [] \<Longrightarrow> \<exists>L. lists s k = Some L \<and> first_m L \<noteq> None"
  by (cases ys) (auto simp: list_ok_def hdr_ok_def split: option.splits)

lemma sim_search:
  assumes inv: "heap_inv s H" and sp: "spec_search l crit ps dup (abs_state s H) = Some (r, A')"
  shows "\<exists>s' H'. exec_call (Search_in_list l crit ps dup) s = Some (Inr (r, s')) \<and> heap_inv s' H' \<and> abs_state s' H' = A'"
proof (cases "\<exists>k c. l = Some k \<and> crit = Some c")
  case False
  then have "r = List_ptr None \<and> A' = abs_state s H"
    using sp by (cases l; cases crit) (auto simp: spec_search_def)
  moreover have "search_in_list l crit ps dup s = Some (Inr (None, s))"
    using False by (cases l; cases crit) (auto simp: search_in_list_def)
  ultimately show ?thesis using inv by (auto simp: exec_call_def)
next
  case True
  then obtain k c where l: "l = Some k" and c: "crit = Some c" by blast
  from sp l c obtain ys where hk: "H k = Some ys" by (auto simp: spec_search_def split: option.splits)
  have ok: "list_ok s k ys" by (rule heap_inv_list_ok [OF inv hk])
  have el: "elems (abs_list s k ys) = items_at (members s) ys" by (simp add: abs_list_def)
  show ?thesis
  proof (cases "ys = [] \<or> dup = None")
    case True
    with sp l c hk have "r = List_ptr None" "A' = abs_state s H"
      by (auto simp: spec_search_def abs_list_def items_at_def split: if_splits)
    moreover have "search_in_list (Some k) (Some c) ps dup s = Some (Inr (None, s))"
    proof (cases "ys = []")
      case True
      with ok show ?thesis by (auto simp: search_in_list_def list_ok_def hdr_ok_Nil split: option.splits)
    next
      case False
      with \<open>ys = [] \<or> dup = None\<close> list_ok_first_Some [OF ok] show ?thesis
        by (auto simp: search_in_list_def get_list_def)
    qed
    ultimately show ?thesis using inv l c by (auto simp: exec_call_def)
  next
    case False
    then obtain d where ne: "ys \<noteq> []" and d: "dup = Some d" by auto
    have ne': "elems (abs_list s k ys) \<noteq> []" using ne by (simp add: el items_at_def)
    from sp l c d hk ne' have len: "length ys < 2 ^ 32"
      and cp: "copy_spec (\<lambda>x. if c x ps then d x else None) (abs_list s k ys) (abs_state s H) = (r, A')"
      by (auto simp: spec_search_def el length_items_at_eq split: if_splits)
    from sim_copy [OF inv hk search_in_list_run [OF heap_inv_store_ok [OF inv] ok ne len, of c ps d]]
    obtain r0 s' H' where "search_in_list (Some k) (Some c) ps (Some d) s = Some (Inr (r0, s'))" "heap_inv s' H'"
      "(List_ptr r0, abs_state s' H') = (r, A')"
      unfolding cp by blast
    with l c d show ?thesis by (intro exI [of _ s'] exI [of _ H']) (auto simp: exec_call_def)
  qed
qed

lemma sim_duplicate:
  assumes inv: "heap_inv s H" and sp: "spec_duplicate l dup (abs_state s H) = Some (r, A')"
  shows "\<exists>s' H'. exec_call (Duplicate_list l dup) s = Some (Inr (r, s')) \<and> heap_inv s' H' \<and> abs_state s' H' = A'"
proof (cases l)
  case None
  with sp inv show ?thesis by (auto simp: spec_duplicate_def exec_call_def duplicate_list_def)
next
  case (Some k)
  from sp Some obtain ys where hk: "H k = Some ys" by (auto simp: spec_duplicate_def split: option.splits)
  have ok: "list_ok s k ys" by (rule heap_inv_list_ok [OF inv hk])
  have el: "elems (abs_list s k ys) = items_at (members s) ys" by (simp add: abs_list_def)
  show ?thesis
  proof (cases "ys = []")
    case True
    with sp Some hk have "r = List_ptr None" "A' = abs_state s H"
      by (auto simp: spec_duplicate_def abs_list_def)
    moreover from ok True have "duplicate_list (Some k) dup s = Some (Inr (None, s))"
      by (auto simp: duplicate_list_def list_ok_def hdr_ok_Nil split: option.splits)
    ultimately show ?thesis using inv Some by (auto simp: exec_call_def)
  next
    case False
    have ne': "elems (abs_list s k ys) \<noteq> []" using False by (simp add: el items_at_def)
    from sp Some hk ne' have len: "length ys < 2 ^ 32"
      and cp: "copy_spec (\<lambda>x. case dup of Some g \<Rightarrow> g x | None \<Rightarrow> Some x) (abs_list s k ys) (abs_state s H) = (r, A')"
      by (auto simp: spec_duplicate_def el length_items_at_eq split: if_splits)
    from sim_copy [OF inv hk duplicate_list_run [OF heap_inv_store_ok [OF inv] ok False len, of dup]]
    obtain r0 s' H' where "duplicate_list (Some k) dup s = Some (Inr (r0, s'))" "heap_inv s' H'"
      "(List_ptr r0, abs_state s' H') = (r, A')"
      unfolding cp by blast
    with Some show ?thesis by (intro exI [of _ s'] exI [of _ H']) (auto simp: exec_call_def)
  qed
qed

lemma exec_call_sim:
  assumes inv: "heap_inv s H" and sp: "spec_exec c (abs_state s H) = Some (r, A')"
  shows "\<exists>s' H'. exec_call c s = Some (Inr (r, s')) \<and> heap_inv s' H' \<and> abs_state s' H' = A'"
proof (cases c)
  case Create_list
  with sp have "spec_create (abs_state s H) = (r, A')" by (simp add: spec_exec_def)
  from sim_create [OF inv this] Create_list show ?thesis by simp
next
  case (Append_to_list l it)
  with sp have "spec_append l it (abs_state s H) = Some (r, A')" by (simp add: spec_exec_def)
  from sim_append [OF inv this] Append_to_list show ?thesis by simp
next
  case (List_size l)
  with sp have "spec_size l (abs_state s H) = Some (r, A')" by (simp add: spec_exec_def)
  from sim_size [OF inv this] List_size show ?thesis by simp
next
  case (Join_lists a b)
  with sp have "spec_join a b (abs_state s H) = Some (r, A')" by (simp add: spec_exec_def)
  from sim_join [OF inv this] Join_lists show ?thesis by simp
next
  case (Delete_list l d)
  with sp have "spec_delete l d (abs_state s H) = Some (r, A')" by (simp add: spec_exec_def)
  from sim_delete [OF inv this] Delete_list show ?thesis by simp
next
  case (Sort_list l cmp)
  with sp have "spec_sort l cmp (abs_state s H) = Some (r, A')" by (simp add: spec_exec_def)
  from sim_sort [OF inv this] Sort_list show ?thesis by simp
next
  case (Search_in_list l crit ps dup)
  with sp have "spec_search l crit ps dup (abs_state s H) = Some (r, A')" by (simp add: spec_exec_def)
  from sim_search [OF inv this] Search_in_list show ?thesis by simp
next
  case (Remove_from_list l crit ps d)
  with sp have "spec_remove l crit ps d (abs_state s H) = Some (r, A')" by (simp add: spec_exec_def)
  from sim_remove [OF inv this] Remove_from_list show ?thesis by simp
next
  case (Duplicate_list l dup)
  with sp have "spec_duplicate l dup (abs_state s H) = Some (r, A')" by (simp add: spec_exec_def)
  from sim_duplicate [OF inv this] Duplicate_list show ?thesis by simp
next
  case (Get_next_item l)
  with sp have "spec_next l (abs_state s H) = Some (r, A')" by (simp add: spec_exec_def)
  from sim_next [OF inv this] Get_next_item show ?thesis by simp
next
  case (Reset_list_item l)
  with sp have "spec_reset l (abs_state s H) = Some (r, A')" by (simp add: spec_exec_def)
  from sim_reset [OF inv this] Reset_list_item show ?thesis by simp
qed

section \<open>Client programs\<close>

text \<open>
  C31. Refinement of the whole interface: from any store holding a layout of
  pairwise disjoint well-formed lists, every sequence of calls that the
  abstract contract accepts runs on the store without undefined behaviour and
  without diverging, returns exactly the results the contract computes, and
  ends in a store that again holds well-formed disjoint lists whose abstract
  values, allocator state and destructor calls are those the contract
  computes.
\<close>

theorem run_calls_refines:
  assumes "heap_inv s H" and "spec_run cs (abs_state s H) = Some (rs, A')"
  shows "\<exists>s' H'. run_calls cs s = Some (Inr (rs, s')) \<and> heap_inv s' H' \<and> abs_state s' H' = A'"
  using assms
proof (induction cs arbitrary: s H rs)
  case Nil
  then show ?case by auto
next
  case (Cons c cs)
  from Cons.prems(2) obtain r A1 rs' where e: "spec_exec c (abs_state s H) = Some (r, A1)"
    and rr: "spec_run cs A1 = Some (rs', A')" and rs: "rs = r # rs'"
    by (auto split: option.splits)
  from exec_call_sim [OF Cons.prems(1) e] obtain s1 H1 where
    x: "exec_call c s = Some (Inr (r, s1))" "heap_inv s1 H1" "abs_state s1 H1 = A1"
    by blast
  from Cons.IH [OF x(2)] rr x(3) obtain s' H' where
    "run_calls cs s1 = Some (Inr (rs', s'))" "heap_inv s' H'" "abs_state s' H' = A'"
    by blast
  with x rs show ?case by auto
qed

theorem run_calls_refines_witness:
  "\<exists>s' H'. run_calls [Create_list, Append_to_list (Some 0) (Some 5), Append_to_list (Some 0) (Some 3),
       Sort_list (Some 0) (Some sort_asc), Duplicate_list (Some 0) None, Join_lists (Some 0) (Some 3),
       List_size (Some 0), Remove_from_list (Some 0) (Some (\<lambda>x p. x < p)) (4 :: int) True,
       Get_next_item (Some 0), Delete_list (Some 0) True] ex_client_store =
     Some (Inr ([List_ptr (Some 0), Int_val 0, Int_val 0, List_ptr (Some 0), List_ptr (Some 3), No_value,
                 Int_val 4, Int_val 2, Item_ptr (Some 5), No_value], s')) \<and>
     heap_inv s' H' \<and> destroyed s' = [3, 3, 5, 5] \<and> avail s' = 10"
proof -
  let ?cs = "[Create_list, Append_to_list (Some 0) (Some 5), Append_to_list (Some 0) (Some 3),
       Sort_list (Some 0) (Some sort_asc), Duplicate_list (Some 0) None, Join_lists (Some 0) (Some 3),
       List_size (Some 0), Remove_from_list (Some 0) (Some (\<lambda>x p. x < p)) (4 :: int) True,
       Get_next_item (Some 0), Delete_list (Some 0) True]"
  let ?rs = "[List_ptr (Some 0), Int_val 0, Int_val 0, List_ptr (Some 0), List_ptr (Some 3), No_value,
                 Int_val 4, Int_val 2, Item_ptr (Some 5), No_value :: int call_result]"
  have inv: "heap_inv ex_client_store Map.empty"
    by (simp add: heap_inv_def ex_client_store_def store_ok_def)
  have "map_option (\<lambda>(rs, A). (rs, adestroyed A, aavail A)) (spec_run ?cs (abs_state ex_client_store Map.empty)) =
      Some (?rs, [3, 3, 5, 5], 10)"
  proof -
    have b: "bubble_sort sort_asc [5, 3 :: int] = Some [3, 5]" by code_simp
    show ?thesis
      by (simp add: b spec_exec_def spec_create_def spec_append_def spec_size_def spec_join_def spec_sort_def
          spec_remove_def copy_spec_def spec_search_def spec_duplicate_def spec_next_def spec_reset_def
          spec_delete_def seq_defs abs_state_def ex_client_store_def Let_def List.map_filter_simps)
  qed
  then obtain A' where sr: "spec_run ?cs (abs_state ex_client_store Map.empty) = Some (?rs, A')"
    and a: "adestroyed A' = [3, 3, 5, 5]" "aavail A' = 10"
    by (auto split: option.splits)
  from run_calls_refines [OF inv sr] a show ?thesis by auto
qed

end
