(* ===== verification/Spec2Isabelle.thy ===== *)
theory Spec2Isabelle
  imports Scenarios Interface
begin

text \<open>
  \<^bold>\<open>A verification development of liblist\<close> (\<open>src/liblist.c\<close>, its interface
  \<open>src/liblist.h\<close>, and the demonstration driver \<open>src/test/test_list.c\<close>).

  \<^bold>\<open>The program.\<close> liblist is a singly-linked list of opaque \<open>void *\<close> items.
  A list header (\<open>struct _list\<close>) holds \<open>first\<close>, \<open>last\<close>, an iteration
  cursor \<open>current\<close> and the count \<open>total_members\<close>; each member
  (\<open>struct list_member\<close>) holds \<open>next\<close> and the item. Every operation works
  on these heap objects through unchecked pointers and the caller's
  callbacks (comparison, criterion, duplication, destruction). The driver
  builds a list of random integers, copies it, sorts the copies, splits it
  around 50, joins the parts, removes the small numbers and frees everything.

  \<^bold>\<open>The model\<close> is a shallow embedding with an explicit store:
  \<^item> \<open>Prelude\<close>: addresses, pointers (\<open>addr option\<close>, \<open>None\<close> is NULL), the
    C \<open>int\<close> counters as \<open>32 word\<close>, the error values \<open>Null_dereference\<close> and
    \<open>Dangling_pointer\<close> for the undefined behaviour of a bad dereference, the
    sequencing \<open>bind_err\<close>, and the shared lemmas on words and lists.
  \<^item> \<open>Store\<close>: the records \<open>member\<close> and \<open>list_hdr\<close> (lines 18--30 of
    liblist.c), the store of both kinds of object as partial maps with a bump
    allocator for \<open>calloc\<close> (\<open>avail\<close> counts the objects that can still be
    allocated, so allocation failure is a branch of every operation) and the
    trace \<open>destroyed\<close> of the items passed to \<open>delete_item\<close>; \<open>free\<close>,
    dereferences and field writes; the segment predicate \<open>lseg\<close>, the list
    invariant \<open>list_ok\<close> (chain from first ending in NULL, last, count modulo
    \<open>2^32\<close>, cursor NULL or a member: section 3 of the spec) and \<open>store_ok\<close>
    (every allocated object lies below the allocator's frontier).
  \<^item> \<open>Seq_Spec\<close>: the abstract list of the spec, a sequence and a cursor
    position, with append, join, nextItem, reset, removeMatching,
    searchMatching and duplicate as functions on it. \<open>List_Core.abs_list\<close>
    maps a well-formed list of the store to it.
  \<^item> \<open>List_Core\<close>: \<open>create_list\<close>, \<open>append_to_list\<close>, \<open>list_size\<close>,
    \<open>join_lists\<close> (lines 37--95), each a function of the store returning the
    C return value and the new store, or an error value.
  \<^item> \<open>Iteration\<close>: \<open>get_next_item\<close>, \<open>reset_list_item\<close> (lines 299--328) and the
    driver's \<open>print_list\<close>.
  \<^item> \<open>Sort\<close>: \<open>sort_list\<close> (lines 132--162), inner loop \<open>sort_pass\<close>, outer
    loop \<open>sort_rounds\<close>, and the driver's comparators. A pass equals the list
    function \<open>bubble_pass\<close>, which never reorders items the comparator
    accepts in both orders, so the sort by a key comparator is \<open>sort_key\<close>;
    for every comparator \<open>sort_list\<close> returns exactly when the list-level
    \<open>bubble_sort\<close> (a \<open>partial_function (option)\<close>) ends, with its result,
    shown by fixpoint induction in both directions.
  \<^item> \<open>Remove\<close>: \<open>remove_from_list\<close> (lines 208--244), loop \<open>remove_loop\<close>.
  \<^item> \<open>Select\<close>: \<open>search_in_list\<close> and \<open>duplicate_list\<close> (lines 174--199 and
    265--291), loops \<open>search_loop\<close> and \<open>duplicate_loop\<close>.
  \<^item> \<open>Delete\<close>: \<open>delete_list\<close> (lines 101--122), loop \<open>delete_loop\<close>.
  \<^item> \<open>Alloc\<close>: the memory behaviour of the library. \<open>mem_step\<close> is the
    inductive step relation of the primitive memory actions (\<open>calloc\<close> of a
    member or a header, a field write to an allocated object, a call of
    \<open>delete_item\<close>, \<open>free\<close> of an allocated object); by rule induction each
    step keeps \<open>store_ok\<close> and the \<open>capacity\<close> (free cells plus allocated
    objects). Every operation and loop of the library, on every store and
    every argument, error paths included, is a sequence of such steps
    whenever it returns, each from the facts \<open>steps_intros\<close> about the
    store primitives. These are structural facts of the store model (any
    sequence of its primitives has them), used as lemmas and not as
    properties of the library's logic.
  \<^item> \<open>Api\<close>: the interface \<open>src/liblist.h\<close> as the datatype \<open>list_call\<close> of its
    eleven prototypes, \<open>exec_call\<close> dispatching each to its operation, and a
    client program as a call sequence run by \<open>run_calls\<close>.
  \<^item> \<open>Scenarios\<close>: the scenarios of section 8 of the spec as call
    sequences of \<open>Api\<close> (fill a list, sort it both ways, remove the items
    below a threshold with a destructor, then iterate), proved for every
    list of integers and threshold from the component lemmas; the spec's
    concrete runs are their witnesses.
  \<^item> \<open>Driver\<close>: \<open>main\<close> of \<open>src/test/test_list.c\<close> as \<open>driver_main\<close>, every
    library call of lines 64--99 in order, with \<open>duplicate_number\<close>. Its
    run is composed from stage lemmas (build, sorted copies, searches,
    join, removal, deletion). Each stage keeps the other lists through
    \<open>lists_are\<close> and the address ranges the bump allocator gives each list.
  \<^item> \<open>Interface\<close>: the contract of \<open>liblist.h\<close> as an abstract machine. Its
    state \<open>astate\<close> holds the client's lists as \<open>Seq_Spec\<close> sequences by
    header address, the allocator frontier, the free cells and the trace of
    destroyed items; \<open>spec_create\<close> ... \<open>spec_duplicate\<close> give the result
    and new state of each call or reject it (\<open>None\<close>) where the contract
    does not define it, and \<open>spec_run\<close> runs a call sequence. \<open>heap_inv s H\<close>
    says the store is \<open>store_ok\<close> and the lists named by \<open>H\<close> are well formed
    with pairwise disjoint members; \<open>abs_state\<close> maps such a store to the
    abstract state. One simulation lemma per call (\<open>sim_create\<close> ...
    \<open>sim_duplicate\<close>) and \<open>exec_call_sim\<close> give the refinement of whole
    client programs. The contract leaves undefined what the code gets wrong
    or cannot promise: a join of a list with itself, or of an empty second
    list after a non-empty first; a remove while the list's cursor is set;
    a count reaching \<open>2^32\<close>; a sort whose bubble sort never ends.

  Every loop that follows pointers is a \<open>partial_function (option)\<close>: a run
  that never ends is the value \<open>None\<close>. Each theorem that an operation returns
  is proved as such (the result is \<open>Some\<close>), by induction over the member list
  of the well-formed list, or, for the outer loop of the sort, by induction on
  the number of inversions, which each pass lowers by its number of swaps.
  The callbacks are HOL functions: a comparison or criterion returning
  non-zero is \<open>True\<close>, a duplicator returning NULL is \<open>None\<close>, and a
  destructor is a flag whose calls are recorded in \<open>destroyed\<close>.

  \<^bold>\<open>What is proved.\<close> For each operation: that it preserves \<open>list_ok\<close> and
  \<open>store_ok\<close>, its result on every branch (NULL arguments, empty lists,
  allocation failure), what it leaves unchanged (\<open>unchanged_outside\<close>), and a
  refinement lemma stating that through \<open>abs_list\<close> it does what the
  corresponding operation of \<open>Seq_Spec\<close> does. The bounds: \<open>total_members\<close>
  is a C \<open>int\<close>, so the count of a list equals its length only modulo
  \<open>2^32\<close>; the theorems that compare a count with 0 (\<open>sort_list\<close>,
  \<open>search_in_list\<close>, \<open>duplicate_list\<close>) assume fewer than \<open>2^32\<close> members.
  The copy operations return NULL if and only if nothing was copied, and
  otherwise a non-empty list.
  Across components: every call sequence the contract accepts runs, from a
  store of disjoint well-formed lists, to the contract's results and final
  state (\<open>Interface\<close>); appending then iterating returns the appended items
  (\<open>Api\<close>); the spec's scenarios hold for every input (\<open>Scenarios\<close>);
  and a driver run with numbers
  on both sides of 50 prints what its comments announce, hands every item to
  \<open>free\<close> exactly once, and frees every header and member it allocated (the
  free cells \<open>avail\<close> at the end are those of the start; the run lemmas of
  \<open>join_lists\<close>, \<open>remove_from_list\<close> and \<open>delete_list\<close> state the cells each
  returns). The driver theorems assume at most 20 numbers (the loop
  bound \<open>n\<close>) and room for five objects per number plus one, enough for the
  five lists it builds.

  The defects found: \<open>join_lists\<close> with an empty second list loses \<open>last\<close>,
  and \<open>join_lists(l, l)\<close> makes the chain cyclic and frees \<open>l\<close>;
  \<open>remove_from_list\<close> leaves the cursor on a freed member; \<open>sort_list\<close> never
  returns for a comparator that rejects equal items; \<open>search_in_list\<close> and
  \<open>duplicate_list\<close> silently drop items when a member cannot be allocated;
  the driver dereferences NULL when no number is at most 50, and its two
  halves around 50 both hold the numbers equal to 50.

  \<^bold>\<open>Not modelled.\<close> \<open>printf\<close> and \<open>rand\<close> of the driver (the printed items are
  returned as a list, the numbers are a parameter), the allocation of the
  integers themselves (items are values, so a failed \<open>calloc\<close> of a number is
  a shorter parameter), and the contents of the memory an item points to.
  The remaining lines of \<open>src/liblist.c\<close> and \<open>src/liblist.h\<close> are comments,
  includes and the include guard.
\<close>

end
